(* ===== verification/Sentry_Prelude.thy ===== *)
theory Sentry_Prelude
  imports Main "HOL-Library.Word" "HOL-Library.Multiset"
begin

text \<open>
  Shared vocabulary of the development: the machine integer types of the Rust code at their
  widths, the \<open>Result\<close>-and-state type of the fallible code, the little-endian and big-endian
  byte conversions used by the cache file, decimal printing for error messages, the two
  operations on association lists that describe a recency list (\<open>drop_key\<close>, \<open>touch\<close>), and the
  generic list lemmas that the component theories share.
\<close>

named_theorems assoc_simps \<open>facts on recency-ordered association lists\<close>
named_theorems io_simps \<open>evaluation of the state-and-error steps\<close>

section \<open>Machine integers and byte strings\<close>

type_synonym byte = "8 word"
type_synonym u16 = "16 word"
type_synonym u32 = "32 word"
type_synonym u64 = "64 word"
type_synonym u128 = "128 word"
type_synonym u256 = "256 word"
type_synonym b256 = "256 word"
type_synonym address = "160 word"

text \<open>The checked operations of Rust's unsigned integers: \<open>None\<close> on overflow or underflow.\<close>

definition checked_add :: "'w::len word \<Rightarrow> 'w word \<Rightarrow> 'w word option" where
  "checked_add a b = (if unat a + unat b < 2 ^ LENGTH('w) then Some (a + b) else None)"

definition checked_sub :: "'w::len word \<Rightarrow> 'w word \<Rightarrow> 'w word option" where
  "checked_sub a b = (if b \<le> a then Some (a - b) else None)"

lemma checked_add_Some_unat:
  "checked_add a b = Some c \<Longrightarrow> unat c = unat a + unat b"
  by (auto simp: checked_add_def unat_word_ariths split: if_splits)

lemma checked_sub_Some_unat:
  "checked_sub a b = Some c \<Longrightarrow> unat c = unat a - unat b \<and> unat b \<le> unat a"
  by (auto simp: checked_sub_def unat_sub word_le_nat_alt split: if_splits)

lemma checked_add_None_iff:
  "checked_add (a :: 'w::len word) b = None \<longleftrightarrow> 2 ^ LENGTH('w) \<le> unat a + unat b"
  by (auto simp: checked_add_def)

lemma unat_less: "unat (w :: 'w::len word) < 2 ^ LENGTH('w)"
  by (rule unsigned_less)

text \<open>A widening cast keeps the number.\<close>

lemma unat_ucast_up:
  assumes "LENGTH('a) \<le> LENGTH('b)"
  shows "unat (ucast (w :: 'a::len word) :: 'b::len word) = unat w"
proof -
  have "unat w < 2 ^ LENGTH('b)"
    using assms by (meson order.strict_trans2 one_le_numeral power_increasing unat_less)
  then show ?thesis
    by (simp add: unsigned_ucast_eq take_bit_nat_eq_self)
qed

text \<open>A remainder of machine integers is zero exactly if the numbers divide.\<close>

lemma of_nat_mod_zero_iff:
  fixes i :: "'w::len word"
  assumes "n < 2 ^ LENGTH('w)"
  shows "(of_nat n :: 'w word) mod i = 0 \<longleftrightarrow> unat i dvd n"
proof -
  have "unat (of_nat n :: 'w word) = n"
    using assms by (simp add: unat_of_nat take_bit_nat_eq_self)
  then show ?thesis
    by (metis dvd_eq_mod_eq_0 unat_eq_zero unat_mod_distrib)
qed

section \<open>Byte conversions\<close>

fun le_bytes :: "nat \<Rightarrow> nat \<Rightarrow> byte list" where
  "le_bytes 0 n = []"
| "le_bytes (Suc k) n = of_nat (n mod 256) # le_bytes k (n div 256)"

fun le_nat :: "byte list \<Rightarrow> nat" where
  "le_nat [] = 0"
| "le_nat (b # bs) = unat b + 256 * le_nat bs"

lemma length_le_bytes [simp]: "length (le_bytes k n) = k"
  by (induction k arbitrary: n) auto

lemma le_nat_le_bytes: "le_nat (le_bytes k n) = n mod 256 ^ k"
proof (induction k arbitrary: n)
  case 0
  then show ?case by simp
next
  case (Suc k)
  have "unat (of_nat (n mod 256) :: byte) = n mod 256"
    by (simp add: unat_of_nat)
  then show ?case
    using Suc.IH [of "n div 256"] by (simp add: mod_mult2_eq)
qed

text \<open>\<open>u32::to_le_bytes\<close> / \<open>u32::from_le_bytes\<close>, and the bytes of a \<open>B256\<close>, most significant first.\<close>

definition u32_to_le_bytes :: "u32 \<Rightarrow> byte list" where
  "u32_to_le_bytes w = le_bytes 4 (unat w)"

definition u32_from_le_bytes :: "byte list \<Rightarrow> u32" where
  "u32_from_le_bytes bs = of_nat (le_nat bs)"

definition b256_bytes :: "b256 \<Rightarrow> byte list" where
  "b256_bytes h = rev (le_bytes 32 (unat h))"

definition b256_of_bytes :: "byte list \<Rightarrow> b256" where
  "b256_of_bytes bs = of_nat (le_nat (rev bs))"

lemma length_u32_to_le_bytes [simp]: "length (u32_to_le_bytes w) = 4"
  by (simp add: u32_to_le_bytes_def)

lemma length_b256_bytes [simp]: "length (b256_bytes h) = 32"
  by (simp add: b256_bytes_def)

lemma u32_from_to_le_bytes [simp]: "u32_from_le_bytes (u32_to_le_bytes w) = w"
proof -
  have "unat w < 256 ^ 4" by (rule order.strict_trans2 [OF unsigned_less]) simp
  then show ?thesis
    by (simp add: u32_to_le_bytes_def u32_from_le_bytes_def le_nat_le_bytes)
qed

lemma b256_of_bytes_bytes [simp]: "b256_of_bytes (b256_bytes h) = h"
proof -
  have "unat h < 256 ^ 32" by (rule order.strict_trans2 [OF unsigned_less]) simp
  then show ?thesis
    by (simp add: b256_bytes_def b256_of_bytes_def le_nat_le_bytes)
qed

section \<open>Decimal printing\<close>

text \<open>The rendering of an unsigned integer by \<open>format!("{}", n)\<close>.\<close>

fun show_nat :: "nat \<Rightarrow> string" where
  "show_nat n =
     (if n < 10 then [char_of (48 + n)] else show_nat (n div 10) @ [char_of (48 + n mod 10)])"

declare show_nat.simps [simp del]

section \<open>Results with state\<close>

text \<open>
  A fallible step over a state: \<open>Inl\<close> is \<open>Err\<close>, \<open>Inr\<close> is \<open>Ok\<close>. \<open>io_bind m f\<close> is
  \<open>let x = m?; f(x)\<close>: an error skips the rest and keeps the state reached so far.
\<close>

type_synonym ('s, 'e, 'a) io = "'s \<Rightarrow> ('e + 'a) \<times> 's"

definition io_return :: "'a \<Rightarrow> ('s, 'e, 'a) io" where
  "io_return x = (\<lambda>s. (Inr x, s))"

definition io_fail :: "'e \<Rightarrow> ('s, 'e, 'a) io" where
  "io_fail e = (\<lambda>s. (Inl e, s))"

definition io_bind :: "('s, 'e, 'a) io \<Rightarrow> ('a \<Rightarrow> ('s, 'e, 'b) io) \<Rightarrow> ('s, 'e, 'b) io" where
  "io_bind m f = (\<lambda>s. case m s of (Inl e, s') \<Rightarrow> (Inl e, s') | (Inr x, s') \<Rightarrow> f x s')"

lemma io_return_apply [io_simps]: "io_return x s = (Inr x, s)"
  by (simp add: io_return_def)

lemma io_fail_apply [io_simps]: "io_fail e s = (Inl e, s)"
  by (simp add: io_fail_def)

lemma io_bind_Ok [io_simps]: "m s = (Inr x, s') \<Longrightarrow> io_bind m f s = f x s'"
  by (simp add: io_bind_def)

lemma io_bind_Err [io_simps]: "m s = (Inl e, s') \<Longrightarrow> io_bind m f s = (Inl e, s')"
  by (simp add: io_bind_def)

text \<open>\<open>early e r\<close> is a check that returns the error in \<open>e\<close>, if there is one, before the rest \<open>r\<close>.\<close>

definition early :: "'e option \<Rightarrow> 'e + 'a \<Rightarrow> 'e + 'a" where
  "early e r = (case e of Some x \<Rightarrow> Inl x | None \<Rightarrow> r)"

lemma early_simps [simp]:
  "early None r = r"
  "early (Some x) r = Inl x"
  by (simp_all add: early_def)

lemma early_eq_Inr_iff: "early e r = Inr x \<longleftrightarrow> e = None \<and> r = Inr x"
  by (cases e) auto

lemma early_eq_Inl_iff: "early e r = Inl x \<longleftrightarrow> e = Some x \<or> e = None \<and> r = Inl x"
  by (cases e) auto

section \<open>Recency lists\<close>

text \<open>
  A recency list is an association list whose head is the entry used last. \<open>touch k\<close> moves the
  entry of \<open>k\<close> to the front, when there is one.
\<close>

definition drop_key :: "'k \<Rightarrow> ('k \<times> 'v) list \<Rightarrow> ('k \<times> 'v) list" where
  "drop_key k es = filter (\<lambda>e. fst e \<noteq> k) es"

definition touch :: "'k \<Rightarrow> ('k \<times> 'v) list \<Rightarrow> ('k \<times> 'v) list" where
  "touch k es = (case map_of es k of None \<Rightarrow> es | Some v \<Rightarrow> (k, v) # drop_key k es)"

lemma drop_key_simps [simp]:
  "drop_key k [] = []"
  "drop_key k (e # es) = (if fst e = k then drop_key k es else e # drop_key k es)"
  by (auto simp: drop_key_def)

lemma keys_drop_key [simp]: "map fst (drop_key k es) = removeAll k (map fst es)"
  by (induction es) auto

lemma map_of_drop_key [simp]: "map_of (drop_key k es) = (map_of es)(k := None)"
  by (induction es) (auto simp: fun_eq_iff)

lemma drop_key_absent: "k \<notin> fst ` set es \<Longrightarrow> drop_key k es = es"
  by (induction es) auto

lemma length_drop_key_le: "length (drop_key k es) \<le> length es"
  by (simp add: drop_key_def)

lemma distinct_removeAll_length:
  "distinct xs \<Longrightarrow> x \<in> set xs \<Longrightarrow> Suc (length (removeAll x xs)) = length xs"
  by (induction xs) (auto simp: removeAll_id)

lemma length_drop_key_present:
  assumes "distinct (map fst es)" "map_of es k = Some v"
  shows "Suc (length (drop_key k es)) = length es"
proof -
  have "k \<in> set (map fst es)"
    using assms(2) by (force dest: map_of_SomeD)
  then have "Suc (length (removeAll k (map fst es))) = length (map fst es)"
    by (rule distinct_removeAll_length [OF assms(1)])
  then show ?thesis
    by (metis keys_drop_key length_map)
qed

lemma distinct_drop_key [intro]:
  "distinct (map fst es) \<Longrightarrow> distinct (map fst (drop_key k es))"
  by (simp add: distinct_removeAll)

lemma map_of_touch [simp]: "map_of (touch k es) = map_of es"
  by (auto simp: touch_def fun_eq_iff split: option.split)

lemma keys_touch:
  "map fst (touch k es) =
     (if k \<in> fst ` set es then k # removeAll k (map fst es) else map fst es)"
  by (force simp: touch_def map_of_eq_None_iff split: option.split dest: map_of_SomeD)

lemma length_touch [simp]: "distinct (map fst es) \<Longrightarrow> length (touch k es) = length es"
  by (auto simp: touch_def length_drop_key_present split: option.split)

lemma distinct_touch [intro]:
  "distinct (map fst es) \<Longrightarrow> distinct (map fst (touch k es))"
  by (simp add: keys_touch distinct_removeAll)

lemma map_of_take_Some:
  assumes "distinct (map fst es)" "map_of (take n es) k = Some v"
  shows "map_of es k = Some v"
proof -
  have "(k, v) \<in> set es"
    using assms(2) by (meson in_set_takeD map_of_SomeD)
  with assms(1) show ?thesis by simp
qed

text \<open>
  \<open>pinned P es\<close>: the keys of \<open>P\<close> that are present come before all others, so they are the last to
  be evicted. Touching or pushing a key adds it to the pinned ones.
\<close>

definition pinned :: "'k set \<Rightarrow> ('k \<times> 'v) list \<Rightarrow> bool" where
  "pinned P es \<longleftrightarrow> P \<inter> fst ` set (dropWhile (\<lambda>e. fst e \<in> P) es) = {}"

lemma pinnedI:
  assumes "es = front @ others" "fst ` set front \<subseteq> P" "P \<inter> fst ` set others = {}"
  shows "pinned P es"
proof -
  have "dropWhile (\<lambda>e. fst e \<in> P) es = dropWhile (\<lambda>e. fst e \<in> P) others"
    unfolding assms(1) by (rule dropWhile_append2) (use assms(2) in auto)
  then have "set (dropWhile (\<lambda>e. fst e \<in> P) es) \<subseteq> set others"
    by (metis set_dropWhileD subsetI)
  with assms(3) show ?thesis unfolding pinned_def by blast
qed

lemma pinnedE:
  assumes "pinned P es"
  obtains front others where "es = front @ others" "fst ` set front \<subseteq> P" "P \<inter> fst ` set others = {}"
proof
  show "es = takeWhile (\<lambda>e. fst e \<in> P) es @ dropWhile (\<lambda>e. fst e \<in> P) es" by simp
  show "fst ` set (takeWhile (\<lambda>e. fst e \<in> P) es) \<subseteq> P" by (auto dest: set_takeWhileD)
  show "P \<inter> fst ` set (dropWhile (\<lambda>e. fst e \<in> P) es) = {}" using assms by (simp add: pinned_def)
qed

lemma pinned_empty [simp]: "pinned {} es"
  by (simp add: pinned_def)

lemma drop_key_append [simp]: "drop_key k (xs @ ys) = drop_key k xs @ drop_key k ys"
  by (simp add: drop_key_def)

lemma set_drop_key [simp]: "set (drop_key k es) = {e \<in> set es. fst e \<noteq> k}"
  by (auto simp: drop_key_def)

lemma pinned_touch:
  assumes "pinned P es"
  shows "pinned (insert k P) (touch k es)"
proof (cases "map_of es k")
  case None
  from assms obtain front others
    where es: "es = front @ others" "fst ` set front \<subseteq> P" "P \<inter> fst ` set others = {}"
    by (rule pinnedE)
  from None es have "insert k P \<inter> fst ` set others = {}"
    by (auto simp: map_of_eq_None_iff)
  moreover have "touch k es = es"
    by (simp add: touch_def None)
  ultimately show ?thesis
    using es by (intro pinnedI [of _ front others]) auto
next
  case (Some v)
  from assms obtain front others
    where es: "es = front @ others" "fst ` set front \<subseteq> P" "P \<inter> fst ` set others = {}"
    by (rule pinnedE)
  show ?thesis
  proof (rule pinnedI)
    show "touch k es = ((k, v) # drop_key k front) @ drop_key k others"
      using Some es(1) by (simp add: touch_def)
  qed (use es in auto)
qed

lemma pinned_push:
  assumes "pinned P es" "distinct (map fst es)" "finite P" "card (insert k P) \<le> n"
  shows "pinned (insert k P) (take n ((k, v) # drop_key k es))"
    and "p \<in> P \<Longrightarrow> p \<noteq> k \<Longrightarrow> map_of (take n ((k, v) # drop_key k es)) p = map_of es p"
proof -
  from assms(1) obtain front others
    where es: "es = front @ others" "fst ` set front \<subseteq> P" "P \<inter> fst ` set others = {}"
    by (rule pinnedE)
  let ?front = "(k, v) # drop_key k front"
  have "distinct (map fst ?front)"
    using assms(2) es(1) by (auto simp: distinct_removeAll)
  then have "length ?front = card (fst ` set ?front)"
    by (metis distinct_card length_map list.set_map)
  also have "\<dots> \<le> card (insert k P)"
    using es(2) assms(3) by (intro card_mono) auto
  finally have len: "length ?front \<le> n"
    using assms(4) by simp
  then have eq: "take n ((k, v) # drop_key k es) =
      ?front @ take (n - length ?front) (drop_key k others)"
    using es(1) by (cases n) auto
  show "pinned (insert k P) (take n ((k, v) # drop_key k es))"
    by (rule pinnedI [OF eq]) (use es in \<open>force dest: in_set_takeD\<close>)+
  assume p: "p \<in> P" "p \<noteq> k"
  then have "p \<notin> fst ` set (take (n - length ?front) (drop_key k others))"
    using es(3) by (force dest: in_set_takeD)
  then have "map_of (take (n - length ?front) (drop_key k others)) p = None"
    by (simp add: map_of_eq_None_iff)
  moreover have "map_of others p = None"
    using es(3) p by (auto simp: map_of_eq_None_iff)
  ultimately show "map_of (take n ((k, v) # drop_key k es)) p = map_of es p"
    unfolding eq using p by (simp add: es(1) map_add_def split: option.split)
qed

section \<open>Lists\<close>

text \<open>\<open>sort_key\<close> on distinct keys depends on the elements alone.\<close>

lemma filter_same_key:
  "distinct (map f xs) \<Longrightarrow> k \<in> set xs \<Longrightarrow> filter (\<lambda>x. f k = f x) xs = [k]"
proof (induction xs)
  case Nil
  then show ?case by simp
next
  case (Cons a xs)
  show ?case
  proof (cases "k = a")
    case True
    with Cons.prems have "filter (\<lambda>x. f k = f x) xs = []"
      by (auto simp: filter_empty_conv image_iff)
    with True show ?thesis by simp
  next
    case False
    with Cons.prems have "k \<in> set xs" "f k \<noteq> f a" by (auto simp: image_iff)
    with Cons show ?thesis by simp
  qed
qed

lemma sort_key_distinct_unique:
  assumes "mset ys = mset xs" "distinct (map f xs)" "sorted (map f ys)"
  shows "sort_key f xs = ys"
proof (rule properties_for_sort_key [OF assms(1) _ assms(3)])
  fix k assume "k \<in> set ys"
  have "mset (map f ys) = mset (map f xs)" using assms(1) by simp
  then have "distinct (map f ys)" using assms(2) mset_eq_imp_distinct_iff by blast
  moreover have "k \<in> set xs" using \<open>k \<in> set ys\<close> assms(1) mset_eq_setD by blast
  ultimately show "filter (\<lambda>x. f k = f x) ys = filter (\<lambda>x. f k = f x) xs"
    using \<open>k \<in> set ys\<close> assms(2) by (simp add: filter_same_key)
qed

lemma set_map_filter: "set (List.map_filter f xs) = {y. \<exists>x \<in> set xs. f x = Some y}"
proof -
  have "y \<in> set (List.map_filter f xs) \<longleftrightarrow> (\<exists>x \<in> set xs. f x = Some y)" for y
    by (induction xs) (auto split: option.splits)
  then show ?thesis by blast
qed

lemma map_map_filter:
  "(\<And>x y. x \<in> set xs \<Longrightarrow> f x = Some y \<Longrightarrow> g y = k x) \<Longrightarrow>
   map g (List.map_filter f xs) = map k (filter (\<lambda>x. f x \<noteq> None) xs)"
  by (induction xs) (auto split: option.splits)

lemma length_map_filter_le: "length (List.map_filter f xs) \<le> length xs"
  by (induction xs) (auto split: option.splits)

lemma map_filter_eq_map: "(\<And>x. x \<in> set xs \<Longrightarrow> f x = Some (g x)) \<Longrightarrow> List.map_filter f xs = map g xs"
  by (induction xs) auto

lemma length_map_filter_eq:
  "length (List.map_filter f xs) = length xs \<longleftrightarrow> (\<forall>x \<in> set xs. f x \<noteq> None)"
proof (induction xs)
  case Nil
  then show ?case by simp
next
  case (Cons x xs)
  then show ?case using length_map_filter_le [of f xs] by (auto split: option.splits)
qed

text \<open>
  \<open>Iterator::max_by_key\<close>: the element of the largest key, the last one where several are equal.
\<close>

definition max_by_key :: "('a \<Rightarrow> 'k::linorder) \<Rightarrow> 'a list \<Rightarrow> 'a option" where
  "max_by_key f xs =
     (case xs of [] \<Rightarrow> None
      | x # ys \<Rightarrow> Some (foldl (\<lambda>m y. if f m \<le> f y then y else m) x ys))"

lemma max_by_key_Nil [simp]: "max_by_key f [] = None"
  by (simp add: max_by_key_def)

lemma foldl_max_key:
  "let m = foldl (\<lambda>m y. if f m \<le> f y then y else m) x ys
   in m \<in> insert x (set ys) \<and> (\<forall>z \<in> insert x (set ys). f z \<le> (f m :: 'k::linorder))"
  by (induction ys arbitrary: x) (fastforce simp: Let_def)+

lemma max_by_key_Some:
  "max_by_key f xs = Some m \<Longrightarrow> m \<in> set xs \<and> (\<forall>z \<in> set xs. f z \<le> f m)"
  using foldl_max_key [of f] by (auto simp: max_by_key_def Let_def split: list.splits)

lemma max_by_key_eq_None_iff [simp]: "max_by_key f xs = None \<longleftrightarrow> xs = []"
  by (simp add: max_by_key_def split: list.split)

end
