(* ===== verification/Lru_Interface.thy ===== *)
theory Lru_Interface
  imports Sentry_Prelude
begin

text \<open>
  The interface of \<open>lru::LruCache\<close> (crate \<open>lru\<close> 0.12), which the sources call and do not contain.
  A cache is a value of an arbitrary type; its operations are the fields of the record
  \<open>lru_ops\<close>, an argument of every definition that uses a cache. The locale \<open>lru_cache\<close> states what
  the crate documents of each operation, over the documented iteration order (most recently used
  first). The laws concern caches that satisfy \<open>lru_ok\<close>: a positive capacity, no key twice, no
  more entries than the capacity; every operation keeps it. \<open>list_lru\<close> is an implementation by a
  recency list; it shows that the laws hold together and it evaluates the concrete runs.
\<close>

record ('c, 'k, 'v) lru_ops =
  lru_new :: "nat \<Rightarrow> 'c"
  lru_cap :: "'c \<Rightarrow> nat"
  lru_iter :: "'c \<Rightarrow> ('k \<times> 'v) list"
  lru_push :: "'k \<Rightarrow> 'v \<Rightarrow> 'c \<Rightarrow> 'c"
  lru_get :: "'k \<Rightarrow> 'c \<Rightarrow> 'v option \<times> 'c"
  lru_peek :: "'k \<Rightarrow> 'c \<Rightarrow> 'v option"
  lru_contains :: "'k \<Rightarrow> 'c \<Rightarrow> bool"
  lru_promote :: "'k \<Rightarrow> 'c \<Rightarrow> 'c"

definition lru_ok :: "('c, 'k, 'v) lru_ops \<Rightarrow> 'c \<Rightarrow> bool" where
  "lru_ok L c \<longleftrightarrow> 0 < lru_cap L c \<and> length (lru_iter L c) \<le> lru_cap L c
     \<and> distinct (map fst (lru_iter L c))"

text \<open>The cache seen as a map, and its keys from the most to the least recently used.\<close>

definition lru_view :: "('c, 'k, 'v) lru_ops \<Rightarrow> 'c \<Rightarrow> ('k \<rightharpoonup> 'v)" where
  "lru_view L c = map_of (lru_iter L c)"

definition lru_keys :: "('c, 'k, 'v) lru_ops \<Rightarrow> 'c \<Rightarrow> 'k list" where
  "lru_keys L c = map fst (lru_iter L c)"

locale lru_cache =
  fixes L :: "('c, 'k, 'v) lru_ops"
  assumes cap_new: "0 < n \<Longrightarrow> lru_cap L (lru_new L n) = n"
    and iter_new: "0 < n \<Longrightarrow> lru_iter L (lru_new L n) = []"
    and cap_push: "lru_ok L c \<Longrightarrow> lru_cap L (lru_push L k v c) = lru_cap L c"
    and iter_push: "lru_ok L c \<Longrightarrow>
      lru_iter L (lru_push L k v c) = take (lru_cap L c) ((k, v) # drop_key k (lru_iter L c))"
    and fst_get: "lru_ok L c \<Longrightarrow> fst (lru_get L k c) = map_of (lru_iter L c) k"
    and cap_get: "lru_ok L c \<Longrightarrow> lru_cap L (snd (lru_get L k c)) = lru_cap L c"
    and iter_get: "lru_ok L c \<Longrightarrow> lru_iter L (snd (lru_get L k c)) = touch k (lru_iter L c)"
    and peek_eq: "lru_ok L c \<Longrightarrow> lru_peek L k c = map_of (lru_iter L c) k"
    and contains_eq: "lru_ok L c \<Longrightarrow> lru_contains L k c \<longleftrightarrow> k \<in> fst ` set (lru_iter L c)"
    and cap_promote: "lru_ok L c \<Longrightarrow> lru_cap L (lru_promote L k c) = lru_cap L c"
    and iter_promote: "lru_ok L c \<Longrightarrow> lru_iter L (lru_promote L k c) = touch k (lru_iter L c)"
begin

lemma ok_cap_pos: "lru_ok L c \<Longrightarrow> 0 < lru_cap L c"
  by (simp add: lru_ok_def)

lemma ok_new: "0 < n \<Longrightarrow> lru_ok L (lru_new L n)"
  by (simp add: lru_ok_def cap_new iter_new)

lemma ok_push:
  assumes "lru_ok L c"
  shows "lru_ok L (lru_push L k v c)"
proof -
  have "distinct (map fst ((k, v) # drop_key k (lru_iter L c)))"
    using assms by (auto simp: lru_ok_def distinct_removeAll)
  then have "distinct (map fst (take n ((k, v) # drop_key k (lru_iter L c))))" for n
    by (metis distinct_take take_map)
  then show ?thesis
    using assms unfolding lru_ok_def cap_push [OF assms] iter_push [OF assms] by simp
qed

lemma ok_get: "lru_ok L c \<Longrightarrow> lru_ok L (snd (lru_get L k c))"
  unfolding lru_ok_def
  by (metis cap_get distinct_touch iter_get length_touch lru_ok_def)

lemma ok_promote: "lru_ok L c \<Longrightarrow> lru_ok L (lru_promote L k c)"
  unfolding lru_ok_def
  by (metis cap_promote distinct_touch iter_promote length_touch lru_ok_def)

lemmas ok_ops = ok_new ok_push ok_get ok_promote
lemmas cap_ops = cap_new cap_push cap_get cap_promote

lemma view_new: "0 < n \<Longrightarrow> lru_view L (lru_new L n) = Map.empty"
  by (simp add: lru_view_def iter_new)

lemma get_view: "lru_ok L c \<Longrightarrow> fst (lru_get L k c) = lru_view L c k"
  by (simp add: lru_view_def fst_get)

lemma peek_view: "lru_ok L c \<Longrightarrow> lru_peek L k c = lru_view L c k"
  by (simp add: lru_view_def peek_eq)

lemma view_get: "lru_ok L c \<Longrightarrow> lru_view L (snd (lru_get L k c)) = lru_view L c"
  by (simp add: lru_view_def iter_get)

lemma view_promote: "lru_ok L c \<Longrightarrow> lru_view L (lru_promote L k c) = lru_view L c"
  by (simp add: lru_view_def iter_promote)

lemma view_push_same: "lru_ok L c \<Longrightarrow> lru_view L (lru_push L k v c) k = Some v"
  by (cases "lru_cap L c") (auto simp: lru_view_def iter_push lru_ok_def)

text \<open>A push may evict, so an older entry found afterwards was there before, unchanged.\<close>

lemma view_push_other:
  assumes "lru_ok L c" "lru_view L (lru_push L k v c) k' = Some v'" "k' \<noteq> k"
  shows "lru_view L c k' = Some v'"
proof -
  have "distinct (map fst ((k, v) # drop_key k (lru_iter L c)))"
    using assms(1) by (auto simp: lru_ok_def distinct_removeAll)
  moreover have "map_of (take (lru_cap L c) ((k, v) # drop_key k (lru_iter L c))) k' = Some v'"
    using assms(1,2) by (simp only: lru_view_def iter_push)
  ultimately have "map_of ((k, v) # drop_key k (lru_iter L c)) k' = Some v'"
    by (rule map_of_take_Some)
  with assms(3) show ?thesis by (simp add: lru_view_def)
qed

text \<open>On the keys alone, every operation is a move to the front, cut at the capacity.\<close>

lemma keys_push:
  "lru_ok L c \<Longrightarrow>
   lru_keys L (lru_push L k v c) = take (lru_cap L c) (k # removeAll k (lru_keys L c))"
  unfolding lru_keys_def iter_push take_map [symmetric] by simp

lemma keys_view: "lru_ok L c \<Longrightarrow> set (lru_keys L c) = dom (lru_view L c)"
  by (simp add: lru_keys_def lru_view_def dom_map_of_conv_image_fst)

text \<open>Nothing is evicted while there is room for the key.\<close>

lemma iter_push_room:
  assumes "lru_ok L c" "k \<in> fst ` set (lru_iter L c) \<or> length (lru_iter L c) < lru_cap L c"
  shows "lru_iter L (lru_push L k v c) = (k, v) # drop_key k (lru_iter L c)"
proof -
  have "length ((k, v) # drop_key k (lru_iter L c)) \<le> lru_cap L c"
  proof (cases "k \<in> fst ` set (lru_iter L c)")
    case True
    then obtain w where "map_of (lru_iter L c) k = Some w"
      by (metis map_of_eq_None_iff option.exhaust)
    then show ?thesis
      using assms(1) length_drop_key_present by (fastforce simp: lru_ok_def)
  next
    case False
    with assms(2) have "length (lru_iter L c) < lru_cap L c" by blast
    then show ?thesis
      using length_drop_key_le [of k "lru_iter L c"] by simp
  qed
  then show ?thesis
    using assms(1) by (simp only: iter_push take_all)
qed

lemma view_push_room:
  assumes "lru_ok L c" "k \<in> fst ` set (lru_iter L c) \<or> length (lru_iter L c) < lru_cap L c"
  shows "lru_view L (lru_push L k v c) = (lru_view L c)(k \<mapsto> v)"
  by (simp add: lru_view_def iter_push_room [OF assms] fun_eq_iff)

end

section \<open>An implementation by a recency list\<close>

definition list_lru :: "(nat \<times> ('k \<times> 'v) list, 'k, 'v) lru_ops" where
  "list_lru = \<lparr>
     lru_new = (\<lambda>n. (n, [])),
     lru_cap = fst,
     lru_iter = snd,
     lru_push = (\<lambda>k v c. (fst c, take (fst c) ((k, v) # drop_key k (snd c)))),
     lru_get = (\<lambda>k c. (map_of (snd c) k, (fst c, touch k (snd c)))),
     lru_peek = (\<lambda>k c. map_of (snd c) k),
     lru_contains = (\<lambda>k c. k \<in> fst ` set (snd c)),
     lru_promote = (\<lambda>k c. (fst c, touch k (snd c)))\<rparr>"

lemma list_lru_simps [simp]:
  "lru_new list_lru n = (n, [])"
  "lru_cap list_lru c = fst c"
  "lru_iter list_lru c = snd c"
  "lru_push list_lru k v c = (fst c, take (fst c) ((k, v) # drop_key k (snd c)))"
  "lru_get list_lru k c = (map_of (snd c) k, (fst c, touch k (snd c)))"
  "lru_peek list_lru k c = map_of (snd c) k"
  "lru_contains list_lru k c = (k \<in> fst ` set (snd c))"
  "lru_promote list_lru k c = (fst c, touch k (snd c))"
  by (simp_all add: list_lru_def)

interpretation list_cache: lru_cache list_lru
  by unfold_locales simp_all

end
