(* ===== verification/Block_Cache.thy ===== *)
theory Block_Cache
  imports Lru_Interface
begin

text \<open>
  \<open>src/block_cache.rs\<close>, the in-memory part: four LRU caches behind one mutex. A header is a record
  of the two fields of \<open>alloy_consensus::Header\<close> that the sources read; its other fields are the
  record's extension \<open>'x\<close>. A body is a value of any type \<open>'b\<close>. The four LRU implementations are
  the argument \<open>B\<close> of every operation. A method that takes the lock and reorders a cache (\<open>get\<close>)
  returns the new state beside its result; a method that only peeks does not.
\<close>

record header =
  number :: u64
  timestamp :: u64

record ('hh, 'hn, 'nh, 'bh) block_cache_inner =
  headers_by_hash :: 'hh
  headers_by_number :: 'hn
  hash_by_number :: 'nh
  bodies_by_hash :: 'bh

record ('hh, 'hn, 'nh, 'bh) block_cache = "('hh, 'hn, 'nh, 'bh) block_cache_inner" +
  capacity :: nat

record ('hh, 'hn, 'nh, 'bh, 'x, 'b) block_lrus =
  hh_lru :: "('hh, b256, 'x header_scheme) lru_ops"
  hn_lru :: "('hn, u64, 'x header_scheme) lru_ops"
  nh_lru :: "('nh, u64, b256) lru_ops"
  bh_lru :: "('bh, b256, 'b) lru_ops"

record ('x, 'b) cached_block =
  cb_hash :: b256
  cb_header :: "'x header_scheme"
  cb_body :: 'b

definition DEFAULT_CACHE_SIZE :: nat where
  "DEFAULT_CACHE_SIZE = 256"

section \<open>Operations\<close>

definition cache_new ::
    "('hh, 'hn, 'nh, 'bh, 'x, 'b) block_lrus \<Rightarrow> nat \<Rightarrow> ('hh, 'hn, 'nh, 'bh) block_cache" where
  "cache_new B cap0 =
     (let cap = (if cap0 = 0 then DEFAULT_CACHE_SIZE else cap0)
      in \<lparr>headers_by_hash = lru_new (hh_lru B) cap,
          headers_by_number = lru_new (hn_lru B) cap,
          hash_by_number = lru_new (nh_lru B) cap,
          bodies_by_hash = lru_new (bh_lru B) cap,
          capacity = cap0\<rparr>)"

definition cache_insert ::
    "('hh, 'hn, 'nh, 'bh, 'x, 'b) block_lrus \<Rightarrow> b256 \<Rightarrow> 'x header_scheme \<Rightarrow> 'b
     \<Rightarrow> ('hh, 'hn, 'nh, 'bh) block_cache \<Rightarrow> ('hh, 'hn, 'nh, 'bh) block_cache" where
  "cache_insert B hash hdr body c =
     (let num = number hdr
      in c\<lparr>headers_by_hash := lru_push (hh_lru B) hash hdr (headers_by_hash c),
           headers_by_number := lru_push (hn_lru B) num hdr (headers_by_number c),
           hash_by_number := lru_push (nh_lru B) num hash (hash_by_number c),
           bodies_by_hash := lru_push (bh_lru B) hash body (bodies_by_hash c)\<rparr>)"

definition cache_insert_header ::
    "('hh, 'hn, 'nh, 'bh, 'x, 'b) block_lrus \<Rightarrow> b256 \<Rightarrow> 'x header_scheme
     \<Rightarrow> ('hh, 'hn, 'nh, 'bh) block_cache \<Rightarrow> ('hh, 'hn, 'nh, 'bh) block_cache" where
  "cache_insert_header B hash hdr c =
     (let num = number hdr
      in c\<lparr>headers_by_hash := lru_push (hh_lru B) hash hdr (headers_by_hash c),
           headers_by_number := lru_push (hn_lru B) num hdr (headers_by_number c),
           hash_by_number := lru_push (nh_lru B) num hash (hash_by_number c)\<rparr>)"

definition cache_insert_body ::
    "('hh, 'hn, 'nh, 'bh, 'x, 'b) block_lrus \<Rightarrow> b256 \<Rightarrow> 'b
     \<Rightarrow> ('hh, 'hn, 'nh, 'bh) block_cache \<Rightarrow> ('hh, 'hn, 'nh, 'bh) block_cache" where
  "cache_insert_body B hash body c =
     c\<lparr>bodies_by_hash := lru_push (bh_lru B) hash body (bodies_by_hash c)\<rparr>"

definition get_header_by_hash ::
    "('hh, 'hn, 'nh, 'bh, 'x, 'b) block_lrus \<Rightarrow> b256 \<Rightarrow> ('hh, 'hn, 'nh, 'bh) block_cache
     \<Rightarrow> 'x header_scheme option \<times> ('hh, 'hn, 'nh, 'bh) block_cache" where
  "get_header_by_hash B hash c =
     (case lru_get (hh_lru B) hash (headers_by_hash c) of
        (res, m) \<Rightarrow> (res, c\<lparr>headers_by_hash := m\<rparr>))"

definition get_header_by_number ::
    "('hh, 'hn, 'nh, 'bh, 'x, 'b) block_lrus \<Rightarrow> u64 \<Rightarrow> ('hh, 'hn, 'nh, 'bh) block_cache
     \<Rightarrow> 'x header_scheme option \<times> ('hh, 'hn, 'nh, 'bh) block_cache" where
  "get_header_by_number B num c =
     (case lru_get (hn_lru B) num (headers_by_number c) of
        (res, m) \<Rightarrow> (res, c\<lparr>headers_by_number := m\<rparr>))"

definition get_body_by_hash ::
    "('hh, 'hn, 'nh, 'bh, 'x, 'b) block_lrus \<Rightarrow> b256 \<Rightarrow> ('hh, 'hn, 'nh, 'bh) block_cache
     \<Rightarrow> 'b option \<times> ('hh, 'hn, 'nh, 'bh) block_cache" where
  "get_body_by_hash B hash c =
     (case lru_get (bh_lru B) hash (bodies_by_hash c) of
        (res, m) \<Rightarrow> (res, c\<lparr>bodies_by_hash := m\<rparr>))"

definition get_hash_by_number ::
    "('hh, 'hn, 'nh, 'bh, 'x, 'b) block_lrus \<Rightarrow> u64 \<Rightarrow> ('hh, 'hn, 'nh, 'bh) block_cache
     \<Rightarrow> b256 option \<times> ('hh, 'hn, 'nh, 'bh) block_cache" where
  "get_hash_by_number B num c =
     (case lru_get (nh_lru B) num (hash_by_number c) of
        (res, m) \<Rightarrow> (res, c\<lparr>hash_by_number := m\<rparr>))"

text \<open>The highest number of \<open>hash_by_number\<close>, if \<open>headers_by_number\<close> still has its header.\<close>

definition latest ::
    "('hh, 'hn, 'nh, 'bh, 'x, 'b) block_lrus \<Rightarrow> ('hh, 'hn, 'nh, 'bh) block_cache
     \<Rightarrow> (b256 \<times> 'x header_scheme) option" where
  "latest B c =
     (case max_by_key fst (lru_iter (nh_lru B) (hash_by_number c)) of
        None \<Rightarrow> None
      | Some (num, hash) \<Rightarrow>
          (case lru_peek (hn_lru B) num (headers_by_number c) of
             None \<Rightarrow> None | Some h \<Rightarrow> Some (hash, h)))"

text \<open>The closure of \<open>filter_map\<close>, and \<open>drain_blocks\<close>, which sorts by block number (stably).\<close>

definition drain_entry ::
    "('hh, 'hn, 'nh, 'bh, 'x, 'b) block_lrus \<Rightarrow> ('hh, 'hn, 'nh, 'bh) block_cache
     \<Rightarrow> u64 \<times> b256 \<Rightarrow> ('x, 'b) cached_block option" where
  "drain_entry B c e =
     (case lru_peek (hn_lru B) (fst e) (headers_by_number c) of
        None \<Rightarrow> None
      | Some h \<Rightarrow>
          (case lru_peek (bh_lru B) (snd e) (bodies_by_hash c) of
             None \<Rightarrow> None
           | Some b \<Rightarrow> Some \<lparr>cb_hash = snd e, cb_header = h, cb_body = b\<rparr>))"

definition drain_blocks ::
    "('hh, 'hn, 'nh, 'bh, 'x, 'b) block_lrus \<Rightarrow> ('hh, 'hn, 'nh, 'bh) block_cache
     \<Rightarrow> ('x, 'b) cached_block list" where
  "drain_blocks B c =
     sort_key (\<lambda>b. number (cb_header b))
       (List.map_filter (drain_entry B c) (lru_iter (nh_lru B) (hash_by_number c)))"

section \<open>The cache over four lawful LRU caches\<close>

text \<open>The cache seen as maps.\<close>

definition header_at_hash where
  "header_at_hash B c = lru_view (hh_lru B) (headers_by_hash c)"

definition header_at_number where
  "header_at_number B c = lru_view (hn_lru B) (headers_by_number c)"

definition hash_at_number where
  "hash_at_number B c = lru_view (nh_lru B) (hash_by_number c)"

definition body_at where
  "body_at B c = lru_view (bh_lru B) (bodies_by_hash c)"

definition cache_ok ::
    "('hh, 'hn, 'nh, 'bh, 'x, 'b) block_lrus \<Rightarrow> ('hh, 'hn, 'nh, 'bh) block_cache \<Rightarrow> bool" where
  "cache_ok B c \<longleftrightarrow> lru_ok (hh_lru B) (headers_by_hash c) \<and> lru_ok (hn_lru B) (headers_by_number c)
     \<and> lru_ok (nh_lru B) (hash_by_number c) \<and> lru_ok (bh_lru B) (bodies_by_hash c)"

locale block_caches =
  hh: lru_cache "hh_lru B" + hn: lru_cache "hn_lru B" +
  nh: lru_cache "nh_lru B" + bh: lru_cache "bh_lru B"
  for B :: "('hh, 'hn, 'nh, 'bh, 'x, 'b) block_lrus"
begin

lemma ok_cache_new: "cache_ok B (cache_new B n)"
  by (simp add: cache_ok_def cache_new_def Let_def DEFAULT_CACHE_SIZE_def
      hh.ok_new hn.ok_new nh.ok_new bh.ok_new)

lemma view_cache_new:
  "header_at_hash B (cache_new B n) = Map.empty"
  "header_at_number B (cache_new B n) = Map.empty"
  "hash_at_number B (cache_new B n) = Map.empty"
  "body_at B (cache_new B n) = Map.empty"
  by (simp_all add: header_at_hash_def header_at_number_def hash_at_number_def body_at_def
      cache_new_def Let_def DEFAULT_CACHE_SIZE_def hh.view_new hn.view_new nh.view_new bh.view_new)

text \<open>A lookup returns what the view says and changes no view.\<close>

lemma fst_gets:
  assumes "cache_ok B c"
  shows "fst (get_header_by_hash B x c) = header_at_hash B c x"
    "fst (get_header_by_number B n c) = header_at_number B c n"
    "fst (get_body_by_hash B x c) = body_at B c x"
    "fst (get_hash_by_number B n c) = hash_at_number B c n"
  using assms
  by (simp_all add: cache_ok_def get_header_by_hash_def get_header_by_number_def
      get_body_by_hash_def get_hash_by_number_def header_at_hash_def header_at_number_def
      hash_at_number_def body_at_def case_prod_beta hh.get_view hn.get_view nh.get_view bh.get_view)

lemma ok_gets:
  assumes "cache_ok B c"
  shows "cache_ok B (snd (get_header_by_hash B x c))"
    "cache_ok B (snd (get_header_by_number B n c))"
    "cache_ok B (snd (get_body_by_hash B x c))"
    "cache_ok B (snd (get_hash_by_number B n c))"
  using assms
  by (simp_all add: cache_ok_def get_header_by_hash_def get_header_by_number_def
      get_body_by_hash_def get_hash_by_number_def case_prod_beta
      hh.ok_get hn.ok_get nh.ok_get bh.ok_get)

lemma view_gets:
  assumes "cache_ok B c"
    and "c' \<in> {snd (get_header_by_hash B x c), snd (get_header_by_number B n c),
              snd (get_body_by_hash B x c), snd (get_hash_by_number B n c)}"
  shows "header_at_hash B c' = header_at_hash B c" "header_at_number B c' = header_at_number B c"
    "hash_at_number B c' = hash_at_number B c" "body_at B c' = body_at B c"
  using assms
  by (auto simp: cache_ok_def get_header_by_hash_def get_header_by_number_def
      get_body_by_hash_def get_hash_by_number_def header_at_hash_def header_at_number_def
      hash_at_number_def body_at_def case_prod_beta hh.view_get hn.view_get nh.view_get bh.view_get)

lemmas view_get_header_by_hash = view_gets [OF _ insertI1]
lemmas view_get_header_by_number = view_gets [OF _ insertI2 [OF insertI1]]
lemmas view_get_body_by_hash = view_gets [OF _ insertI2 [OF insertI2 [OF insertI1]]]
lemmas view_get_hash_by_number = view_gets [OF _ insertI2 [OF insertI2 [OF insertI2 [OF insertI1]]]]
lemmas view_lookups = view_get_header_by_hash view_get_header_by_number view_get_body_by_hash
  view_get_hash_by_number

lemma ok_inserts:
  assumes "cache_ok B c"
  shows "cache_ok B (cache_insert B x h b c)" "cache_ok B (cache_insert_header B x h c)"
    "cache_ok B (cache_insert_body B x b c)"
  using assms
  by (simp_all add: cache_ok_def cache_insert_def cache_insert_header_def cache_insert_body_def
      Let_def hh.ok_push hn.ok_push nh.ok_push bh.ok_push)

text \<open>What was just inserted is found, under its hash and under its number.\<close>

lemma view_insert_same:
  assumes "cache_ok B c"
  shows "header_at_hash B (cache_insert B x h b c) x = Some h"
    "header_at_number B (cache_insert B x h b c) (number h) = Some h"
    "hash_at_number B (cache_insert B x h b c) (number h) = Some x"
    "body_at B (cache_insert B x h b c) x = Some b"
    "header_at_hash B (cache_insert_header B x h c) x = Some h"
    "header_at_number B (cache_insert_header B x h c) (number h) = Some h"
    "hash_at_number B (cache_insert_header B x h c) (number h) = Some x"
    "body_at B (cache_insert_body B x b c) x = Some b"
  using assms
  by (simp_all add: cache_ok_def header_at_hash_def header_at_number_def hash_at_number_def
      body_at_def cache_insert_def cache_insert_header_def cache_insert_body_def Let_def
      hh.view_push_same hn.view_push_same nh.view_push_same bh.view_push_same)

text \<open>Anything else found after an insertion was there before; an insertion can only evict.\<close>

lemma view_insert_other:
  assumes "cache_ok B c"
  shows "header_at_hash B (cache_insert B x h b c) x' = Some h' \<Longrightarrow> x' \<noteq> x
      \<Longrightarrow> header_at_hash B c x' = Some h'"
    "header_at_number B (cache_insert B x h b c) n = Some h' \<Longrightarrow> n \<noteq> number h
      \<Longrightarrow> header_at_number B c n = Some h'"
    "hash_at_number B (cache_insert B x h b c) n = Some y \<Longrightarrow> n \<noteq> number h
      \<Longrightarrow> hash_at_number B c n = Some y"
    "body_at B (cache_insert B x h b c) x' = Some b' \<Longrightarrow> x' \<noteq> x \<Longrightarrow> body_at B c x' = Some b'"
  using assms
  by (auto simp: cache_ok_def header_at_hash_def header_at_number_def hash_at_number_def
      body_at_def cache_insert_def Let_def
      intro: hh.view_push_other hn.view_push_other nh.view_push_other bh.view_push_other)

lemma insert_header_views:
  "header_at_hash B (cache_insert_header B x h c) = header_at_hash B (cache_insert B x h b c)"
  "header_at_number B (cache_insert_header B x h c) = header_at_number B (cache_insert B x h b c)"
  "hash_at_number B (cache_insert_header B x h c) = hash_at_number B (cache_insert B x h b c)"
  "body_at B (cache_insert_header B x h c) = body_at B c"
  by (simp_all add: header_at_hash_def header_at_number_def hash_at_number_def body_at_def
      cache_insert_def cache_insert_header_def Let_def)

lemma insert_body_views:
  "header_at_hash B (cache_insert_body B x b c) = header_at_hash B c"
  "header_at_number B (cache_insert_body B x b c) = header_at_number B c"
  "hash_at_number B (cache_insert_body B x b c) = hash_at_number B c"
  "body_at B (cache_insert_body B x b c) = body_at B (cache_insert B x h b c)"
  by (simp_all add: header_at_hash_def header_at_number_def hash_at_number_def body_at_def
      cache_insert_def cache_insert_body_def Let_def)

end

definition list_lrus where
  "list_lrus = \<lparr>hh_lru = list_lru, hn_lru = list_lru, nh_lru = list_lru, bh_lru = list_lru\<rparr>"

interpretation list_blocks: block_caches list_lrus
  by (unfold_locales; simp add: list_lrus_def)

text \<open>Evaluation of closed runs over recency lists.\<close>

lemmas cache_eval = list_lrus_def Let_def touch_def cache_new_def cache_insert_def
  cache_insert_header_def cache_insert_body_def get_header_by_hash_def get_header_by_number_def
  get_body_by_hash_def get_hash_by_number_def latest_def max_by_key_def drain_blocks_def
  drain_entry_def

section \<open>Any sequence of operations\<close>

text \<open>The public operations as data, so that a history of the shared cache is a list of them.\<close>

datatype ('x, 'b) cache_op =
    Insert b256 "'x header_scheme" 'b
  | InsertHeader b256 "'x header_scheme"
  | InsertBody b256 'b
  | HeaderByHash b256
  | HeaderByNumber u64
  | BodyByHash b256
  | HashByNumber u64

fun apply_op ::
    "('hh, 'hn, 'nh, 'bh, 'x, 'b) block_lrus \<Rightarrow> ('x, 'b) cache_op
     \<Rightarrow> ('hh, 'hn, 'nh, 'bh) block_cache \<Rightarrow> ('hh, 'hn, 'nh, 'bh) block_cache" where
  "apply_op B (Insert x h b) c = cache_insert B x h b c"
| "apply_op B (InsertHeader x h) c = cache_insert_header B x h c"
| "apply_op B (InsertBody x b) c = cache_insert_body B x b c"
| "apply_op B (HeaderByHash x) c = snd (get_header_by_hash B x c)"
| "apply_op B (HeaderByNumber n) c = snd (get_header_by_number B n c)"
| "apply_op B (BodyByHash x) c = snd (get_body_by_hash B x c)"
| "apply_op B (HashByNumber n) c = snd (get_hash_by_number B n c)"

fun run_ops ::
    "('hh, 'hn, 'nh, 'bh, 'x, 'b) block_lrus \<Rightarrow> ('x, 'b) cache_op list
     \<Rightarrow> ('hh, 'hn, 'nh, 'bh) block_cache \<Rightarrow> ('hh, 'hn, 'nh, 'bh) block_cache" where
  "run_ops B [] c = c"
| "run_ops B (op # ops) c = run_ops B ops (apply_op B op c)"

lemma run_ops_append: "run_ops B (xs @ ys) c = run_ops B ys (run_ops B xs c)"
  by (induction xs arbitrary: c) auto

text \<open>
  \<open>op_allowed P Q\<close>: an insertion pairs a hash with a header that \<open>P\<close> relates to it and with a body
  that \<open>Q\<close> relates to it. \<open>coherent P Q\<close>: so does every way to read the cache, and a header found
  under a number has that number, although header and hash of a number sit in separate caches
  that evict separately.
\<close>

fun op_allowed :: "(b256 \<Rightarrow> 'x header_scheme \<Rightarrow> bool) \<Rightarrow> (b256 \<Rightarrow> 'b \<Rightarrow> bool) \<Rightarrow> ('x, 'b) cache_op \<Rightarrow> bool"
  where
  "op_allowed P Q (Insert x h b) \<longleftrightarrow> P x h \<and> Q x b"
| "op_allowed P Q (InsertHeader x h) \<longleftrightarrow> P x h"
| "op_allowed P Q (InsertBody x b) \<longleftrightarrow> Q x b"
| "op_allowed P Q _ \<longleftrightarrow> True"

definition headers_coherent ::
    "('hh, 'hn, 'nh, 'bh, 'x, 'b) block_lrus \<Rightarrow> (b256 \<Rightarrow> 'x header_scheme \<Rightarrow> bool)
     \<Rightarrow> ('hh, 'hn, 'nh, 'bh) block_cache \<Rightarrow> bool" where
  "headers_coherent B P c \<longleftrightarrow>
     (\<forall>x h. header_at_hash B c x = Some h \<longrightarrow> P x h)
   \<and> (\<forall>n h. header_at_number B c n = Some h \<longrightarrow> number h = n)
   \<and> (\<forall>n h x. header_at_number B c n = Some h \<and> hash_at_number B c n = Some x \<longrightarrow> P x h)"

definition bodies_coherent ::
    "('hh, 'hn, 'nh, 'bh, 'x, 'b) block_lrus \<Rightarrow> (b256 \<Rightarrow> 'b \<Rightarrow> bool)
     \<Rightarrow> ('hh, 'hn, 'nh, 'bh) block_cache \<Rightarrow> bool" where
  "bodies_coherent B Q c \<longleftrightarrow> (\<forall>x b. body_at B c x = Some b \<longrightarrow> Q x b)"

definition coherent ::
    "('hh, 'hn, 'nh, 'bh, 'x, 'b) block_lrus \<Rightarrow> (b256 \<Rightarrow> 'x header_scheme \<Rightarrow> bool)
     \<Rightarrow> (b256 \<Rightarrow> 'b \<Rightarrow> bool) \<Rightarrow> ('hh, 'hn, 'nh, 'bh) block_cache \<Rightarrow> bool" where
  "coherent B P Q c \<longleftrightarrow> headers_coherent B P c \<and> bodies_coherent B Q c"

context block_caches
begin

lemma ok_apply_op: "cache_ok B c \<Longrightarrow> cache_ok B (apply_op B op c)"
  by (cases op) (simp_all add: ok_inserts ok_gets)

lemma ok_run_ops: "cache_ok B c \<Longrightarrow> cache_ok B (run_ops B ops c)"
  by (induction ops arbitrary: c) (simp_all add: ok_apply_op)

lemma coherent_new: "coherent B P Q (cache_new B n)"
  by (simp add: coherent_def headers_coherent_def bodies_coherent_def view_cache_new)

lemma headers_coherent_insert:
  assumes "cache_ok B c" "headers_coherent B P c" "P x h"
  shows "headers_coherent B P (cache_insert B x h b c)"
proof -
  note same = view_insert_same(1-3) [OF assms(1), of x h b]
  note other = view_insert_other(1-3) [OF assms(1)]
  let ?c = "cache_insert B x h b c"
  have inv: "header_at_hash B c y = Some g \<Longrightarrow> P y g" "header_at_number B c n = Some g \<Longrightarrow> number g = n"
    for y g n using assms(2) by (simp_all add: headers_coherent_def)
  have "P y g" if "header_at_hash B ?c y = Some g" for y g
  proof (cases "y = x")
    case True
    with that same(1) assms(3) show ?thesis by simp
  next
    case False
    show ?thesis by (rule inv(1) [OF other(1) [OF that False]])
  qed
  moreover have "number g = n" if "header_at_number B ?c n = Some g" for n g
  proof (cases "n = number h")
    case True
    with that same(2) show ?thesis by simp
  next
    case False
    show ?thesis by (rule inv(2) [OF other(2) [OF that False]])
  qed
  moreover have "P y g" if "header_at_number B ?c n = Some g" "hash_at_number B ?c n = Some y" for n g y
  proof (cases "n = number h")
    case True
    with that same(2,3) assms(3) show ?thesis by simp
  next
    case False
    with that have "header_at_number B c n = Some g" "hash_at_number B c n = Some y"
      by (blast intro: other)+
    with assms(2) show ?thesis by (auto simp: headers_coherent_def)
  qed
  ultimately show ?thesis unfolding headers_coherent_def by blast
qed

lemma headers_coherent_insert_header:
  assumes "cache_ok B c" "headers_coherent B P c" "P x h"
  shows "headers_coherent B P (cache_insert_header B x h c)"
  using headers_coherent_insert [OF assms, of undefined]
  by (simp only: headers_coherent_def insert_header_views(1-3) [where b = undefined])

lemma bodies_coherent_insert:
  assumes "cache_ok B c" "bodies_coherent B Q c" "Q x b"
  shows "bodies_coherent B Q (cache_insert B x h b c)"
  unfolding bodies_coherent_def
proof (intro allI impI)
  fix y d assume d: "body_at B (cache_insert B x h b c) y = Some d"
  show "Q y d"
  proof (cases "y = x")
    case True
    with d view_insert_same(4) [OF assms(1), of x h b] assms(3) show ?thesis by simp
  next
    case False
    have "body_at B c y = Some d" by (rule view_insert_other(4) [OF assms(1) d False])
    with assms(2) show ?thesis by (simp add: bodies_coherent_def)
  qed
qed

lemma bodies_coherent_insert_body:
  assumes "cache_ok B c" "bodies_coherent B Q c" "Q x b"
  shows "bodies_coherent B Q (cache_insert_body B x b c)"
  using bodies_coherent_insert [OF assms, of undefined]
  by (simp only: bodies_coherent_def insert_body_views(4) [where h = undefined])

lemma coherent_inserts:
  assumes "cache_ok B c" "coherent B P Q c"
  shows "P x h \<Longrightarrow> Q x b \<Longrightarrow> coherent B P Q (cache_insert B x h b c)"
    "P x h \<Longrightarrow> coherent B P Q (cache_insert_header B x h c)"
    "Q x b \<Longrightarrow> coherent B P Q (cache_insert_body B x b c)"
  using assms
  by (simp_all add: coherent_def headers_coherent_insert bodies_coherent_insert
      headers_coherent_insert_header bodies_coherent_insert_body)
    (simp_all add: bodies_coherent_def headers_coherent_def insert_header_views(4) insert_body_views(1-3))

lemma coherent_gets:
  assumes "cache_ok B c" "coherent B P Q c"
    and "c' \<in> {snd (get_header_by_hash B x c), snd (get_header_by_number B n c),
              snd (get_body_by_hash B x c), snd (get_hash_by_number B n c)}"
  shows "coherent B P Q c'"
  using assms(2)
  unfolding coherent_def headers_coherent_def bodies_coherent_def view_gets [OF assms(1,3)] .

lemma coherent_apply_op:
  assumes "cache_ok B c" "coherent B P Q c" "op_allowed P Q op"
  shows "coherent B P Q (apply_op B op c)"
  using assms
  by (cases op)
    (auto intro: coherent_inserts coherent_gets)

lemma coherent_run_ops:
  "cache_ok B c \<Longrightarrow> coherent B P Q c \<Longrightarrow> list_all (op_allowed P Q) ops \<Longrightarrow>
   coherent B P Q (run_ops B ops c)"
  by (induction ops arbitrary: c) (simp_all add: ok_apply_op coherent_apply_op)

text \<open>Reading the latest block and all blocks.\<close>

lemma latest_Some:
  assumes "cache_ok B c" "latest B c = Some (x, h)"
  obtains n where "hash_at_number B c n = Some x" "header_at_number B c n = Some h"
    "\<forall>m \<in> dom (hash_at_number B c). m \<le> n"
proof -
  from assms(2) obtain n where
    m: "max_by_key fst (lru_iter (nh_lru B) (hash_by_number c)) = Some (n, x)"
    and h: "lru_peek (hn_lru B) n (headers_by_number c) = Some h"
    by (auto simp: latest_def split: option.splits)
  show ?thesis
  proof
    show "hash_at_number B c n = Some x"
      using max_by_key_Some [OF m] assms(1)
      by (simp add: hash_at_number_def lru_view_def cache_ok_def lru_ok_def)
    show "header_at_number B c n = Some h"
      using h assms(1) by (simp add: header_at_number_def cache_ok_def hn.peek_view)
    show "\<forall>m \<in> dom (hash_at_number B c). m \<le> n"
      using max_by_key_Some [OF m]
      by (fastforce simp: hash_at_number_def lru_view_def dest: map_of_SomeD)
  qed
qed

lemma drain_entry_Some_iff:
  assumes "cache_ok B c"
  shows "drain_entry B c (n, x) = Some k \<longleftrightarrow>
    cb_hash k = x \<and> header_at_number B c n = Some (cb_header k) \<and> body_at B c x = Some (cb_body k)"
  using assms
  by (cases k)
    (auto simp: drain_entry_def header_at_number_def body_at_def cache_ok_def hn.peek_view bh.peek_view
      split: option.split)

lemma in_drain_blocks_iff:
  assumes "cache_ok B c"
  shows "k \<in> set (drain_blocks B c) \<longleftrightarrow> (\<exists>n. hash_at_number B c n = Some (cb_hash k)
    \<and> header_at_number B c n = Some (cb_header k) \<and> body_at B c (cb_hash k) = Some (cb_body k))"
proof -
  let ?es = "lru_iter (nh_lru B) (hash_by_number c)"
  have "(n, x) \<in> set ?es \<longleftrightarrow> hash_at_number B c n = Some x" for n x
    using assms by (simp add: hash_at_number_def lru_view_def cache_ok_def lru_ok_def)
  moreover have "k \<in> set (drain_blocks B c) \<longleftrightarrow> (\<exists>n x. (n, x) \<in> set ?es \<and> drain_entry B c (n, x) = Some k)"
    unfolding drain_blocks_def by (force simp: set_map_filter)
  ultimately show ?thesis
    unfolding drain_entry_Some_iff [OF assms] by blast
qed

lemma drain_numbers:
  assumes "cache_ok B c" "headers_coherent B P c"
  shows "map (\<lambda>k. number (cb_header k))
      (List.map_filter (drain_entry B c) (lru_iter (nh_lru B) (hash_by_number c)))
    = map fst (filter (\<lambda>e. drain_entry B c e \<noteq> None) (lru_iter (nh_lru B) (hash_by_number c)))"
proof (rule map_map_filter)
  fix e k assume "drain_entry B c e = Some k"
  then have "header_at_number B c (fst e) = Some (cb_header k)"
    using drain_entry_Some_iff [OF assms(1), of "fst e" "snd e" k] by simp
  then show "number (cb_header k) = fst e"
    using assms(2) by (simp add: headers_coherent_def)
qed

lemma drain_blocks_sorted:
  assumes "cache_ok B c" "headers_coherent B P c"
  shows "sorted_wrt (<) (map (\<lambda>k. number (cb_header k)) (drain_blocks B c))"
proof -
  let ?bs = "List.map_filter (drain_entry B c) (lru_iter (nh_lru B) (hash_by_number c))"
  let ?num = "\<lambda>k. number (cb_header k)"
  have "distinct (map fst (lru_iter (nh_lru B) (hash_by_number c)))"
    using assms(1) by (simp add: cache_ok_def lru_ok_def)
  then have "distinct (map ?num ?bs)"
    unfolding drain_numbers [OF assms] by (rule distinct_map_filter)
  moreover have "mset (map ?num (drain_blocks B c)) = mset (map ?num ?bs)"
    by (simp add: drain_blocks_def)
  ultimately have "distinct (map ?num (drain_blocks B c))"
    using mset_eq_imp_distinct_iff by blast
  moreover have "sorted (map ?num (drain_blocks B c))"
    by (simp add: drain_blocks_def)
  ultimately show ?thesis by (simp add: strict_sorted_iff)
qed

lemma length_drain_blocks:
  assumes "cache_ok B c"
  shows "length (drain_blocks B c) \<le> lru_cap (nh_lru B) (hash_by_number c)"
  using assms length_map_filter_le [of "drain_entry B c" "lru_iter (nh_lru B) (hash_by_number c)"]
  by (simp add: drain_blocks_def cache_ok_def lru_ok_def)

end

section \<open>Capacities, and the two caches keyed by number\<close>

definition effective_capacity :: "nat \<Rightarrow> nat" where
  "effective_capacity n = (if n = 0 then DEFAULT_CACHE_SIZE else n)"

definition caps_are ::
    "('hh, 'hn, 'nh, 'bh, 'x, 'b) block_lrus \<Rightarrow> nat \<Rightarrow> ('hh, 'hn, 'nh, 'bh) block_cache \<Rightarrow> bool" where
  "caps_are B n c \<longleftrightarrow> lru_cap (hh_lru B) (headers_by_hash c) = n
     \<and> lru_cap (hn_lru B) (headers_by_number c) = n \<and> lru_cap (nh_lru B) (hash_by_number c) = n
     \<and> lru_cap (bh_lru B) (bodies_by_hash c) = n"

text \<open>
  \<open>headers_by_number\<close> and \<open>hash_by_number\<close> are always pushed together, but looked up apart: they
  hold the same numbers in the same order as long as nothing is looked up by number.
\<close>

definition synced ::
    "('hh, 'hn, 'nh, 'bh, 'x, 'b) block_lrus \<Rightarrow> ('hh, 'hn, 'nh, 'bh) block_cache \<Rightarrow> bool" where
  "synced B c \<longleftrightarrow> lru_keys (hn_lru B) (headers_by_number c) = lru_keys (nh_lru B) (hash_by_number c)"

fun no_number_lookup :: "('x, 'b) cache_op \<Rightarrow> bool" where
  "no_number_lookup (HeaderByNumber n) \<longleftrightarrow> False"
| "no_number_lookup (HashByNumber n) \<longleftrightarrow> False"
| "no_number_lookup _ \<longleftrightarrow> True"

context block_caches
begin

lemma caps_cache_new: "caps_are B (effective_capacity n) (cache_new B n)"
  by (simp add: caps_are_def cache_new_def Let_def effective_capacity_def DEFAULT_CACHE_SIZE_def
      hh.cap_new hn.cap_new nh.cap_new bh.cap_new)

lemma caps_apply_op: "cache_ok B c \<Longrightarrow> caps_are B n c \<Longrightarrow> caps_are B n (apply_op B op c)"
  by (cases op)
    (simp_all add: caps_are_def cache_ok_def cache_insert_def cache_insert_header_def
      cache_insert_body_def get_header_by_hash_def get_header_by_number_def get_body_by_hash_def
      get_hash_by_number_def Let_def case_prod_beta hh.cap_push hn.cap_push nh.cap_push bh.cap_push
      hh.cap_get hn.cap_get nh.cap_get bh.cap_get)

lemma caps_run_ops: "cache_ok B c \<Longrightarrow> caps_are B n c \<Longrightarrow> caps_are B n (run_ops B ops c)"
  by (induction ops arbitrary: c) (simp_all add: ok_apply_op caps_apply_op)

lemma synced_cache_new: "synced B (cache_new B n)"
  by (simp add: synced_def cache_new_def Let_def DEFAULT_CACHE_SIZE_def lru_keys_def
      hn.iter_new nh.iter_new)

lemma synced_apply_op:
  "cache_ok B c \<Longrightarrow> caps_are B n c \<Longrightarrow> synced B c \<Longrightarrow> no_number_lookup op \<Longrightarrow>
   synced B (apply_op B op c)"
  by (cases op)
    (simp_all add: synced_def caps_are_def cache_ok_def cache_insert_def cache_insert_header_def
      cache_insert_body_def get_header_by_hash_def get_body_by_hash_def Let_def case_prod_beta
      hn.keys_push nh.keys_push)

lemma synced_run_ops:
  "cache_ok B c \<Longrightarrow> caps_are B n c \<Longrightarrow> synced B c \<Longrightarrow> list_all no_number_lookup ops \<Longrightarrow>
   synced B (run_ops B ops c)"
  by (induction ops arbitrary: c) (auto simp: ok_apply_op caps_apply_op synced_apply_op)

text \<open>On a synced cache \<open>latest\<close> finds a block whenever any number is cached.\<close>

lemma synced_dom:
  assumes "cache_ok B c" "synced B c"
  shows "dom (header_at_number B c) = dom (hash_at_number B c)"
  using assms hn.keys_view [of "headers_by_number c"] nh.keys_view [of "hash_by_number c"]
  by (simp add: synced_def cache_ok_def header_at_number_def hash_at_number_def)

lemma synced_latest_None:
  assumes "cache_ok B c" "synced B c" "latest B c = None"
  shows "hash_at_number B c = Map.empty"
proof (cases "max_by_key fst (lru_iter (nh_lru B) (hash_by_number c))")
  case None
  then show ?thesis by (simp add: hash_at_number_def lru_view_def)
next
  case (Some e)
  obtain n x where e: "e = (n, x)" by (cases e)
  have "(n, x) \<in> set (lru_iter (nh_lru B) (hash_by_number c))"
    using max_by_key_Some [OF Some] e by simp
  then have "hash_at_number B c n = Some x"
    using assms(1) by (simp add: hash_at_number_def lru_view_def cache_ok_def lru_ok_def)
  then have "n \<in> dom (header_at_number B c)"
    unfolding synced_dom [OF assms(1,2)] by blast
  then have "latest B c \<noteq> None"
    using Some e assms(1) by (auto simp: latest_def header_at_number_def cache_ok_def hn.peek_view)
  with assms(3) show ?thesis by contradiction
qed

end

section \<open>The cache after any history\<close>

lemma op_allowed_True: "op_allowed (\<lambda>_ _. True) (\<lambda>_ _. True) op"
  by (cases op) simp_all

context block_caches
begin

lemma ok_history: "cache_ok B (run_ops B ops (cache_new B n))"
  by (rule ok_run_ops [OF ok_cache_new])

lemma caps_history: "caps_are B (effective_capacity n) (run_ops B ops (cache_new B n))"
  by (rule caps_run_ops [OF ok_cache_new caps_cache_new])

lemma coherent_history:
  "list_all (op_allowed P Q) ops \<Longrightarrow> coherent B P Q (run_ops B ops (cache_new B n))"
  by (rule coherent_run_ops [OF ok_cache_new coherent_new])

lemma headers_history: "headers_coherent B (\<lambda>_ _. True) (run_ops B ops (cache_new B n))"
  using coherent_history [of "\<lambda>_ _. True" "\<lambda>_ _. True" ops n]
  by (simp add: coherent_def list_all_iff op_allowed_True)

lemma number_history:
  "header_at_number B (run_ops B ops (cache_new B n)) m = Some h \<Longrightarrow> number h = m"
  using headers_history [of ops n] by (simp add: headers_coherent_def)

lemma synced_history:
  "list_all no_number_lookup ops \<Longrightarrow> synced B (run_ops B ops (cache_new B n))"
  by (rule synced_run_ops [OF ok_cache_new caps_cache_new synced_cache_new])

lemmas gets_history = fst_gets [OF ok_history]
lemmas drain_history = drain_blocks_sorted [OF ok_history headers_history]
  length_drain_blocks [OF ok_history] in_drain_blocks_iff [OF ok_history]

end

section \<open>Properties of the cache\<close>

text \<open>
  C9. Whatever sequence of operations the tasks perform on the shared cache, hashes, headers and
  bodies stay paired as they were inserted: every header or body found under a hash, the latest
  block, and every block drained for saving is a pair that some insertion made (stated for any
  relations \<open>P\<close>, \<open>Q\<close> that all insertions respect), although four separate LRU caches hold them.
\<close>

theorem cache_pairs_kept:
  assumes "block_caches B" "list_all (op_allowed P Q) ops"
  shows "let c = run_ops B ops (cache_new B n) in
      (\<forall>x h. fst (get_header_by_hash B x c) = Some h \<longrightarrow> P x h)
    \<and> (\<forall>m h. fst (get_header_by_number B m c) = Some h \<longrightarrow> number h = m)
    \<and> (\<forall>x b. fst (get_body_by_hash B x c) = Some b \<longrightarrow> Q x b)
    \<and> (\<forall>x h. latest B c = Some (x, h) \<longrightarrow> P x h)
    \<and> (\<forall>k \<in> set (drain_blocks B c). P (cb_hash k) (cb_header k) \<and> Q (cb_hash k) (cb_body k))"
proof -
  let ?c = "run_ops B ops (cache_new B n)"
  note ok = block_caches.ok_history [OF assms(1), of ops n]
  note coh = block_caches.coherent_history [OF assms, of n,
      unfolded coherent_def headers_coherent_def bodies_coherent_def]
  have "P x h" if "latest B ?c = Some (x, h)" for x h
    by (rule block_caches.latest_Some [OF assms(1) ok that]) (use coh in blast)
  moreover have "P (cb_hash k) (cb_header k) \<and> Q (cb_hash k) (cb_body k)"
    if "k \<in> set (drain_blocks B ?c)" for k
    using that block_caches.in_drain_blocks_iff [OF assms(1) ok, of k] coh by blast
  ultimately show ?thesis
    using coh unfolding Let_def block_caches.gets_history [OF assms(1)] by blast
qed

theorem cache_pairs_kept_witness:
  "\<exists>x h. latest list_lrus (run_ops list_lrus
        [Insert 7 \<lparr>number = 5, timestamp = 60\<rparr> ''a'', InsertHeader 8 \<lparr>number = 6, timestamp = 72\<rparr>,
         HeaderByNumber 5, InsertBody 8 ''b''] (cache_new list_lrus 2)) = Some (x, h)
     \<and> number h = (if x = 7 then 5 else 6)"
proof -
  let ?P = "\<lambda>x h. number h = (if x = 7 then 5 else 6)"
  let ?Q = "\<lambda>x b. b = (if x = 7 then ''a'' else ''b'')"
  let ?ops = "[Insert 7 \<lparr>number = 5, timestamp = 60\<rparr> ''a'', InsertHeader 8 \<lparr>number = 6, timestamp = 72\<rparr>,
    HeaderByNumber 5, InsertBody 8 ''b'']"
  have "list_all (op_allowed ?P ?Q) ?ops" by simp
  moreover have "latest list_lrus (run_ops list_lrus ?ops (cache_new list_lrus 2)) =
      Some (8, \<lparr>number = 6, timestamp = 72\<rparr>)"
    by (simp add: cache_eval)
  ultimately show ?thesis
    using cache_pairs_kept [OF list_blocks.block_caches_axioms, of ?P ?Q ?ops 2]
    unfolding Let_def by blast
qed

text \<open>
  C21. \<open>drain_blocks\<close> returns, in strictly increasing block number, exactly the blocks whose header,
  hash and body are all cached, and never more than the cache's capacity.
\<close>

theorem drain_blocks_exact:
  assumes "block_caches B"
  shows "let c = run_ops B ops (cache_new B n); ks = drain_blocks B c in
      sorted_wrt (<) (map (\<lambda>k. number (cb_header k)) ks)
    \<and> length ks \<le> effective_capacity n
    \<and> (\<forall>k. k \<in> set ks \<longleftrightarrow>
         fst (get_hash_by_number B (number (cb_header k)) c) = Some (cb_hash k)
       \<and> fst (get_header_by_number B (number (cb_header k)) c) = Some (cb_header k)
       \<and> fst (get_body_by_hash B (cb_hash k) c) = Some (cb_body k))"
  using block_caches.drain_history [OF assms] block_caches.caps_history [OF assms, of n ops]
    block_caches.number_history [OF assms, of ops n]
  unfolding Let_def caps_are_def block_caches.gets_history [OF assms] by metis

theorem drain_blocks_exact_witness:
  "let c = run_ops list_lrus
        [Insert 8 \<lparr>number = 6, timestamp = 72\<rparr> ''b'', Insert 7 \<lparr>number = 5, timestamp = 60\<rparr> ''a'',
         InsertHeader 9 \<lparr>number = 7, timestamp = 84\<rparr>] (cache_new list_lrus 3)
   in map cb_hash (drain_blocks list_lrus c) = [7, 8]
    \<and> length (drain_blocks list_lrus c) \<le> effective_capacity 3
    \<and> sorted_wrt (<) (map (\<lambda>k. number (cb_header k)) (drain_blocks list_lrus c))"
proof -
  let ?ops = "[Insert 8 \<lparr>number = 6, timestamp = 72\<rparr> ''b'', Insert 7 \<lparr>number = 5, timestamp = 60\<rparr> ''a'',
      InsertHeader 9 \<lparr>number = 7, timestamp = 84\<rparr>]"
  have "map cb_hash (drain_blocks list_lrus (run_ops list_lrus ?ops (cache_new list_lrus 3))) = [7, 8]"
    by (simp add: cache_eval map_filter_simps)
  then show ?thesis
    using drain_blocks_exact [OF list_blocks.block_caches_axioms, of ?ops 3] unfolding Let_def by blast
qed

text \<open>
  C24. As long as nothing was looked up by number (as when the cache has just been loaded from
  disk), \<open>latest\<close> returns a block whose number is the highest cached one, and returns none only
  when no block is cached.
\<close>

theorem latest_highest:
  assumes "block_caches B" "list_all no_number_lookup ops"
  shows "let c = run_ops B ops (cache_new B n) in
    case latest B c of
      None \<Rightarrow> \<forall>m. fst (get_header_by_number B m c) = None
    | Some (x, h) \<Rightarrow> fst (get_hash_by_number B (number h) c) = Some x
        \<and> fst (get_header_by_number B (number h) c) = Some h
        \<and> (\<forall>m. fst (get_header_by_number B m c) \<noteq> None \<longrightarrow> m \<le> number h)"
proof -
  let ?c = "run_ops B ops (cache_new B n)"
  note ok = block_caches.ok_history [OF assms(1), of ops n]
  note sync = block_caches.synced_history [OF assms, of n]
  note dom = block_caches.synced_dom [OF assms(1) ok sync]
  show ?thesis
  proof (cases "latest B ?c")
    case None
    then show ?thesis
      using block_caches.synced_latest_None [OF assms(1) ok sync] dom
      by (simp add: Let_def block_caches.gets_history [OF assms(1)])
  next
    case (Some e)
    obtain x h where e: "e = (x, h)" by (cases e)
    obtain m where m: "hash_at_number B ?c m = Some x" "header_at_number B ?c m = Some h"
      "\<forall>m' \<in> dom (hash_at_number B ?c). m' \<le> m"
      by (rule block_caches.latest_Some [OF assms(1) ok Some [unfolded e]])
    have "number h = m" by (rule block_caches.number_history [OF assms(1) m(2)])
    with m Some e dom show ?thesis
      by (auto simp: Let_def block_caches.gets_history [OF assms(1)])
  qed
qed

theorem latest_highest_witness:
  "latest list_lrus (run_ops list_lrus
      [Insert 8 \<lparr>number = 6, timestamp = 72\<rparr> ''b'', Insert 7 \<lparr>number = 5, timestamp = 60\<rparr> ''a'']
      (cache_new list_lrus 2)) = Some (8, \<lparr>number = 6, timestamp = 72\<rparr>)"
  using latest_highest [OF list_blocks.block_caches_axioms,
      of "[Insert 8 \<lparr>number = 6, timestamp = 72\<rparr> ''b'', Insert 7 \<lparr>number = 5, timestamp = 60\<rparr> ''a'']" 2]
  by (simp add: Let_def list_lrus_def cache_new_def cache_insert_def latest_def max_by_key_def)


text \<open>
  After any history, a block just inserted is found by every lookup, whatever was evicted for
  it; and any other header or body found then was cached before.
\<close>

theorem insert_then_found:
  assumes "block_caches B"
  shows "let c = run_ops B ops (cache_new B n); c' = cache_insert B x h b c in
      fst (get_header_by_hash B x c') = Some h
    \<and> fst (get_header_by_number B (number h) c') = Some h
    \<and> fst (get_hash_by_number B (number h) c') = Some x
    \<and> fst (get_body_by_hash B x c') = Some b
    \<and> (\<forall>y b'. y \<noteq> x \<and> fst (get_body_by_hash B y c') = Some b'
         \<longrightarrow> fst (get_body_by_hash B y c) = Some b')
    \<and> (\<forall>m h'. m \<noteq> number h \<and> fst (get_header_by_number B m c') = Some h'
         \<longrightarrow> fst (get_header_by_number B m c) = Some h')"
proof -
  let ?c = "run_ops B ops (cache_new B n)"
  note ok = block_caches.ok_history [OF assms, of ops n]
  note ok' = block_caches.ok_inserts(1) [OF assms ok, of x h b]
  show ?thesis
    using block_caches.view_insert_same(1-4) [OF assms ok, of x h b]
      block_caches.view_insert_other(2,4) [OF assms ok, where x = x and h = h and b = b]
    unfolding Let_def block_caches.fst_gets [OF assms ok] block_caches.fst_gets [OF assms ok']
    by blast
qed

theorem insert_then_found_witness:
  "fst (get_body_by_hash list_lrus 7 (cache_insert list_lrus 7 \<lparr>number = 5, timestamp = 60\<rparr> ''a''
      (run_ops list_lrus [Insert 8 \<lparr>number = 6, timestamp = 72\<rparr> ''b''] (cache_new list_lrus 1))))
   = Some ''a''"
  using insert_then_found [OF list_blocks.block_caches_axioms,
      of "[Insert 8 \<lparr>number = 6, timestamp = 72\<rparr> ''b'']" 1 7 "\<lparr>number = 5, timestamp = 60\<rparr>" "''a''"]
  unfolding Let_def by blast

end
