(* ===== verification/Block_Store.thy ===== *)
theory Block_Store
  imports Block_Cache
begin

text \<open>
  The contract between the request handler of \<open>src/eth_proxy.rs\<close> and the cache it serves from:
  the five methods of \<open>BlockCache\<close> the handler calls are the record \<open>store_ops\<close>, and the locale
  \<open>block_store\<close> says what they promise over three views (header by hash, header by number, body by
  hash). A store may evict, but never the bodies used last: \<open>pin P s\<close> says that those of \<open>P\<close> are
  the ones used last. The theory ends with the proof that \<open>BlockCache\<close> keeps the contract.
\<close>

record ('s, 'x, 'b) store_ops =
  st_header_by_hash :: "b256 \<Rightarrow> 's \<Rightarrow> 'x header_scheme option \<times> 's"
  st_header_by_number :: "u64 \<Rightarrow> 's \<Rightarrow> 'x header_scheme option \<times> 's"
  st_body_by_hash :: "b256 \<Rightarrow> 's \<Rightarrow> 'b option \<times> 's"
  st_insert_header :: "b256 \<Rightarrow> 'x header_scheme \<Rightarrow> 's \<Rightarrow> 's"
  st_insert_body :: "b256 \<Rightarrow> 'b \<Rightarrow> 's \<Rightarrow> 's"

locale block_store =
  fixes S :: "('s, 'x, 'b) store_ops"
    and ok :: "'s \<Rightarrow> bool"
    and by_hash :: "'s \<Rightarrow> b256 \<Rightarrow> 'x header_scheme option"
    and by_number :: "'s \<Rightarrow> u64 \<Rightarrow> 'x header_scheme option"
    and body :: "'s \<Rightarrow> b256 \<Rightarrow> 'b option"
    and pin :: "b256 set \<Rightarrow> 's \<Rightarrow> bool"
    and room :: "'s \<Rightarrow> nat"
  assumes ok_lookups: "ok s \<Longrightarrow> ok (snd (st_header_by_hash S x s))"
      "ok s \<Longrightarrow> ok (snd (st_header_by_number S n s))"
      "ok s \<Longrightarrow> ok (snd (st_body_by_hash S x s))"
    and ok_insertions: "ok s \<Longrightarrow> ok (st_insert_header S x h s)" "ok s \<Longrightarrow> ok (st_insert_body S x b s)"
    and lookups: "ok s \<Longrightarrow> fst (st_header_by_hash S x s) = by_hash s x"
      "ok s \<Longrightarrow> fst (st_header_by_number S n s) = by_number s n"
      "ok s \<Longrightarrow> fst (st_body_by_hash S x s) = body s x"
    and by_hash_lookups: "ok s \<Longrightarrow> by_hash (snd (st_header_by_hash S x s)) = by_hash s"
      "ok s \<Longrightarrow> by_hash (snd (st_header_by_number S n s)) = by_hash s"
      "ok s \<Longrightarrow> by_hash (snd (st_body_by_hash S x s)) = by_hash s"
    and by_number_lookups: "ok s \<Longrightarrow> by_number (snd (st_header_by_hash S x s)) = by_number s"
      "ok s \<Longrightarrow> by_number (snd (st_header_by_number S n s)) = by_number s"
      "ok s \<Longrightarrow> by_number (snd (st_body_by_hash S x s)) = by_number s"
    and body_lookups: "ok s \<Longrightarrow> body (snd (st_header_by_hash S x s)) = body s"
      "ok s \<Longrightarrow> body (snd (st_header_by_number S n s)) = body s"
      "ok s \<Longrightarrow> body (snd (st_body_by_hash S x s)) = body s"
    and number_ok: "ok s \<Longrightarrow> by_number s n = Some h \<Longrightarrow> number h = n"
    and finite_numbers: "ok s \<Longrightarrow> finite (dom (by_number s)) \<and> card (dom (by_number s)) \<le> room s"
    and body_inserted: "ok s \<Longrightarrow> body (st_insert_body S x b s) x = Some b"
    and room_ops: "ok s \<Longrightarrow> room (snd (st_body_by_hash S x s)) = room s"
      "ok s \<Longrightarrow> room (st_insert_body S x b s) = room s"
    and pin_empty: "ok s \<Longrightarrow> pin {} s"
    and pin_lookup: "ok s \<Longrightarrow> pin P s \<Longrightarrow> pin (insert x P) (snd (st_body_by_hash S x s))"
    and pin_insert: "ok s \<Longrightarrow> pin P s \<Longrightarrow> finite P \<Longrightarrow> card (insert x P) \<le> room s \<Longrightarrow>
      pin (insert x P) (st_insert_body S x b s)"
    and pin_keeps: "ok s \<Longrightarrow> pin P s \<Longrightarrow> finite P \<Longrightarrow> card (insert x P) \<le> room s \<Longrightarrow>
      y \<in> P \<Longrightarrow> y \<noteq> x \<Longrightarrow> body (st_insert_body S x b s) y = body s y"

section \<open>\<open>BlockCache\<close> keeps the contract\<close>

definition cache_store ::
    "('hh, 'hn, 'nh, 'bh, 'x, 'b) block_lrus \<Rightarrow> (('hh, 'hn, 'nh, 'bh) block_cache, 'x, 'b) store_ops"
  where
  "cache_store B = \<lparr>
     st_header_by_hash = get_header_by_hash B,
     st_header_by_number = get_header_by_number B,
     st_body_by_hash = get_body_by_hash B,
     st_insert_header = cache_insert_header B,
     st_insert_body = cache_insert_body B\<rparr>"

lemma cache_store_simps [simp]:
  "st_header_by_hash (cache_store B) = get_header_by_hash B"
  "st_header_by_number (cache_store B) = get_header_by_number B"
  "st_body_by_hash (cache_store B) = get_body_by_hash B"
  "st_insert_header (cache_store B) = cache_insert_header B"
  "st_insert_body (cache_store B) = cache_insert_body B"
  by (simp_all add: cache_store_def)

text \<open>The states a cache can be in: well-formed, of capacity \<open>n\<close>, headers under their own number.\<close>

definition store_ok ::
    "('hh, 'hn, 'nh, 'bh, 'x, 'b) block_lrus \<Rightarrow> nat \<Rightarrow> ('hh, 'hn, 'nh, 'bh) block_cache \<Rightarrow> bool" where
  "store_ok B n c \<longleftrightarrow> cache_ok B c \<and> caps_are B n c \<and> headers_coherent B (\<lambda>_ _. True) c"

definition body_pinned ::
    "('hh, 'hn, 'nh, 'bh, 'x, 'b) block_lrus \<Rightarrow> b256 set \<Rightarrow> ('hh, 'hn, 'nh, 'bh) block_cache \<Rightarrow> bool" where
  "body_pinned B P c \<longleftrightarrow> pinned P (lru_iter (bh_lru B) (bodies_by_hash c))"

context block_caches
begin

lemma store_ok_apply_op: "store_ok B n c \<Longrightarrow> store_ok B n (apply_op B op c)"
proof -
  assume a: "store_ok B n c"
  then have "coherent B (\<lambda>_ _. True) (\<lambda>_ _. True) c"
    by (simp add: store_ok_def coherent_def bodies_coherent_def)
  with a have "coherent B (\<lambda>_ _. True) (\<lambda>_ _. True) (apply_op B op c)"
    by (intro coherent_apply_op op_allowed_True) (simp_all add: store_ok_def)
  with a show ?thesis
    by (simp add: store_ok_def ok_apply_op caps_apply_op coherent_def)
qed

lemmas store_ok_ops =
  store_ok_apply_op [of _ _ "InsertHeader x h" for x h, simplified]
  store_ok_apply_op [of _ _ "InsertBody x b" for x b, simplified]
  store_ok_apply_op [of _ _ "HeaderByHash x" for x, simplified]
  store_ok_apply_op [of _ _ "HeaderByNumber m" for m, simplified]
  store_ok_apply_op [of _ _ "BodyByHash x" for x, simplified]

lemma store_ok_history: "store_ok B (effective_capacity n) (run_ops B ops (cache_new B n))"
  by (simp add: store_ok_def ok_history caps_history headers_history)

lemma store_ok_cache_ok: "store_ok B n c \<Longrightarrow> cache_ok B c"
  by (simp add: store_ok_def)

lemmas store_views = fst_gets [OF store_ok_cache_ok] view_lookups [OF store_ok_cache_ok]

lemma card_numbers:
  assumes "store_ok B n c"
  shows "finite (dom (header_at_number B c)) \<and> card (dom (header_at_number B c)) \<le> n"
proof -
  have "dom (header_at_number B c) = set (lru_keys (hn_lru B) (headers_by_number c))"
    using assms by (simp add: store_ok_def cache_ok_def header_at_number_def hn.keys_view)
  moreover have "length (lru_keys (hn_lru B) (headers_by_number c)) \<le> n"
    using assms by (simp add: store_ok_def cache_ok_def caps_are_def lru_ok_def lru_keys_def)
  ultimately show ?thesis
    using card_length order_trans by fastforce
qed

lemma body_ok:
  assumes "store_ok B n c"
  shows "lru_ok (bh_lru B) (bodies_by_hash c)" "lru_cap (bh_lru B) (bodies_by_hash c) = n"
    "distinct (map fst (lru_iter (bh_lru B) (bodies_by_hash c)))"
  using assms by (simp_all add: store_ok_def cache_ok_def caps_are_def lru_ok_def)

lemma body_pinned_lookup:
  "store_ok B n c \<Longrightarrow> body_pinned B P c \<Longrightarrow> body_pinned B (insert x P) (snd (get_body_by_hash B x c))"
  by (simp add: body_pinned_def get_body_by_hash_def case_prod_beta bh.iter_get body_ok pinned_touch)

lemma body_pinned_insert:
  assumes "store_ok B n c" "body_pinned B P c" "finite P" "card (insert x P) \<le> n"
  shows "body_pinned B (insert x P) (cache_insert_body B x b c)"
    and "y \<in> P \<Longrightarrow> y \<noteq> x \<Longrightarrow> body_at B (cache_insert_body B x b c) y = body_at B c y"
  using pinned_push [OF assms(2) [unfolded body_pinned_def] body_ok(3) [OF assms(1)] assms(3,4)]
  by (simp_all add: body_pinned_def cache_insert_body_def body_at_def lru_view_def
      bh.iter_push body_ok [OF assms(1)])

end

sublocale block_caches \<subseteq>
  store: block_store "cache_store B" "store_ok B n" "header_at_hash B" "header_at_number B" "body_at B"
    "body_pinned B" "\<lambda>_. n" for n
proof unfold_locales
  fix s m h assume "store_ok B n s" "header_at_number B s m = Some h"
  then show "number h = m" by (simp add: store_ok_def headers_coherent_def)
next
  fix s x b assume "store_ok B n s"
  then show "body_at B (st_insert_body (cache_store B) x b s) x = Some b"
    by (simp add: store_ok_def view_insert_same)
next
  fix s assume "store_ok B n s"
  then show "finite (dom (header_at_number B s)) \<and> card (dom (header_at_number B s)) \<le> n"
    by (rule card_numbers)
next
  fix s P x b assume "store_ok B n s" "body_pinned B P s" "finite P" "card (insert x P) \<le> n"
  then show "body_pinned B (insert x P) (st_insert_body (cache_store B) x b s)"
    by (simp add: body_pinned_insert)
next
  fix s P x b y
  assume "store_ok B n s" "body_pinned B P s" "finite P" "card (insert x P) \<le> n" "y \<in> P" "y \<noteq> x"
  then show "body_at B (st_insert_body (cache_store B) x b s) y = body_at B s y"
    by (simp add: body_pinned_insert)
next
  fix s show "body_pinned B {} s" by (simp add: body_pinned_def)
qed (simp_all add: store_ok_ops body_pinned_lookup store_views)

end
