(* ===== verification/Eth_Proxy.thy ===== *)
theory Eth_Proxy
  imports Block_Store
begin

text \<open>
  \<open>src/eth_proxy.rs\<close>: the handler of the requests that peers send. A request is answered from the
  store \<open>S\<close> when it can be, and otherwise by what the \<open>FetchClient\<close> gets from the network, which is
  the argument \<open>net\<close> of each request. \<open>hash_slow\<close> is \<open>Header::hash_slow\<close>. The answer of
  \<open>handle_request\<close> is what is sent on the request's \<open>response\<close> channel, \<open>None\<close> when nothing is.
\<close>

datatype hash_or_number = Hash b256 | Number u64

datatype direction = Rising | Falling

record get_block_headers =
  start_block :: hash_or_number
  limit :: u64
  skip :: u32
  dir :: direction

record headers_request =
  hr_start :: hash_or_number
  hr_limit :: u64
  hr_direction :: direction

datatype eth_request =
    GetBlockHeaders get_block_headers
  | GetBlockBodies "b256 list"
  | GetNodeData
  | GetReceipts
  | GetReceipts69
  | GetReceipts70
  | GetBlockAccessLists

text \<open>Receipts and access lists are only ever answered empty.\<close>

datatype ('x, 'b) eth_response =
    BlockHeaders "'x header_scheme list"
  | BlockBodies "'b list"
  | EmptyReceipts
  | EmptyReceipts69
  | EmptyReceipts70 (last_block_incomplete: bool)
  | EmptyBlockAccessLists

record ('x, 'b) net =
  fetch_headers :: "headers_request \<Rightarrow> 'x header_scheme list option"
  fetch_bodies :: "b256 list \<Rightarrow> 'b list option"

section \<open>Resolving from the cache\<close>

definition next_number :: "direction \<Rightarrow> u64 \<Rightarrow> u64 \<Rightarrow> u64 option" where
  "next_number d num step = (if d = Rising then checked_add num step else checked_sub num step)"

text \<open>The loop \<open>for _ in 0..*limit\<close> with its two ways to break.\<close>

fun header_walk ::
    "('s, 'x, 'b) store_ops \<Rightarrow> direction \<Rightarrow> u64 \<Rightarrow> nat \<Rightarrow> u64 option \<Rightarrow> 's
     \<Rightarrow> 'x header_scheme list \<times> 's" where
  "header_walk S d step 0 current s = ([], s)"
| "header_walk S d step (Suc k) current s =
     (case current of
        None \<Rightarrow> ([], s)
      | Some num \<Rightarrow>
          (case st_header_by_number S num s of
             (None, s') \<Rightarrow> ([], s')
           | (Some h, s') \<Rightarrow>
               (case header_walk S d step k (next_number d num step) s' of
                  (hs, s'') \<Rightarrow> (h # hs, s''))))"

definition resolve_headers_from_cache ::
    "('s, 'x, 'b) store_ops \<Rightarrow> get_block_headers \<Rightarrow> 's \<Rightarrow> 'x header_scheme list \<times> 's" where
  "resolve_headers_from_cache S req s =
     (let (current, s') =
            (case start_block req of
               Number n \<Rightarrow> (Some n, s)
             | Hash x \<Rightarrow> (case st_header_by_hash S x s of (r, t) \<Rightarrow> (map_option number r, t)));
          step = (ucast (skip req) :: u64) + 1
      in header_walk S (dir req) step (unat (limit req)) current s')"

fun resolve_bodies_from_cache ::
    "('s, 'x, 'b) store_ops \<Rightarrow> b256 list \<Rightarrow> 's \<Rightarrow> 'b list \<times> 's" where
  "resolve_bodies_from_cache S [] s = ([], s)"
| "resolve_bodies_from_cache S (x # xs) s =
     (case st_body_by_hash S x s of
        (r, s') \<Rightarrow>
          (case resolve_bodies_from_cache S xs s' of
             (bs, s'') \<Rightarrow> (case r of Some b \<Rightarrow> (b # bs, s'') | None \<Rightarrow> (bs, s''))))"

section \<open>The handler\<close>

text \<open>The filter of the hashes whose body is not cached.\<close>

fun missing_hashes :: "('s, 'x, 'b) store_ops \<Rightarrow> b256 list \<Rightarrow> 's \<Rightarrow> b256 list \<times> 's" where
  "missing_hashes S [] s = ([], s)"
| "missing_hashes S (x # xs) s =
     (case st_body_by_hash S x s of
        (r, s') \<Rightarrow>
          (case missing_hashes S xs s' of
             (ms, s'') \<Rightarrow> (if r = None then (x # ms, s'') else (ms, s''))))"

text \<open>The loop that merges cached bodies with the fetched ones, in the order of the request.\<close>

fun merge_bodies ::
    "('s, 'x, 'b) store_ops \<Rightarrow> b256 list \<Rightarrow> 'b list \<Rightarrow> 's \<Rightarrow> 'b list \<times> 's" where
  "merge_bodies S [] fetched s = ([], s)"
| "merge_bodies S (x # xs) fetched s =
     (case st_body_by_hash S x s of
        (Some b, s') \<Rightarrow> (case merge_bodies S xs fetched s' of (bs, s'') \<Rightarrow> (b # bs, s''))
      | (None, s') \<Rightarrow>
          (case fetched of
             [] \<Rightarrow> merge_bodies S xs [] s'
           | b # rest \<Rightarrow>
               (case merge_bodies S xs rest (st_insert_body S x b s') of (bs, s'') \<Rightarrow> (b # bs, s''))))"

fun insert_headers ::
    "('s, 'x, 'b) store_ops \<Rightarrow> ('x header_scheme \<Rightarrow> b256) \<Rightarrow> 'x header_scheme list \<Rightarrow> 's \<Rightarrow> 's" where
  "insert_headers S hash_slow [] s = s"
| "insert_headers S hash_slow (h # hs) s =
     insert_headers S hash_slow hs (st_insert_header S (hash_slow h) h s)"

definition handle_headers ::
    "('s, 'x, 'b) store_ops \<Rightarrow> ('x header_scheme \<Rightarrow> b256) \<Rightarrow> ('x, 'b) net \<Rightarrow> get_block_headers
     \<Rightarrow> 's \<Rightarrow> ('x, 'b) eth_response option \<times> 's" where
  "handle_headers S hash_slow net req s =
     (case resolve_headers_from_cache S req s of
        (hs, s') \<Rightarrow>
          if hs \<noteq> [] then (Some (BlockHeaders hs), s')
          else
            case fetch_headers net \<lparr>hr_start = start_block req, hr_limit = limit req,
                                    hr_direction = dir req\<rparr> of
              Some fetched \<Rightarrow> (Some (BlockHeaders fetched), insert_headers S hash_slow fetched s')
            | None \<Rightarrow> (Some (BlockHeaders []), s'))"

definition handle_bodies ::
    "('s, 'x, 'b) store_ops \<Rightarrow> ('x, 'b) net \<Rightarrow> b256 list
     \<Rightarrow> 's \<Rightarrow> ('x, 'b) eth_response option \<times> 's" where
  "handle_bodies S net hashes s =
     (case resolve_bodies_from_cache S hashes s of
        (bodies, s1) \<Rightarrow>
          if length bodies = length hashes \<and> 0 < length hashes then (Some (BlockBodies bodies), s1)
          else case missing_hashes S hashes s1 of
            (missing, s2) \<Rightarrow>
              if missing = [] then (Some (BlockBodies bodies), s2)
              else case fetch_bodies net missing of
                  Some fetched \<Rightarrow>
                    (case merge_bodies S hashes fetched s2 of
                       (all, s3) \<Rightarrow> (Some (BlockBodies all), s3))
                | None \<Rightarrow> (Some (BlockBodies bodies), s2))"

fun handle_request ::
    "('s, 'x, 'b) store_ops \<Rightarrow> ('x header_scheme \<Rightarrow> b256) \<Rightarrow> ('x, 'b) net \<Rightarrow> eth_request
     \<Rightarrow> 's \<Rightarrow> ('x, 'b) eth_response option \<times> 's" where
  "handle_request S hash_slow net (GetBlockHeaders req) s = handle_headers S hash_slow net req s"
| "handle_request S hash_slow net (GetBlockBodies hashes) s = handle_bodies S net hashes s"
| "handle_request S hash_slow net GetNodeData s = (None, s)"
| "handle_request S hash_slow net GetReceipts s = (Some EmptyReceipts, s)"
| "handle_request S hash_slow net GetReceipts69 s = (Some EmptyReceipts69, s)"
| "handle_request S hash_slow net GetReceipts70 s = (Some (EmptyReceipts70 False), s)"
| "handle_request S hash_slow net GetBlockAccessLists s = (Some EmptyBlockAccessLists, s)"

text \<open>
  The task's loop: requests are taken from the channel one after the other, each with what the
  network answers while it is served, until the channel closes.
\<close>

fun start_eth_request_handler ::
    "('s, 'x, 'b) store_ops \<Rightarrow> ('x header_scheme \<Rightarrow> b256) \<Rightarrow> (('x, 'b) net \<times> eth_request) list
     \<Rightarrow> 's \<Rightarrow> ('x, 'b) eth_response option list \<times> 's" where
  "start_eth_request_handler S hash_slow [] s = ([], s)"
| "start_eth_request_handler S hash_slow ((net, req) # incoming) s =
     (case handle_request S hash_slow net req s of
        (answer, s') \<Rightarrow>
          (case start_eth_request_handler S hash_slow incoming s' of
             (answers, s'') \<Rightarrow> (answer # answers, s'')))"

section \<open>The walk over block numbers\<close>

text \<open>The walk over a fixed view of the headers.\<close>

fun walk_view ::
    "(u64 \<Rightarrow> 'h option) \<Rightarrow> direction \<Rightarrow> u64 \<Rightarrow> nat \<Rightarrow> u64 option \<Rightarrow> 'h list" where
  "walk_view V d step 0 current = []"
| "walk_view V d step (Suc k) current =
     (case current of
        None \<Rightarrow> []
      | Some num \<Rightarrow> (case V num of None \<Rightarrow> [] | Some h \<Rightarrow> h # walk_view V d step k (next_number d num step)))"

text \<open>The number \<open>i\<close> steps away from \<open>n\<close>, over unbounded integers; \<open>None\<close> outside \<open>u64\<close>.\<close>

definition nth_number :: "direction \<Rightarrow> u64 \<Rightarrow> nat \<Rightarrow> nat \<Rightarrow> u64 option" where
  "nth_number d n step i =
     (if d = Rising
      then (if unat n + i * step < 2 ^ 64 then Some (of_nat (unat n + i * step)) else None)
      else (if i * step \<le> unat n then Some (of_nat (unat n - i * step)) else None))"

lemma u64_of_nat_iff: "k < 2 ^ 64 \<Longrightarrow> (of_nat k :: u64) = m \<longleftrightarrow> unat m = k"
  by (auto simp: unat_of_nat take_bit_nat_eq_self)

lemma nth_number_Some_iff:
  "nth_number Rising n s i = Some m \<longleftrightarrow> unat m = unat n + i * s"
  "nth_number Falling n s i = Some m \<longleftrightarrow> unat m + i * s = unat n"
proof -
  have "unat m < 2 ^ 64" by (rule order.strict_trans2 [OF unat_less]) simp
  then show "nth_number Rising n s i = Some m \<longleftrightarrow> unat m = unat n + i * s"
    using u64_of_nat_iff [of "unat n + i * s" m] unfolding nth_number_def by (simp del: of_nat_add)
  have "unat n - i * s < 2 ^ 64" using unat_less [of n] by simp
  from u64_of_nat_iff [OF this, of m]
  show "nth_number Falling n s i = Some m \<longleftrightarrow> unat m + i * s = unat n"
    unfolding nth_number_def by (auto simp del: of_nat_diff)
qed

lemma next_number_Some_iff:
  "next_number Rising n step = Some m \<longleftrightarrow> unat m = unat n + unat step"
  "next_number Falling n step = Some m \<longleftrightarrow> unat m + unat step = unat n"
proof -
  have m: "unat m < 2 ^ 64" by (rule order.strict_trans2 [OF unat_less]) simp
  have "unat (n + step) = unat n + unat step" if "unat n + unat step < 2 ^ 64"
    using that by (simp add: unat_word_ariths)
  then show "next_number Rising n step = Some m \<longleftrightarrow> unat m = unat n + unat step"
    using m by (auto simp: next_number_def checked_add_def word_unat_eq_iff)
  have "unat (n - step) = unat n - unat step" if "step \<le> n"
    using that by (rule unat_sub)
  then show "next_number Falling n step = Some m \<longleftrightarrow> unat m + unat step = unat n"
    by (auto simp: next_number_def checked_sub_def word_unat_eq_iff word_le_nat_alt)
qed

lemma nth_number_0 [simp]: "nth_number d n step 0 = Some n"
  by (cases d) (simp_all add: nth_number_Some_iff)

lemma ex_u64: "k < 2 ^ 64 \<Longrightarrow> \<exists>m :: u64. unat m = k"
  using u64_of_nat_iff by blast

lemma nth_number_Suc:
  "nth_number d n (unat step) (Suc i) = Some m' \<longleftrightarrow>
     (\<exists>m. next_number d n step = Some m \<and> nth_number d m (unat step) i = Some m')"
proof (cases d)
  case Rising
  show ?thesis
    unfolding Rising nth_number_Some_iff next_number_Some_iff
  proof
    assume a: "unat m' = unat n + Suc i * unat step"
    then have "unat n + unat step < 2 ^ 64" using unat_less [of m'] by simp
    then obtain m :: u64 where "unat m = unat n + unat step" using ex_u64 by blast
    with a show "\<exists>m :: u64. unat m = unat n + unat step \<and> unat m' = unat m + i * unat step"
      by (intro exI [of _ m]) simp
  qed auto
next
  case Falling
  show ?thesis
    unfolding Falling nth_number_Some_iff next_number_Some_iff
  proof
    assume a: "unat m' + Suc i * unat step = unat n"
    have "unat m' + i * unat step < 2 ^ 64" using a unat_less [of n] by simp
    then obtain m :: u64 where "unat m = unat m' + i * unat step" using ex_u64 by blast
    with a show "\<exists>m :: u64. unat m + unat step = unat n \<and> unat m' + i * unat step = unat m"
      by (intro exI [of _ m]) simp
  qed auto
qed

lemma nth_number_inj:
  assumes "0 < step" "nth_number d n step i = Some m" "nth_number d n step j = Some m"
  shows "i = j"
proof -
  have "i * step = j * step"
  proof (cases d)
    case Rising
    have "unat m = unat n + i * step" "unat m = unat n + j * step"
      using assms(2,3) unfolding Rising nth_number_Some_iff .
    then show ?thesis by linarith
  next
    case Falling
    have "unat m + i * step = unat n" "unat m + j * step = unat n"
      using assms(2,3) unfolding Falling nth_number_Some_iff .
    then show ?thesis by linarith
  qed
  with assms(1) show ?thesis by simp
qed

lemma walk_view_None [simp]: "walk_view V d step k None = []"
  by (cases k) simp_all

lemma length_walk_view: "length (walk_view V d step k current) \<le> k"
  by (induction k arbitrary: current) (auto split: option.split)

lemma walk_view_nth:
  assumes "i < length (walk_view V d step k (Some n))"
  shows "\<exists>m. nth_number d n (unat step) i = Some m \<and> V m = Some (walk_view V d step k (Some n) ! i)"
  using assms
proof (induction k arbitrary: n i)
  case 0
  then show ?case by simp
next
  case (Suc k)
  then obtain h where h: "V n = Some h" by (cases "V n") simp_all
  show ?case
  proof (cases i)
    case 0
    with h show ?thesis by simp
  next
    case (Suc j)
    with Suc.prems h obtain m where m: "next_number d n step = Some m"
      by (cases "next_number d n step") simp_all
    with Suc.prems h Suc have "j < length (walk_view V d step k (Some m))" by simp
    from Suc.IH [OF this] obtain m' where
      "nth_number d m (unat step) j = Some m'" "V m' = Some (walk_view V d step k (Some m) ! j)"
      by blast
    moreover have "walk_view V d step (Suc k) (Some n) ! i = walk_view V d step k (Some m) ! j"
      using Suc h m by simp
    ultimately show ?thesis
      using m unfolding Suc nth_number_Suc by auto
  qed
qed

lemma walk_view_stop:
  assumes "length (walk_view V d step k (Some n)) < k"
    "nth_number d n (unat step) (length (walk_view V d step k (Some n))) = Some m"
  shows "V m = None"
  using assms
proof (induction k arbitrary: n)
  case 0
  then show ?case by simp
next
  case (Suc k)
  show ?case
  proof (cases "V n")
    case None
    with Suc.prems show ?thesis by simp
  next
    case (Some h)
    with Suc.prems(2) obtain m' where m': "next_number d n step = Some m'"
      by (auto simp: nth_number_Suc)
    with Some Suc.prems show ?thesis
      by (intro Suc.IH [of m']) (simp_all add: nth_number_Suc)
  qed
qed

lemma walk_view_bound:
  assumes "finite (dom V)" "0 < unat step"
  shows "length (walk_view V d step k (Some n)) \<le> card (dom V)"
proof -
  let ?hs = "walk_view V d step k (Some n)"
  let ?f = "\<lambda>i. the (nth_number d n (unat step) i)"
  have f: "nth_number d n (unat step) i = Some (?f i)" "?f i \<in> dom V" if "i < length ?hs" for i
    using walk_view_nth [OF that] by auto
  have "inj_on ?f {..<length ?hs}"
  proof (rule inj_onI)
    fix i j assume "i \<in> {..<length ?hs}" "j \<in> {..<length ?hs}" "?f i = ?f j"
    then show "i = j" using nth_number_inj [OF assms(2)] f(1) by (metis lessThan_iff)
  qed
  moreover have "?f ` {..<length ?hs} \<subseteq> dom V" using f(2) by auto
  ultimately show ?thesis
    using card_inj_on_le [of ?f "{..<length ?hs}" "dom V"] assms(1) by simp
qed

lemma unat_step: "unat ((ucast (sk :: u32) :: u64) + 1) = Suc (unat sk)"
proof -
  have "unat (ucast sk :: u64) = unat sk" by (rule unat_ucast_up) simp
  moreover have "Suc (unat sk) < 2 ^ 64" using unat_less [of sk] by simp
  ultimately show ?thesis by (simp add: unat_word_ariths)
qed

section \<open>The handler over any lawful store\<close>

context block_store
begin

text \<open>Lookups answer from the views and keep them.\<close>

definition same_views :: "'s \<Rightarrow> 's \<Rightarrow> bool" where
  "same_views s t \<longleftrightarrow> ok t \<and> by_hash t = by_hash s \<and> by_number t = by_number s \<and> body t = body s"

lemma same_views_lookups:
  assumes "ok s"
  shows "same_views s (snd (st_header_by_hash S x s))" "same_views s (snd (st_header_by_number S n s))"
    "same_views s (snd (st_body_by_hash S x s))" "same_views s s"
  using assms
  by (simp_all add: same_views_def ok_lookups by_hash_lookups by_number_lookups body_lookups)

lemma same_views_trans: "same_views s t \<Longrightarrow> same_views t u \<Longrightarrow> same_views s u"
  by (simp add: same_views_def)

lemma header_walk_eq:
  assumes "ok s"
  shows "fst (header_walk S d step k current s) = walk_view (by_number s) d step k current
    \<and> same_views s (snd (header_walk S d step k current s))"
  using assms
proof (induction k arbitrary: current s)
  case 0
  then show ?case by (simp add: same_views_lookups)
next
  case (Suc k)
  show ?case
  proof (cases current)
    case None
    with Suc.prems show ?thesis by (simp add: same_views_lookups)
  next
    case (Some n)
    obtain r t where rt: "st_header_by_number S n s = (r, t)" by fastforce
    then have r: "r = by_number s n" and t: "same_views s t"
      using lookups(2) [OF Suc.prems, of n] same_views_lookups(2) [OF Suc.prems, of n] by simp_all
    then have "ok t" "by_number t = by_number s" by (simp_all add: same_views_def)
    with Suc.IH [of t "next_number d n step"] t r Some rt show ?thesis
      by (auto split: option.split prod.split intro: same_views_trans)
  qed
qed

lemma resolve_headers_eq:
  assumes "ok s"
  shows "fst (resolve_headers_from_cache S req s) =
      walk_view (by_number s) (dir req) (ucast (skip req) + 1) (unat (limit req))
        (case start_block req of Number n \<Rightarrow> Some n | Hash x \<Rightarrow> map_option number (by_hash s x))
    \<and> same_views s (snd (resolve_headers_from_cache S req s))"
proof (cases "start_block req")
  case (Hash x)
  have "same_views s (snd (st_header_by_hash S x s))" "fst (st_header_by_hash S x s) = by_hash s x"
    using assms by (simp_all add: same_views_lookups lookups)
  moreover from this have "ok (snd (st_header_by_hash S x s))"
    "by_number (snd (st_header_by_hash S x s)) = by_number s" by (simp_all add: same_views_def)
  ultimately show ?thesis
    using Hash header_walk_eq [of "snd (st_header_by_hash S x s)"]
    by (auto simp: resolve_headers_from_cache_def Let_def case_prod_beta intro: same_views_trans)
next
  case (Number n)
  with header_walk_eq [OF assms] show ?thesis
    by (simp add: resolve_headers_from_cache_def Let_def)
qed

lemma resolve_bodies_eq:
  assumes "ok s" "pin P s"
  shows "fst (resolve_bodies_from_cache S xs s) = List.map_filter (body s) xs
    \<and> same_views s (snd (resolve_bodies_from_cache S xs s))
    \<and> pin (P \<union> set xs) (snd (resolve_bodies_from_cache S xs s))
    \<and> room (snd (resolve_bodies_from_cache S xs s)) = room s"
  using assms
proof (induction xs arbitrary: s P)
  case Nil
  then show ?case by (simp add: same_views_lookups)
next
  case (Cons x xs)
  obtain r t where rt: "st_body_by_hash S x s = (r, t)" by fastforce
  then have r: "r = body s x" and t: "same_views s t"
    using lookups(3) [OF Cons.prems(1), of x] same_views_lookups(3) [OF Cons.prems(1), of x] by simp_all
  moreover have "pin (insert x P) t" "room t = room s"
    using pin_lookup [OF Cons.prems, of x] room_ops(1) [OF Cons.prems(1), of x] rt by simp_all
  moreover have "ok t" "body t = body s" using t by (simp_all add: same_views_def)
  ultimately show ?case
    using Cons.IH [of t "insert x P"] rt same_views_trans [of s t]
    by (simp add: case_prod_beta split: option.split)
qed

lemma missing_hashes_eq:
  assumes "ok s" "pin P s" "set xs \<subseteq> P"
  shows "fst (missing_hashes S xs s) = filter (\<lambda>x. body s x = None) xs
    \<and> same_views s (snd (missing_hashes S xs s)) \<and> pin P (snd (missing_hashes S xs s))
    \<and> room (snd (missing_hashes S xs s)) = room s"
  using assms
proof (induction xs arbitrary: s)
  case Nil
  then show ?case by (simp add: same_views_lookups)
next
  case (Cons x xs)
  obtain r t where rt: "st_body_by_hash S x s = (r, t)" by fastforce
  then have r: "r = body s x" and t: "same_views s t"
    using lookups(3) [OF Cons.prems(1), of x] same_views_lookups(3) [OF Cons.prems(1), of x] by simp_all
  moreover have "pin P t" "room t = room s"
    using pin_lookup [OF Cons.prems(1,2), of x] room_ops(1) [OF Cons.prems(1), of x] rt Cons.prems(3)
    by (simp_all add: insert_absorb)
  moreover have "ok t" "body t = body s" using t by (simp_all add: same_views_def)
  ultimately show ?case
    using Cons.IH [of t] Cons.prems(3) rt same_views_trans [of s t]
    by (simp add: case_prod_beta)
qed

text \<open>
  The merge, when the fetched bodies are those of the missing hashes in order, the hashes are
  distinct and the store can hold them all.
\<close>

lemma merge_bodies_honest:
  assumes "ok s" "pin P s" "finite P" "card P \<le> room s" "set xs \<subseteq> P" "distinct xs"
    and "\<forall>x \<in> P. \<forall>b. body s x = Some b \<longrightarrow> b = g x"
    and "fetched = map g (filter (\<lambda>x. body s x = None) xs)"
  shows "fst (merge_bodies S xs fetched s) = map g xs
    \<and> (\<forall>x \<in> P. body (snd (merge_bodies S xs fetched s)) x =
         (if x \<in> set xs then Some (g x) else body s x))"
  using assms
proof (induction xs arbitrary: s fetched)
  case Nil
  then show ?case by simp
next
  case (Cons x xs)
  obtain r t where rt: "st_body_by_hash S x s = (r, t)" by fastforce
  have r: "r = body s x" and views: "same_views s t"
    using rt lookups(3) [OF Cons.prems(1), of x] same_views_lookups(3) [OF Cons.prems(1), of x]
    by simp_all
  then have t: "ok t" "body t = body s" by (simp_all add: same_views_def)
  have x: "x \<in> P" "insert x P = P" "x \<notin> set xs" "set xs \<subseteq> P" "distinct xs"
    using Cons.prems(5,6) by auto
  have pin_t: "pin P t" "room t = room s"
    using rt pin_lookup [OF Cons.prems(1,2), of x] room_ops(1) [OF Cons.prems(1), of x] x(2) by simp_all
  show ?case
  proof (cases "body s x")
    case (Some b)
    then have "b = g x" using Cons.prems(7) x(1) by blast
    moreover have "fst (merge_bodies S xs fetched t) = map g xs
      \<and> (\<forall>y \<in> P. body (snd (merge_bodies S xs fetched t)) y =
           (if y \<in> set xs then Some (g y) else body t y))"
      using Cons.prems t pin_t x Some by (intro Cons.IH) simp_all
    ultimately show ?thesis
      using rt r Some t x(3) by (auto simp: case_prod_beta)
  next
    case None
    let ?u = "st_insert_body S x (g x) t"
    have f: "fetched = g x # map g (filter (\<lambda>y. body s y = None) xs)"
      using Cons.prems(8) None by simp
    have card: "card (insert x P) \<le> room t" using Cons.prems(4) x(2) pin_t(2) by simp
    have u: "ok ?u" "pin P ?u" "room ?u = room s" "body ?u x = Some (g x)"
      using ok_insertions(2) [OF t(1)] pin_insert [OF t(1) pin_t(1) Cons.prems(3) card]
        room_ops(2) [OF t(1)] body_inserted [OF t(1)] x(2) pin_t(2) by simp_all
    have keep: "body ?u y = body s y" if "y \<in> P" "y \<noteq> x" for y
      using pin_keeps [OF t(1) pin_t(1) Cons.prems(3) card that] t(2) by simp
    have same: "filter (\<lambda>y. body ?u y = None) xs = filter (\<lambda>y. body s y = None) xs"
      using x(3,4) keep by (intro filter_cong refl) (metis subsetD)
    have "\<forall>y \<in> P. \<forall>b. body ?u y = Some b \<longrightarrow> b = g y"
      using Cons.prems(7) keep u(4) by (metis option.inject)
    moreover define M where "M = merge_bodies S xs (map g (filter (\<lambda>y. body s y = None) xs)) ?u"
    ultimately have M: "fst M = map g xs"
      "\<forall>y \<in> P. body (snd M) y = (if y \<in> set xs then Some (g y) else body ?u y)"
      using Cons.IH [of ?u "map g (filter (\<lambda>y. body s y = None) xs)"] Cons.prems(3,4) u x(4,5) same
      by simp_all
    have eq: "merge_bodies S (x # xs) fetched s = (g x # fst M, snd M)"
      using rt r None by (simp add: f M_def case_prod_beta)
    show ?thesis
    proof (intro conjI ballI)
      fix y assume "y \<in> P"
      then show "body (snd (merge_bodies S (x # xs) fetched s)) y =
          (if y \<in> set (x # xs) then Some (g y) else body s y)"
        using M(2) keep [of y] u(4) x(3) unfolding eq by (cases "y = x") simp_all
    qed (simp add: eq M(1) del: merge_bodies.simps)
  qed
qed

lemma handle_bodies_honest:
  assumes "ok s" "distinct hashes" "length hashes \<le> room s"
    and "\<forall>x \<in> set hashes. \<forall>b. body s x = Some b \<longrightarrow> b = g x"
    and "fetch_bodies net (filter (\<lambda>x. body s x = None) hashes) =
      Some (map g (filter (\<lambda>x. body s x = None) hashes))"
  shows "fst (handle_bodies S net hashes s) = Some (BlockBodies (map g hashes))
    \<and> (\<forall>x \<in> set hashes. body (snd (handle_bodies S net hashes s)) x = Some (g x))"
proof -
  obtain bodies s1 where res: "resolve_bodies_from_cache S hashes s = (bodies, s1)" by fastforce
  have r: "bodies = List.map_filter (body s) hashes" "same_views s s1" "pin (set hashes) s1" "room s1 = room s"
    using resolve_bodies_eq [OF assms(1) pin_empty [OF assms(1)], of hashes] res by simp_all
  then have s1: "ok s1" "body s1 = body s" by (simp_all add: same_views_def)
  obtain ms s2 where mis: "missing_hashes S hashes s1 = (ms, s2)" by fastforce
  have m: "ms = filter (\<lambda>x. body s x = None) hashes" "same_views s1 s2" "pin (set hashes) s2" "room s2 = room s"
    using missing_hashes_eq [OF s1(1) r(3), of hashes] mis r(4) s1(2) by simp_all
  then have s2: "ok s2" "body s2 = body s" using s1 by (simp_all add: same_views_def)
  show ?thesis
  proof (cases "\<forall>x \<in> set hashes. body s x \<noteq> None")
    case True
    then have all: "\<forall>x \<in> set hashes. body s x = Some (g x)" using assms(4) by auto
    then have "bodies = map g hashes" by (simp add: r(1) map_filter_eq_map)
    moreover have "ms = []" using True by (simp add: m(1) filter_empty_conv)
    ultimately show ?thesis
      using res mis all s1(2) s2(2) by (simp add: handle_bodies_def)
  next
    case False
    then have "length bodies \<noteq> length hashes" by (simp add: r(1) length_map_filter_eq)
    moreover have "ms \<noteq> []" using False by (simp add: m(1) filter_empty_conv)
    moreover have "fetch_bodies net ms = Some (map g ms)" using assms(5) m(1) by simp
    ultimately have eq: "handle_bodies S net hashes s =
        (Some (BlockBodies (fst (merge_bodies S hashes (map g ms) s2))),
         snd (merge_bodies S hashes (map g ms) s2))"
      using res mis by (simp add: handle_bodies_def case_prod_beta)
    have "card (set hashes) \<le> room s2"
      using assms(2,3) m(4) by (simp add: distinct_card)
    then show ?thesis
      using merge_bodies_honest [OF s2(1) m(3) finite_set _ subset_refl assms(2), of g "map g ms"]
        assms(4) s2(2) m(1) unfolding eq by simp
  qed
qed

end

section \<open>Header integrity\<close>

text \<open>Whatever peers answer, the handler stores a header under its own hash only.\<close>

definition honest_headers ::
    "('hh, 'hn, 'nh, 'bh, 'x, 'b) block_lrus \<Rightarrow> ('x header_scheme \<Rightarrow> b256)
     \<Rightarrow> ('hh, 'hn, 'nh, 'bh) block_cache \<Rightarrow> bool" where
  "honest_headers B hash_slow c \<longleftrightarrow> cache_ok B c \<and> headers_coherent B (\<lambda>x h. hash_slow h = x) c"

context block_caches
begin

lemma honest_op:
  assumes "honest_headers B hs c" "op_allowed (\<lambda>x h. hs h = x) (\<lambda>_ _. True) op"
  shows "honest_headers B hs (apply_op B op c)"
  using assms coherent_apply_op [of c "\<lambda>x h. hs h = x" "\<lambda>_ _. True" op]
  by (simp add: honest_headers_def coherent_def bodies_coherent_def ok_apply_op)

lemma honest_ops:
  assumes "honest_headers B hs c"
  shows "honest_headers B hs (snd (get_header_by_hash B x c))"
    "honest_headers B hs (snd (get_header_by_number B n c))"
    "honest_headers B hs (snd (get_body_by_hash B x c))"
    "honest_headers B hs (cache_insert_body B x b c)"
    "honest_headers B hs (cache_insert_header B (hs h) h c)"
  using honest_op [OF assms, of "HeaderByHash x"] honest_op [OF assms, of "HeaderByNumber n"]
    honest_op [OF assms, of "BodyByHash x"] honest_op [OF assms, of "InsertBody x b"]
    honest_op [OF assms, of "InsertHeader (hs h) h"]
  by simp_all

lemma honest_header_walk:
  "honest_headers B hs c \<Longrightarrow> honest_headers B hs (snd (header_walk (cache_store B) d step k current c))"
proof (induction k arbitrary: current c)
  case (Suc k)
  show ?case
  proof (cases current)
    case (Some n)
    obtain r t where rt: "get_header_by_number B n c = (r, t)" by fastforce
    with honest_ops(2) [OF Suc.prems, of n] have "honest_headers B hs t" by simp
    with Suc.IH [of t "next_number d n step"] rt Some show ?thesis
      by (simp add: case_prod_beta split: option.split)
  qed (use Suc.prems in simp)
qed simp

lemma honest_resolve_headers:
  "honest_headers B hs c \<Longrightarrow> honest_headers B hs (snd (resolve_headers_from_cache (cache_store B) req c))"
  by (cases "start_block req")
    (auto simp: resolve_headers_from_cache_def Let_def case_prod_beta intro: honest_header_walk honest_ops)

lemma honest_resolve_bodies:
  "honest_headers B hs c \<Longrightarrow> honest_headers B hs (snd (resolve_bodies_from_cache (cache_store B) xs c))"
  by (induction xs arbitrary: c) (auto simp: case_prod_beta honest_ops split: option.split)

lemma honest_missing:
  "honest_headers B hs c \<Longrightarrow> honest_headers B hs (snd (missing_hashes (cache_store B) xs c))"
  by (induction xs arbitrary: c) (auto simp: case_prod_beta honest_ops)

lemma honest_merge:
  "honest_headers B hs c \<Longrightarrow> honest_headers B hs (snd (merge_bodies (cache_store B) xs fetched c))"
proof (induction xs arbitrary: c fetched)
  case (Cons x xs)
  obtain r t where rt: "get_body_by_hash B x c = (r, t)" by fastforce
  with honest_ops(3) [OF Cons.prems, of x] have t: "honest_headers B hs t" by simp
  with Cons.IH [of t] Cons.IH [of "cache_insert_body B x b t" for b] rt honest_ops(4) [OF t, of x]
  show ?case by (simp add: case_prod_beta split: option.split list.split)
qed simp

lemma honest_insert_headers:
  "honest_headers B hs c \<Longrightarrow> honest_headers B hs (insert_headers (cache_store B) hs fetched c)"
  by (induction fetched arbitrary: c) (simp_all add: honest_ops)

lemma honest_handle_request:
  assumes "honest_headers B hs c"
  shows "honest_headers B hs (snd (handle_request (cache_store B) hs net req c))"
proof (cases req)
  case (GetBlockHeaders r)
  then show ?thesis
    using honest_resolve_headers [OF assms, of r]
    by (auto simp: handle_headers_def case_prod_beta honest_insert_headers split: option.split)
next
  case (GetBlockBodies xs)
  then show ?thesis
    using honest_resolve_bodies [OF assms, of xs]
    by (auto simp: handle_bodies_def case_prod_beta honest_missing honest_merge split: option.split)
qed (use assms in simp_all)

lemma honest_handler:
  "honest_headers B hs c \<Longrightarrow>
   honest_headers B hs (snd (start_eth_request_handler (cache_store B) hs incoming c))"
proof (induction incoming arbitrary: c)
  case (Cons e incoming)
  then show ?case
    by (cases e) (simp add: case_prod_beta honest_handle_request)
qed simp

end

section \<open>The handler over the block cache\<close>

context block_caches
begin

lemma resolve_headers_history:
  "fst (resolve_headers_from_cache (cache_store B) req (run_ops B ops (cache_new B n))) =
     (let c = run_ops B ops (cache_new B n)
      in walk_view (header_at_number B c) (dir req) (ucast (skip req) + 1) (unat (limit req))
          (case start_block req of Number m \<Rightarrow> Some m | Hash x \<Rightarrow> map_option number (header_at_hash B c x)))"
  using store.resolve_headers_eq [OF store_ok_history, of req ops n] by (simp add: Let_def)

lemma handle_bodies_history:
  assumes "c = run_ops B ops (cache_new B n)" "distinct hashes" "length hashes \<le> effective_capacity n"
    and "\<forall>x \<in> set hashes. \<forall>b. body_at B c x = Some b \<longrightarrow> b = g x"
    and "\<And>ms. fetch_bodies net ms = Some (map g ms)"
  shows "fst (handle_bodies (cache_store B) net hashes c) = Some (BlockBodies (map g hashes))
    \<and> (\<forall>x \<in> set hashes. body_at B (snd (handle_bodies (cache_store B) net hashes c)) x = Some (g x))"
  unfolding assms(1)
  by (rule store.handle_bodies_honest [OF store_ok_history])
    (use assms(2-4) in \<open>simp_all add: assms(1,5)\<close>)

end

text \<open>
  C4. The headers answered from the cache are exactly the arithmetic walk the request asks for:
  the \<open>i\<close>-th is the cached header of the block \<open>i * (skip + 1)\<close> away from the start in the asked
  direction (over unbounded integers), at most \<open>limit\<close> of them, and the walk stops early only at
  a block that is not cached or outside \<open>u64\<close>.
\<close>

theorem resolved_headers_exact:
  assumes "block_caches B"
  shows "let c = run_ops B ops (cache_new B n);
             hs = fst (resolve_headers_from_cache (cache_store B) req c);
             at = (\<lambda>s i. nth_number (dir req) s (unat (skip req) + 1) i)
         in case (case start_block req of Number m \<Rightarrow> Some m
                  | Hash x \<Rightarrow> map_option number (fst (get_header_by_hash B x c))) of
              None \<Rightarrow> hs = []
            | Some s \<Rightarrow> length hs \<le> unat (limit req)
                \<and> (\<forall>i < length hs. at s i = Some (number (hs ! i))
                     \<and> fst (get_header_by_number B (number (hs ! i)) c) = Some (hs ! i))
                \<and> (length hs < unat (limit req) \<longrightarrow>
                     (\<forall>m. at s (length hs) = Some m \<longrightarrow> fst (get_header_by_number B m c) = None))"
proof -
  let ?c = "run_ops B ops (cache_new B n)"
  let ?step = "(ucast (skip req) :: u64) + 1"
  let ?start = "case start_block req of Number m \<Rightarrow> Some m | Hash x \<Rightarrow> map_option number (header_at_hash B ?c x)"
  let ?V = "header_at_number B ?c"
  have step: "unat ?step = unat (skip req) + 1" unfolding unat_step by (rule Suc_eq_plus1)
  show ?thesis
  proof (cases ?start)
    case None
    then show ?thesis
      unfolding Let_def block_caches.resolve_headers_history [OF assms] block_caches.gets_history [OF assms]
      by simp
  next
    case (Some s)
    define hs where "hs = walk_view ?V (dir req) ?step (unat (limit req)) (Some s)"
    have nth: "nth_number (dir req) s (unat (skip req) + 1) i = Some (number (hs ! i)) \<and> ?V (number (hs ! i)) = Some (hs ! i)"
      if i: "i < length hs" for i
    proof -
      obtain m where m: "nth_number (dir req) s (unat ?step) i = Some m" "?V m = Some (hs ! i)"
        using walk_view_nth [OF i [unfolded hs_def]] unfolding hs_def by blast
      moreover have "number (hs ! i) = m" by (rule block_caches.number_history [OF assms m(2)])
      ultimately show ?thesis unfolding step by simp
    qed
    have stop: "?V m = None" if "length hs < unat (limit req)"
      "nth_number (dir req) s (unat (skip req) + 1) (length hs) = Some m" for m
      by (rule walk_view_stop [of ?V "dir req" ?step "unat (limit req)" s m])
        (use that in \<open>simp_all only: hs_def step\<close>)
    have len: "length hs \<le> unat (limit req)" by (simp add: hs_def length_walk_view)
    have eq: "fst (resolve_headers_from_cache (cache_store B) req ?c) = hs"
      unfolding block_caches.resolve_headers_history [OF assms] Let_def hs_def Some ..
    show ?thesis
      unfolding Let_def eq block_caches.gets_history [OF assms] Some option.case
      using nth stop len by blast
  qed
qed

lemma header_walk_numeral:
  "header_walk S d step (numeral k) current s =
     (case current of
        None \<Rightarrow> ([], s)
      | Some num \<Rightarrow>
          (case st_header_by_number S num s of
             (None, s') \<Rightarrow> ([], s')
           | (Some h, s') \<Rightarrow>
               (case header_walk S d step (pred_numeral k) (next_number d num step) s' of
                  (hs, s'') \<Rightarrow> (h # hs, s''))))"
  by (simp add: numeral_eq_Suc)

theorem resolved_headers_exact_witness:
  "let hs = fst (resolve_headers_from_cache (cache_store list_lrus)
         \<lparr>start_block = Number 9, limit = 5, skip = 1, dir = Falling\<rparr>
         (run_ops list_lrus
            [Insert 7 \<lparr>number = 7, timestamp = 84\<rparr> ''a'', Insert 9 \<lparr>number = 9, timestamp = 108\<rparr> ''c'']
            (cache_new list_lrus 4)))
   in map number hs = [9, 7] \<and> nth_number Falling 9 2 1 = Some (number (hs ! 1))"
proof -
  let ?c = "run_ops list_lrus
      [Insert 7 \<lparr>number = 7, timestamp = 84\<rparr> ''a'', Insert 9 \<lparr>number = 9, timestamp = 108\<rparr> ''c'']
      (cache_new list_lrus 4)"
  let ?hs = "fst (resolve_headers_from_cache (cache_store list_lrus)
      \<lparr>start_block = Number 9, limit = 5, skip = 1, dir = Falling\<rparr> ?c)"
  have hs: "map number ?hs = [9, 7]"
    apply (simp add: resolve_headers_from_cache_def Let_def list_lrus_def cache_new_def cache_insert_def)
    apply (simp add: header_walk_numeral get_header_by_number_def touch_def)
    apply (simp add: next_number_def checked_sub_def)
    apply (simp add: header_walk_numeral get_header_by_number_def touch_def next_number_def checked_sub_def)
    done
  have two: "1 < length xs" if "map number xs = [9, 7]" for xs :: "header list"
    using arg_cong [OF that, of length] by simp
  have "nth_number Falling 9 (unat (1 :: u32) + 1) 1 = Some (number (?hs ! 1))"
    using resolved_headers_exact [OF list_blocks.block_caches_axioms,
        of "[Insert 7 \<lparr>number = 7, timestamp = 84\<rparr> ''a'', Insert 9 \<lparr>number = 9, timestamp = 108\<rparr> ''c'']" 4
          "\<lparr>start_block = Number 9, limit = 5, skip = 1, dir = Falling\<rparr>"] two [OF hs]
    unfolding Let_def get_block_headers.simps hash_or_number.simps option.simps by blast
  moreover have "unat (1 :: u32) + 1 = 2" by simp
  ultimately show ?thesis unfolding Let_def using hs by metis
qed

text \<open>
  C25. However large the \<open>limit\<close> a peer asks for, the answer from the cache has at most as many
  headers as the cache has entries, so the loop ends after at most that many steps and one miss.
\<close>

theorem resolved_headers_bounded:
  assumes "block_caches B"
  shows "length (fst (resolve_headers_from_cache (cache_store B) req (run_ops B ops (cache_new B n))))
    \<le> effective_capacity n"
proof -
  let ?c = "run_ops B ops (cache_new B n)"
  have fin: "finite (dom (header_at_number B ?c))"
    and card: "card (dom (header_at_number B ?c)) \<le> effective_capacity n"
    using block_caches.card_numbers [OF assms block_caches.store_ok_history [OF assms]] by blast+
  have pos: "0 < unat ((ucast (skip req) :: u64) + 1)" unfolding unat_step by simp
  have "length (walk_view (header_at_number B ?c) d (ucast (skip req) + 1) k start) \<le> effective_capacity n"
    for d k start
  proof (cases start)
    case (Some a)
    then show ?thesis using walk_view_bound [OF fin pos, of d k a] card by simp
  qed simp
  then show ?thesis
    unfolding block_caches.resolve_headers_history [OF assms] Let_def by blast
qed

theorem resolved_headers_bounded_witness:
  "length (fst (resolve_headers_from_cache (cache_store list_lrus)
     \<lparr>start_block = Number 0, limit = - 1, skip = 0, dir = Rising\<rparr>
     (run_ops list_lrus [Insert 7 \<lparr>number = 0, timestamp = 84\<rparr> ''a''] (cache_new list_lrus 4))))
   \<le> effective_capacity 4"
  by (rule resolved_headers_bounded [OF list_blocks.block_caches_axioms])





fun answers :: "('x, 'b) eth_response option \<Rightarrow> eth_request \<Rightarrow> bool" where
  "answers r (GetBlockHeaders _) = (\<exists>hs. r = Some (BlockHeaders hs))"
| "answers r (GetBlockBodies _) = (\<exists>bs. r = Some (BlockBodies bs))"
| "answers r GetNodeData = (r = None)"
| "answers r GetReceipts = (r = Some EmptyReceipts)"
| "answers r GetReceipts69 = (r = Some EmptyReceipts69)"
| "answers r GetReceipts70 = (r = Some (EmptyReceipts70 False))"
| "answers r GetBlockAccessLists = (r = Some EmptyBlockAccessLists)"

lemma answers_handle_request: "answers (fst (handle_request S hash_slow net req s)) req"
  by (cases req) (auto simp: handle_headers_def handle_bodies_def split: option.split prod.split)

text \<open>
  Every request is answered exactly once and in order, except the deprecated \<open>GetNodeData\<close>;
  an answer is of the kind of its request.
\<close>

theorem each_request_answered:
  "list_all2 answers (fst (start_eth_request_handler S hash_slow incoming s)) (map snd incoming)"
proof (induction incoming arbitrary: s)
  case (Cons e incoming)
  then show ?case
    using answers_handle_request [of S hash_slow "fst e" "snd e" s]
    by (cases e) (simp add: case_prod_beta)
qed simp


lemma walk_view_empty_iff:
  "walk_view V d step k current = [] \<longleftrightarrow> k = 0 \<or> current = None \<or> V (the current) = None"
  by (cases k; cases current) (auto split: option.split)

text \<open>
  C36. A headers request that misses the cache is proxied without its \<open>skip\<close>: \<open>HeadersRequest\<close> has
  no such field. The answer is then the same for every \<open>skip\<close>, although requests with different
  \<open>skip\<close> ask for different blocks.
\<close>

theorem proxied_without_skip:
  assumes "block_caches B"
    and "fst (resolve_headers_from_cache (cache_store B) req (run_ops B ops (cache_new B n))) = []"
  shows "fst (handle_headers (cache_store B) hash_slow net (req\<lparr>skip := k\<rparr>) (run_ops B ops (cache_new B n)))
       = fst (handle_headers (cache_store B) hash_slow net req (run_ops B ops (cache_new B n)))"
proof -
  have "fst (resolve_headers_from_cache (cache_store B) (req\<lparr>skip := k\<rparr>) (run_ops B ops (cache_new B n))) = []"
    using assms(2) unfolding block_caches.resolve_headers_history [OF assms(1)] Let_def walk_view_empty_iff
    by simp
  with assms(2) show ?thesis
    by (simp add: handle_headers_def case_prod_beta split: option.split)
qed

theorem proxied_without_skip_witness:
  "let net = \<lparr>fetch_headers = \<lambda>r. Some [\<lparr>number = 10, timestamp = 120\<rparr>, \<lparr>number = 11, timestamp = 132\<rparr>],
              fetch_bodies = \<lambda>_. None\<rparr> :: (unit, string) net;
       req = \<lparr>start_block = Number 10, limit = 1, skip = 0, dir = Rising\<rparr>;
       c = run_ops list_lrus [] (cache_new list_lrus 4)
   in fst (handle_headers (cache_store list_lrus) (\<lambda>_. 0) net (req\<lparr>skip := 4\<rparr>) c)
      = fst (handle_headers (cache_store list_lrus) (\<lambda>_. 0) net req c)"
  unfolding Let_def
  by (rule proxied_without_skip [OF list_blocks.block_caches_axioms])
    (simp add: resolve_headers_from_cache_def cache_eval)

text \<open>
  Header integrity: if blocks were cached under their own hash before, then after any requests
  and whatever peers answered, a header found by hash has that hash, and one found by number has
  that number.
\<close>

theorem headers_under_own_hash:
  assumes "block_caches B" "list_all (op_allowed (\<lambda>x h. hash_slow h = x) (\<lambda>_ _. True)) ops"
    and "c = snd (start_eth_request_handler (cache_store B) hash_slow incoming (run_ops B ops (cache_new B n)))"
  shows "(fst (get_header_by_hash B x c) = Some h \<longrightarrow> hash_slow h = x)
    \<and> (fst (get_header_by_number B m c) = Some h' \<longrightarrow> number h' = m)"
proof -
  have "honest_headers B hash_slow (run_ops B ops (cache_new B n))"
    using block_caches.coherent_history [OF assms(1,2), of n] block_caches.ok_history [OF assms(1)]
    by (simp add: honest_headers_def coherent_def)
  from block_caches.honest_handler [OF assms(1) this, of incoming]
  have "cache_ok B c" "headers_coherent B (\<lambda>x h. hash_slow h = x) c"
    by (simp_all add: assms(3) honest_headers_def)
  then show ?thesis
    by (simp add: block_caches.fst_gets [OF assms(1)] headers_coherent_def)
qed

theorem headers_under_own_hash_witness:
  "let net = \<lparr>fetch_headers = \<lambda>r. Some [\<lparr>number = 10, timestamp = 120\<rparr>], fetch_bodies = \<lambda>_. None\<rparr> :: (unit, string) net;
       c = snd (start_eth_request_handler (cache_store list_lrus) (\<lambda>h. ucast (timestamp h))
          [(net, GetBlockHeaders \<lparr>start_block = Number 10, limit = 1, skip = 0, dir = Rising\<rparr>)]
          (run_ops list_lrus [] (cache_new list_lrus 4)))
   in fst (get_header_by_hash list_lrus 120 c) = Some \<lparr>number = 10, timestamp = 120\<rparr>
    \<and> (ucast (timestamp \<lparr>number = 10, timestamp = 120\<rparr>) :: b256) = 120"
proof -
  let ?net = "\<lparr>fetch_headers = \<lambda>r. Some [\<lparr>number = 10, timestamp = 120\<rparr>], fetch_bodies = \<lambda>_. None\<rparr> :: (unit, string) net"
  let ?in = "[(?net, GetBlockHeaders \<lparr>start_block = Number 10, limit = 1, skip = 0, dir = Rising\<rparr>)]"
  let ?slow = "\<lambda>h :: header. ucast (timestamp h) :: b256"
  let ?c = "snd (start_eth_request_handler (cache_store list_lrus) ?slow ?in
      (run_ops list_lrus [] (cache_new list_lrus 4)))"
  have none: "list_all (op_allowed (\<lambda>x h. ?slow h = x) (\<lambda>_ _. True)) ([] :: (unit, string) cache_op list)"
    by simp
  have "fst (get_header_by_hash list_lrus 120 ?c) = Some h \<longrightarrow> ?slow h = 120" for h
    using headers_under_own_hash [OF list_blocks.block_caches_axioms none refl] by blast
  moreover have "fst (get_header_by_hash list_lrus 120 ?c) = Some \<lparr>number = 10, timestamp = 120\<rparr>"
    by (simp add: cache_eval handle_headers_def resolve_headers_from_cache_def)
  ultimately show ?thesis
    unfolding Let_def by blast
qed

end
