(* ===== verification/Block_Import.thy ===== *)
theory Block_Import
  imports Eth_Proxy
begin

text \<open>
  \<open>src/block_import.rs\<close>: \<open>CachingBlockImport\<close>, which the network manager calls with every block
  announcement. Its state is the shared cache and the sender of the rebroadcast channel; the
  channel is unbounded, so its content is a list, \<open>None\<close> once the receiver is dropped.
\<close>

record ('x, 'b) new_block =
  nb_header :: "'x header_scheme"
  nb_body :: 'b

record ('x, 'b) new_block_data =
  nbd_hash :: b256
  nbd_block :: "('x, 'b) new_block"

datatype ('x, 'b) new_block_event =
    BlockEvent b256 "('x, 'b) new_block"
  | HashesEvent "(b256 \<times> u64) list"

record ('hh, 'hn, 'nh, 'bh, 'x, 'b) caching_block_import =
  import_cache :: "('hh, 'hn, 'nh, 'bh) block_cache"
  rebroadcast_tx :: "('x, 'b) new_block_data list option"

definition block_import_new ::
    "('hh, 'hn, 'nh, 'bh) block_cache \<Rightarrow> ('hh, 'hn, 'nh, 'bh, 'x, 'b) caching_block_import" where
  "block_import_new c = \<lparr>import_cache = c, rebroadcast_tx = Some []\<rparr>"

definition on_new_block ::
    "('hh, 'hn, 'nh, 'bh, 'x, 'b) block_lrus \<Rightarrow> ('x, 'b) new_block_event
     \<Rightarrow> ('hh, 'hn, 'nh, 'bh, 'x, 'b) caching_block_import
     \<Rightarrow> ('hh, 'hn, 'nh, 'bh, 'x, 'b) caching_block_import" where
  "on_new_block B ev s =
     (case ev of
        BlockEvent hash block \<Rightarrow>
          s\<lparr>import_cache := cache_insert B hash (nb_header block) (nb_body block) (import_cache s),
            rebroadcast_tx := map_option (\<lambda>q. q @ [\<lparr>nbd_hash = hash, nbd_block = block\<rparr>]) (rebroadcast_tx s)\<rparr>
      | HashesEvent _ \<Rightarrow> s)"

fun import_all ::
    "('hh, 'hn, 'nh, 'bh, 'x, 'b) block_lrus \<Rightarrow> ('x, 'b) new_block_event list
     \<Rightarrow> ('hh, 'hn, 'nh, 'bh, 'x, 'b) caching_block_import
     \<Rightarrow> ('hh, 'hn, 'nh, 'bh, 'x, 'b) caching_block_import" where
  "import_all B [] s = s"
| "import_all B (ev # evs) s = import_all B evs (on_new_block B ev s)"

text \<open>The announced blocks, as they enter the channel and as operations on the cache.\<close>

fun announced :: "('x, 'b) new_block_event list \<Rightarrow> ('x, 'b) new_block_data list" where
  "announced [] = []"
| "announced (BlockEvent x b # evs) = \<lparr>nbd_hash = x, nbd_block = b\<rparr> # announced evs"
| "announced (HashesEvent _ # evs) = announced evs"

definition announce_op :: "('x, 'b) new_block_data \<Rightarrow> ('x, 'b) cache_op" where
  "announce_op d = Insert (nbd_hash d) (nb_header (nbd_block d)) (nb_body (nbd_block d))"

lemma announced_append: "announced (xs @ ys) = announced xs @ announced ys"
  by (induction xs rule: announced.induct) simp_all

lemma import_all_eq:
  "import_all B evs s =
     s\<lparr>import_cache := run_ops B (map announce_op (announced evs)) (import_cache s),
       rebroadcast_tx := map_option (\<lambda>q. q @ announced evs) (rebroadcast_tx s)\<rparr>"
proof (induction evs arbitrary: s)
  case Nil
  then show ?case by (simp add: option.map_id0 [unfolded id_def])
next
  case (Cons ev evs)
  then show ?case
    by (cases ev; cases "rebroadcast_tx s") (simp_all add: on_new_block_def announce_op_def)
qed

text \<open>
  Every announced block, and nothing else, is inserted in the cache and sent to the
  rebroadcast task, in the order of the announcements; announcements of bare hashes change nothing.
\<close>

theorem announced_blocks_cached_and_queued:
  "import_all B evs (block_import_new c) =
     \<lparr>import_cache = run_ops B (map announce_op (announced evs)) c, rebroadcast_tx = Some (announced evs)\<rparr>"
  by (simp add: import_all_eq block_import_new_def)

context block_caches
begin

lemma insert_history:
  assumes "c = run_ops B (ops @ [Insert x h b]) (cache_new B n)"
  shows "header_at_hash B c x = Some h" "header_at_number B c (number h) = Some h" "body_at B c x = Some b"
  using view_insert_same(1,2,4) [OF ok_history, of x h b ops n] unfolding assms run_ops_append by simp_all

lemma served_headers:
  assumes "c = run_ops B (ops @ [Insert x h b]) (cache_new B n)" "0 < lim"
    and "start \<in> {Hash x, Number (number h)}"
  shows "\<exists>hs. fst (handle_headers (cache_store B) hash_slow net
      \<lparr>start_block = start, limit = lim, skip = k, dir = d\<rparr> c) = Some (BlockHeaders (h # hs))"
proof -
  let ?req = "\<lparr>start_block = start, limit = lim, skip = k, dir = d\<rparr>"
  obtain m where "unat lim = Suc m" using assms(2) by (cases "unat lim") (auto simp: unsigned_eq_0_iff)
  then have "\<exists>hs. fst (resolve_headers_from_cache (cache_store B) ?req c) = h # hs"
    using assms(3) insert_history [OF assms(1)] unfolding assms(1) resolve_headers_history Let_def by auto
  then show ?thesis by (auto simp: handle_headers_def case_prod_beta)
qed

lemma served_body:
  assumes "c = run_ops B (ops @ [Insert x h b]) (cache_new B n)"
  shows "fst (handle_bodies (cache_store B) net [x] c) = Some (BlockBodies [b])"
proof -
  have "fst (get_body_by_hash B x c) = Some b"
    using insert_history(3) [OF assms] by (simp add: assms gets_history)
  then show ?thesis by (simp add: handle_bodies_def case_prod_beta)
qed

end

text \<open>
  C19. The sentry serves a block as soon as it is announced: right after the announcement, whatever
  happened before and whatever the network would answer, a request for headers from that block, by
  hash or by number, is answered from the cache starting with its header, and a request for its
  body with its body.
\<close>

theorem announced_block_served:
  assumes "block_caches B" "0 < lim" "start \<in> {Hash x, Number (number (nb_header blk))}"
    and "import_cache s = run_ops B ops (cache_new B n)"
  shows "let c = import_cache (on_new_block B (BlockEvent x blk) s) in
    (\<exists>hs. fst (handle_request (cache_store B) hash_slow net
        (GetBlockHeaders \<lparr>start_block = start, limit = lim, skip = k, dir = d\<rparr>) c)
      = Some (BlockHeaders (nb_header blk # hs)))
    \<and> fst (handle_request (cache_store B) hash_slow net (GetBlockBodies [x]) c)
      = Some (BlockBodies [nb_body blk])"
proof -
  have c: "import_cache (on_new_block B (BlockEvent x blk) s) =
      run_ops B (ops @ [Insert x (nb_header blk) (nb_body blk)]) (cache_new B n)"
    using assms(4) by (simp add: on_new_block_def run_ops_append)
  show ?thesis
    using block_caches.served_headers [OF assms(1) c assms(2,3)]
      block_caches.served_body [OF assms(1) c]
    unfolding Let_def handle_request.simps by blast
qed

theorem announced_block_served_witness:
  "fst (handle_request (cache_store list_lrus) (\<lambda>_. 0)
     \<lparr>fetch_headers = \<lambda>_. None, fetch_bodies = \<lambda>_. None\<rparr> (GetBlockBodies [7])
     (import_cache (on_new_block list_lrus
        (BlockEvent 7 \<lparr>nb_header = \<lparr>number = 5, timestamp = 60\<rparr>, nb_body = ''a''\<rparr>)
        (block_import_new (run_ops list_lrus [] (cache_new list_lrus 2))))))
   = Some (BlockBodies [''a''])"
proof -
  have s: "import_cache (block_import_new (run_ops list_lrus [] (cache_new list_lrus 2))) =
      run_ops list_lrus [] (cache_new list_lrus 2)"
    by (simp add: block_import_new_def)
  show ?thesis
    using announced_block_served [OF list_blocks.block_caches_axioms, of 1 "Hash 7" 7
        "\<lparr>nb_header = \<lparr>number = 5, timestamp = 60\<rparr>, nb_body = ''a''\<rparr>", OF _ _ s]
    unfolding Let_def new_block.simps by simp
qed

end
