(* ===== verification/Block_Persist.thy ===== *)
theory Block_Persist
  imports Block_Cache
begin

text \<open>
  \<open>src/block_cache.rs\<close>, the persistence part: \<open>save_to_file\<close>, \<open>load_from_file\<close> and
  \<open>read_block_entry\<close>, byte for byte. The RLP codec of headers and bodies (\<open>alloy_rlp\<close>) is the
  argument \<open>R\<close>. The environment of a save says whether the file can be created and which
  \<open>write_all\<close> call fails after how many bytes; a file to load is absent, cannot be opened, or has
  a content.
\<close>

record ('x, 'b) rlp =
  encode_header :: "'x header_scheme \<Rightarrow> byte list"
  decode_header :: "byte list \<Rightarrow> 'x header_scheme option"
  encode_body :: "'b \<Rightarrow> byte list"
  decode_body :: "byte list \<Rightarrow> 'b option"

text \<open>What RLP promises: decoding an encoding gives the value back.\<close>

definition rlp_roundtrip :: "('x, 'b) rlp \<Rightarrow> bool" where
  "rlp_roundtrip R \<longleftrightarrow> (\<forall>h. decode_header R (encode_header R h) = Some h)
     \<and> (\<forall>b. decode_body R (encode_body R b) = Some b)"

datatype file_error = CreateFailed | OpenFailed | WriteFailed | UnexpectedEof | RlpError

datatype disk_file = Absent | Unopenable | Content "byte list"

record save_env =
  can_create :: bool
  write_fault :: "nat \<Rightarrow> nat option"

record writer =
  calls :: nat
  written :: "byte list"

section \<open>Saving\<close>

definition write_all :: "(nat \<Rightarrow> nat option) \<Rightarrow> byte list \<Rightarrow> (writer, file_error, unit) io" where
  "write_all fault buf = (\<lambda>w.
     case fault (calls w) of
       None \<Rightarrow> (Inr (), w\<lparr>calls := Suc (calls w), written := written w @ buf\<rparr>)
     | Some p \<Rightarrow> (Inl WriteFailed, w\<lparr>calls := Suc (calls w), written := written w @ take p buf\<rparr>))"

fun save_entries ::
    "('x, 'b) rlp \<Rightarrow> (nat \<Rightarrow> nat option) \<Rightarrow> ('x, 'b) cached_block list \<Rightarrow> (writer, file_error, unit) io"
  where
  "save_entries R fault [] = io_return ()"
| "save_entries R fault (block # blocks) =
     io_bind (write_all fault (b256_bytes (cb_hash block))) (\<lambda>_.
     let header_rlp = encode_header R (cb_header block) in
     io_bind (write_all fault (u32_to_le_bytes (of_nat (length header_rlp)))) (\<lambda>_.
     io_bind (write_all fault header_rlp) (\<lambda>_.
     let body_rlp = encode_body R (cb_body block) in
     io_bind (write_all fault (u32_to_le_bytes (of_nat (length body_rlp)))) (\<lambda>_.
     io_bind (write_all fault body_rlp) (\<lambda>_.
     save_entries R fault blocks)))))"

definition save_to_file ::
    "('hh, 'hn, 'nh, 'bh, 'x, 'b) block_lrus \<Rightarrow> ('x, 'b) rlp \<Rightarrow> save_env
     \<Rightarrow> ('hh, 'hn, 'nh, 'bh) block_cache \<Rightarrow> disk_file \<Rightarrow> (file_error + unit) \<times> disk_file" where
  "save_to_file B R env c old =
     (let blocks = drain_blocks B c; count = length blocks
      in if \<not> can_create env then (Inl CreateFailed, old)
         else case io_bind (write_all (write_fault env) (u32_to_le_bytes (of_nat count)))
                (\<lambda>_. save_entries R (write_fault env) blocks) \<lparr>calls = 0, written = []\<rparr>
              of (res, w) \<Rightarrow> (res, Content (written w)))"

section \<open>Loading\<close>

definition read_exact :: "nat \<Rightarrow> (byte list, file_error, byte list) io" where
  "read_exact n = (\<lambda>bs. if n \<le> length bs then (Inr (take n bs), drop n bs) else (Inl UnexpectedEof, []))"

definition decoded :: "'a option \<Rightarrow> (byte list, file_error, 'a) io" where
  "decoded r = (case r of None \<Rightarrow> io_fail RlpError | Some x \<Rightarrow> io_return x)"

definition read_block_entry :: "('x, 'b) rlp \<Rightarrow> (byte list, file_error, ('x, 'b) cached_block) io" where
  "read_block_entry R =
     io_bind (read_exact 32) (\<lambda>hash_buf.
     io_bind (read_exact 4) (\<lambda>len_buf.
     io_bind (read_exact (unat (u32_from_le_bytes len_buf))) (\<lambda>header_rlp.
     io_bind (decoded (decode_header R header_rlp)) (\<lambda>hdr.
     io_bind (read_exact 4) (\<lambda>len_buf'.
     io_bind (read_exact (unat (u32_from_le_bytes len_buf'))) (\<lambda>body_rlp.
     io_bind (decoded (decode_body R body_rlp)) (\<lambda>body.
     io_return \<lparr>cb_hash = b256_of_bytes hash_buf, cb_header = hdr, cb_body = body\<rparr>)))))))"

fun load_entries ::
    "('hh, 'hn, 'nh, 'bh, 'x, 'b) block_lrus \<Rightarrow> ('x, 'b) rlp \<Rightarrow> nat \<Rightarrow> byte list
     \<Rightarrow> ('hh, 'hn, 'nh, 'bh) block_cache \<Rightarrow> ('hh, 'hn, 'nh, 'bh) block_cache" where
  "load_entries B R 0 bs c = c"
| "load_entries B R (Suc k) bs c =
     (case read_block_entry R bs of
        (Inr block, bs') \<Rightarrow>
          load_entries B R k bs' (cache_insert B (cb_hash block) (cb_header block) (cb_body block) c)
      | (Inl e, bs') \<Rightarrow> c)"

definition load_from_file ::
    "('hh, 'hn, 'nh, 'bh, 'x, 'b) block_lrus \<Rightarrow> ('x, 'b) rlp \<Rightarrow> disk_file
     \<Rightarrow> ('hh, 'hn, 'nh, 'bh) block_cache \<Rightarrow> (file_error + unit) \<times> ('hh, 'hn, 'nh, 'bh) block_cache" where
  "load_from_file B R f c =
     (case f of
        Absent \<Rightarrow> (Inr (), c)
      | Unopenable \<Rightarrow> (Inl OpenFailed, c)
      | Content bs \<Rightarrow>
          (case read_exact 4 bs of
             (Inl e, _) \<Rightarrow> (Inl e, c)
           | (Inr count_buf, rest) \<Rightarrow>
               let count = unat (u32_from_le_bytes count_buf);
                   load_count = min count (capacity c)
               in (Inr (), load_entries B R load_count rest c)))"

section \<open>The bytes of a saved cache\<close>

definition entry_bytes :: "('x, 'b) rlp \<Rightarrow> ('x, 'b) cached_block \<Rightarrow> byte list" where
  "entry_bytes R b =
     b256_bytes (cb_hash b)
     @ u32_to_le_bytes (of_nat (length (encode_header R (cb_header b)))) @ encode_header R (cb_header b)
     @ u32_to_le_bytes (of_nat (length (encode_body R (cb_body b)))) @ encode_body R (cb_body b)"

definition cache_bytes :: "('x, 'b) rlp \<Rightarrow> ('x, 'b) cached_block list \<Rightarrow> byte list" where
  "cache_bytes R bs = u32_to_le_bytes (of_nat (length bs)) @ concat (map (entry_bytes R) bs)"

text \<open>
  \<open>writes fault m out\<close>: the step \<open>m\<close> appends \<open>out\<close>, or fails having appended a prefix of it, and it
  does not fail when no write does.
\<close>

definition writes :: "(nat \<Rightarrow> nat option) \<Rightarrow> (writer, file_error, 'a) io \<Rightarrow> byte list \<Rightarrow> bool" where
  "writes fault m out \<longleftrightarrow> (\<forall>w.
     (\<forall>x w'. m w = (Inr x, w') \<longrightarrow> written w' = written w @ out)
   \<and> (\<forall>e w'. m w = (Inl e, w') \<longrightarrow> (\<exists>k. written w' = written w @ take k out)
        \<and> \<not> (\<forall>i. fault i = None)))"

lemma writes_return: "writes fault (io_return x) []"
  by (simp add: writes_def io_return_def)

lemma writes_write_all: "writes fault (write_all fault buf) buf"
  by (auto simp: writes_def write_all_def split: option.splits)

lemma writes_bind:
  assumes "writes fault m a" "\<And>x. writes fault (f x) b"
  shows "writes fault (io_bind m f) (a @ b)"
  unfolding writes_def
proof (intro allI conjI impI)
  fix w x w' assume ok: "io_bind m f w = (Inr x, w')"
  then obtain y v where "m w = (Inr y, v)" "f y v = (Inr x, w')"
    by (auto simp: io_bind_def split: prod.splits sum.splits)
  with assms show "written w' = written w @ a @ b" by (fastforce simp: writes_def)
next
  fix w e w' assume err: "io_bind m f w = (Inl e, w')"
  show "\<exists>k. written w' = written w @ take k (a @ b)"
  proof (cases "fst (m w)")
    case (Inl e')
    then have "m w = (Inl e, w')" using err by (cases "m w") (simp add: io_bind_def)
    then obtain k where "written w' = written w @ take k a"
      using assms(1) by (fastforce simp: writes_def)
    then have "written w' = written w @ take (min k (length a)) (a @ b)"
      by (simp add: min_def)
    then show ?thesis by blast
  next
    case (Inr y)
    then obtain v where v: "m w = (Inr y, v)" by (cases "m w") simp
    then have "f y v = (Inl e, w')" using err by (simp add: io_bind_def)
    then obtain k where "written w' = written v @ take k b"
      using assms(2) by (fastforce simp: writes_def)
    moreover have "written v = written w @ a" using assms(1) v by (fastforce simp: writes_def)
    ultimately have "written w' = written w @ take (length a + k) (a @ b)" by simp
    then show ?thesis by blast
  qed
next
  fix w e w' assume err: "io_bind m f w = (Inl e, w')"
  then have "m w = (Inl e, w') \<or> (\<exists>y v. m w = (Inr y, v) \<and> f y v = (Inl e, w'))"
    by (auto simp: io_bind_def split: prod.splits sum.splits)
  with assms show "\<not> (\<forall>i. fault i = None)" unfolding writes_def by meson
qed

lemma writes_save_entries: "writes fault (save_entries R fault bs) (concat (map (entry_bytes R) bs))"
  by (induction bs)
    (auto simp: Let_def entry_bytes_def intro!: writes_return writes_bind writes_write_all)

lemma save_to_file_cases:
  assumes "can_create env"
  obtains "save_to_file B R env c old = (Inr (), Content (cache_bytes R (drain_blocks B c)))"
  | e k where "save_to_file B R env c old = (Inl e, Content (take k (cache_bytes R (drain_blocks B c))))"
    "\<not> (\<forall>i. write_fault env i = None)"
proof -
  let ?m = "io_bind (write_all (write_fault env) (u32_to_le_bytes (of_nat (length (drain_blocks B c)))))
    (\<lambda>_. save_entries R (write_fault env) (drain_blocks B c))"
  have w: "writes (write_fault env) ?m (cache_bytes R (drain_blocks B c))"
    unfolding cache_bytes_def by (intro writes_bind writes_write_all writes_save_entries)
  obtain res w' where res: "?m \<lparr>calls = 0, written = []\<rparr> = (res, w')" by fastforce
  have "save_to_file B R env c old = (res, Content (written w'))"
    using assms res by (simp add: save_to_file_def Let_def)
  with w res that show ?thesis
    by (cases res) (fastforce simp: writes_def)+
qed

section \<open>Reading back a prefix of the bytes\<close>

definition fits :: "('x, 'b) rlp \<Rightarrow> ('x, 'b) cached_block \<Rightarrow> bool" where
  "fits R b \<longleftrightarrow> length (encode_header R (cb_header b)) < 2 ^ 32
     \<and> length (encode_body R (cb_body b)) < 2 ^ 32"

lemma read_chunk:
  assumes "length x = n"
  shows "io_bind (read_exact n) f (take m (x @ y)) =
    (if n \<le> m then f x (take (m - n) y) else (Inl UnexpectedEof, []))"
  using assms by (auto simp: io_bind_def read_exact_def)

lemma decoded_Some: "io_bind (decoded (Some v)) f bs = f v bs"
  by (simp add: decoded_def io_bind_def io_return_def)

lemma unat_u32_length: "n < 2 ^ 32 \<Longrightarrow> unat (u32_from_le_bytes (u32_to_le_bytes (of_nat n))) = n"
  by (simp add: unat_of_nat take_bit_nat_eq_self)

text \<open>
  Reading an entry from any prefix of the bytes: the entry, when all of it is there, and the end of
  the file otherwise, never a wrong block.
\<close>

lemma read_block_entry_take:
  assumes "rlp_roundtrip R" "fits R b"
  shows "read_block_entry R (take m (entry_bytes R b @ rest)) =
    (if length (entry_bytes R b) \<le> m then (Inr b, take (m - length (entry_bytes R b)) rest)
     else (Inl UnexpectedEof, []))"
proof -
  let ?h = "encode_header R (cb_header b)" and ?d = "encode_body R (cb_body b)"
  have len: "unat (u32_from_le_bytes (u32_to_le_bytes (of_nat (length ?h)))) = length ?h"
    "unat (u32_from_le_bytes (u32_to_le_bytes (of_nat (length ?d)))) = length ?d"
    using assms(2) by (simp_all only: fits_def unat_u32_length)
  have dec: "decode_header R ?h = Some (cb_header b)" "decode_body R ?d = Some (cb_body b)"
    using assms(1) by (simp_all add: rlp_roundtrip_def)
  show ?thesis
    unfolding read_block_entry_def entry_bytes_def append_assoc
    by (simp add: read_chunk len dec decoded_Some io_return_def del: u32_from_to_le_bytes take_append)
      (auto simp: add.assoc)
qed

fun complete_entries :: "('x, 'b) rlp \<Rightarrow> nat \<Rightarrow> ('x, 'b) cached_block list \<Rightarrow> nat" where
  "complete_entries R m [] = 0"
| "complete_entries R m (b # bs) =
     (if length (entry_bytes R b) \<le> m then Suc (complete_entries R (m - length (entry_bytes R b)) bs)
      else 0)"

lemma complete_entries_le: "complete_entries R m bs \<le> length bs"
  by (induction bs arbitrary: m) auto

lemma complete_entries_all:
  "length (concat (map (entry_bytes R) bs)) \<le> m \<Longrightarrow> complete_entries R m bs = length bs"
  by (induction bs arbitrary: m) auto

definition insert_op :: "('x, 'b) cached_block \<Rightarrow> ('x, 'b) cache_op" where
  "insert_op b = Insert (cb_hash b) (cb_header b) (cb_body b)"

lemma apply_insert_op [simp]:
  "apply_op B (insert_op b) c = cache_insert B (cb_hash b) (cb_header b) (cb_body b) c"
  by (simp add: insert_op_def)

lemma read_block_entry_empty: "fst (read_block_entry R []) = Inl UnexpectedEof"
  by (simp add: read_block_entry_def io_bind_def read_exact_def)

lemma load_entries_take:
  assumes "rlp_roundtrip R" "\<forall>b \<in> set bs. fits R b"
  shows "load_entries B R k (take m (concat (map (entry_bytes R) bs))) c =
    run_ops B (map insert_op (take (min k (complete_entries R m bs)) bs)) c"
  using assms(2)
proof (induction bs arbitrary: k m c)
  case Nil
  obtain s where "read_block_entry R [] = (Inl UnexpectedEof, s)"
    using read_block_entry_empty [of R] by (metis prod.collapse)
  then show ?case by (cases k) simp_all
next
  case (Cons b bs)
  then show ?case
    by (cases k) (simp_all add: read_block_entry_take [OF assms(1)] del: take_append)
qed

text \<open>Whatever the bytes are, loading inserts at most \<open>capacity\<close> blocks.\<close>

lemma load_entries_ops:
  "\<exists>bs. length bs \<le> k \<and> load_entries B R k data c = run_ops B (map insert_op bs) c"
proof (induction k arbitrary: data c)
  case 0
  then show ?case by simp
next
  case (Suc k)
  show ?case
  proof (cases "read_block_entry R data")
    case (Pair r rest)
    show ?thesis
    proof (cases r)
      case (Inl e)
      with Pair show ?thesis by (intro exI [of _ "[]"]) simp
    next
      case (Inr b)
      obtain bs where "length bs \<le> k"
        "load_entries B R k rest (cache_insert B (cb_hash b) (cb_header b) (cb_body b) c) =
           run_ops B (map insert_op bs) (cache_insert B (cb_hash b) (cb_header b) (cb_body b) c)"
        using Suc.IH by blast
      with Pair Inr show ?thesis
        by (intro exI [of _ "b # bs"]) simp
    qed
  qed
qed

section \<open>Restoring a drained cache\<close>

abbreviation (input) block_number :: "('x, 'b) cached_block \<Rightarrow> u64" where
  "block_number b \<equiv> number (cb_header b)"

text \<open>Blocks that a single cache can hold: numbers strictly increase, a hash has one body.\<close>

definition storable :: "('x, 'b) cached_block list \<Rightarrow> bool" where
  "storable bs \<longleftrightarrow> sorted_wrt (<) (map block_number bs)
     \<and> (\<forall>a \<in> set bs. \<forall>b \<in> set bs. cb_hash a = cb_hash b \<longrightarrow> cb_body a = cb_body b)"

lemma storable_take: "storable bs \<Longrightarrow> storable (take k bs)"
  by (auto simp: storable_def take_map [symmetric] sorted_wrt_take dest!: in_set_takeD)

lemma storable_sorted: "storable bs \<Longrightarrow> sorted_wrt (<) (map block_number bs)"
  by (simp only: storable_def)

lemma storable_body:
  "storable bs \<Longrightarrow> a \<in> set bs \<Longrightarrow> b \<in> set bs \<Longrightarrow> cb_hash a = cb_hash b \<Longrightarrow> cb_body a = cb_body b"
  unfolding storable_def by blast

lemma storable_fresh: "storable (xs @ [b]) \<Longrightarrow> block_number b \<notin> block_number ` set xs"
  by (drule storable_sorted) (auto simp: sorted_wrt_append)

lemma map_filter_map_id:
  "(\<And>x. x \<in> set xs \<Longrightarrow> f (g x) = Some x) \<Longrightarrow> List.map_filter f (map g xs) = xs"
  by (induction xs) auto

context block_caches
begin

lemma storable_drain:
  assumes "cache_ok B c" "headers_coherent B P c"
  shows "storable (drain_blocks B c)"
  using drain_blocks_sorted [OF assms] in_drain_blocks_iff [OF assms(1)]
  unfolding storable_def by (metis option.inject)

lemma fresh_push:
  assumes "0 < n" "length xs < n" "storable (xs @ [b])"
    and c: "c = run_ops B (map insert_op xs) (cache_new B n)"
    and nh: "lru_iter (nh_lru B) (hash_by_number c) = rev (map (\<lambda>b. (block_number b, cb_hash b)) xs)"
    and hn: "lru_iter (hn_lru B) (headers_by_number c) = rev (map (\<lambda>b. (block_number b, cb_header b)) xs)"
  shows "lru_iter (nh_lru B) (hash_by_number (apply_op B (insert_op b) c)) =
      rev (map (\<lambda>b. (block_number b, cb_hash b)) (xs @ [b]))"
    and "lru_iter (hn_lru B) (headers_by_number (apply_op B (insert_op b) c)) =
      rev (map (\<lambda>b. (block_number b, cb_header b)) (xs @ [b]))"
proof -
  have ok: "lru_ok (nh_lru B) (hash_by_number c)" "lru_ok (hn_lru B) (headers_by_number c)"
    using ok_history [of "map insert_op xs" n] by (simp_all add: c cache_ok_def)
  have cap: "lru_cap (nh_lru B) (hash_by_number c) = n" "lru_cap (hn_lru B) (headers_by_number c) = n"
    using caps_history [of n "map insert_op xs"] assms(1)
    by (simp_all add: c caps_are_def effective_capacity_def)
  have fresh: "block_number b \<notin> block_number ` set xs"
    by (rule storable_fresh [OF assms(3)])
  have absent: "drop_key (block_number b) (rev (map (\<lambda>b. (block_number b, g b)) xs)) =
      rev (map (\<lambda>b. (block_number b, g b)) xs)" for g :: "('x, 'b) cached_block \<Rightarrow> 'v"
    by (rule drop_key_absent) (use fresh in auto)
  have room: "length (lru_iter (nh_lru B) (hash_by_number c)) < lru_cap (nh_lru B) (hash_by_number c)"
    "length (lru_iter (hn_lru B) (headers_by_number c)) < lru_cap (hn_lru B) (headers_by_number c)"
    unfolding nh hn cap using assms(2) by simp_all
  show "lru_iter (nh_lru B) (hash_by_number (apply_op B (insert_op b) c)) =
      rev (map (\<lambda>b. (block_number b, cb_hash b)) (xs @ [b]))"
    using nh.iter_push_room [OF ok(1) disjI2 [OF room(1)], of "block_number b" "cb_hash b"]
    unfolding nh absent by (simp add: cache_insert_def Let_def)
  show "lru_iter (hn_lru B) (headers_by_number (apply_op B (insert_op b) c)) =
      rev (map (\<lambda>b. (block_number b, cb_header b)) (xs @ [b]))"
    using hn.iter_push_room [OF ok(2) disjI2 [OF room(2)], of "block_number b" "cb_header b"]
    unfolding hn absent by (simp add: cache_insert_def Let_def)
qed

lemma number_caches_restored:
  assumes "0 < n" "length bs \<le> n" "storable bs"
  shows "let c = run_ops B (map insert_op bs) (cache_new B n) in
      lru_iter (nh_lru B) (hash_by_number c) = rev (map (\<lambda>b. (block_number b, cb_hash b)) bs)
    \<and> lru_iter (hn_lru B) (headers_by_number c) = rev (map (\<lambda>b. (block_number b, cb_header b)) bs)"
  using assms(2,3)
proof (induction bs rule: rev_induct)
  case Nil
  then show ?case
    using assms(1) by (simp add: Let_def cache_new_def nh.iter_new hn.iter_new)
next
  case (snoc b xs)
  have "storable xs" using storable_take [OF snoc.prems(2), of "length xs"] by simp
  moreover have "length xs < n" using snoc.prems(1) by simp
  ultimately show ?case
    using snoc.IH fresh_push [OF assms(1) _ snoc.prems(2) refl]
    by (simp only: Let_def map_append list.map run_ops_append run_ops.simps)
qed

lemma bodies_restored:
  assumes "0 < n" "length bs \<le> n" "storable bs"
  shows "let c = run_ops B (map insert_op bs) (cache_new B n) in
      length (lru_iter (bh_lru B) (bodies_by_hash c)) \<le> length bs
    \<and> (\<forall>b \<in> set bs. body_at B c (cb_hash b) = Some (cb_body b))"
  using assms(2,3)
proof (induction bs rule: rev_induct)
  case Nil
  then show ?case
    using assms(1) by (simp add: Let_def cache_new_def bh.iter_new)
next
  case (snoc b xs)
  let ?c = "run_ops B (map insert_op xs) (cache_new B n)"
  have st: "storable xs" using storable_take [OF snoc.prems(2), of "length xs"] by simp
  have len: "length xs < n" using snoc.prems(1) by simp
  have IH: "length (lru_iter (bh_lru B) (bodies_by_hash ?c)) \<le> length xs"
    "\<forall>b \<in> set xs. body_at B ?c (cb_hash b) = Some (cb_body b)"
    using snoc.IH st len by (simp_all add: Let_def)
  have ok: "lru_ok (bh_lru B) (bodies_by_hash ?c)"
    using ok_history [of "map insert_op xs" n] by (simp add: cache_ok_def)
  have room: "length (lru_iter (bh_lru B) (bodies_by_hash ?c)) < lru_cap (bh_lru B) (bodies_by_hash ?c)"
    using IH(1) len caps_history [of n "map insert_op xs"] assms(1)
    by (simp add: caps_are_def effective_capacity_def)
  let ?push = "lru_push (bh_lru B) (cb_hash b) (cb_body b) (bodies_by_hash ?c)"
  have iter: "lru_iter (bh_lru B) ?push =
      (cb_hash b, cb_body b) # drop_key (cb_hash b) (lru_iter (bh_lru B) (bodies_by_hash ?c))"
    by (rule bh.iter_push_room [OF ok disjI2 [OF room]])
  have view: "lru_view (bh_lru B) ?push = (lru_view (bh_lru B) (bodies_by_hash ?c))(cb_hash b \<mapsto> cb_body b)"
    by (rule bh.view_push_room [OF ok disjI2 [OF room]])
  have "lru_view (bh_lru B) ?push (cb_hash a) = Some (cb_body a)" if a: "a \<in> set (xs @ [b])" for a
  proof (cases "cb_hash a = cb_hash b")
    case True
    with storable_body [OF snoc.prems(2) a, of b] show ?thesis by (simp add: view)
  next
    case False
    with a IH(2) show ?thesis by (auto simp: view body_at_def)
  qed
  moreover have "length (lru_iter (bh_lru B) ?push) \<le> length (xs @ [b])"
    using IH(1) length_drop_key_le [of "cb_hash b" "lru_iter (bh_lru B) (bodies_by_hash ?c)"]
    by (simp add: iter)
  moreover have "bodies_by_hash (run_ops B (map insert_op (xs @ [b])) (cache_new B n)) = ?push"
    by (simp add: run_ops_append cache_insert_def Let_def)
  ultimately show ?case
    unfolding Let_def body_at_def by simp
qed

lemma drain_restored:
  assumes "0 < n" "length bs \<le> n" "storable bs"
  shows "drain_blocks B (run_ops B (map insert_op bs) (cache_new B n)) = bs"
proof -
  let ?c = "run_ops B (map insert_op bs) (cache_new B n)"
  let ?pair = "\<lambda>b :: ('x, 'b) cached_block. (block_number b, cb_hash b)"
  have iters: "lru_iter (nh_lru B) (hash_by_number ?c) = rev (map ?pair bs)"
    "lru_iter (hn_lru B) (headers_by_number ?c) = rev (map (\<lambda>b. (block_number b, cb_header b)) bs)"
    using number_caches_restored [OF assms] by (simp_all add: Let_def)
  have body: "\<forall>b \<in> set bs. body_at B ?c (cb_hash b) = Some (cb_body b)"
    using bodies_restored [OF assms] by (simp add: Let_def)
  have dist: "distinct (map block_number bs)"
    using storable_sorted [OF assms(3)] by (simp add: strict_sorted_iff)
  have hdr: "header_at_number B ?c (block_number b) = Some (cb_header b)" if "b \<in> set bs" for b
  proof -
    have "distinct (map fst (rev (map (\<lambda>b. (block_number b, cb_header b)) bs)))"
      using dist by (simp add: rev_map [symmetric] comp_def)
    then show ?thesis
      using that by (simp add: header_at_number_def lru_view_def iters)
  qed
  have "drain_entry B ?c (?pair b) = Some b" if "b \<in> set bs" for b
    using that body hdr by (simp add: drain_entry_Some_iff [OF ok_history])
  then have "List.map_filter (drain_entry B ?c) (map ?pair (rev bs)) = rev bs"
    by (intro map_filter_map_id) simp
  then have "drain_blocks B ?c = sort_key block_number (rev bs)"
    unfolding drain_blocks_def iters rev_map by simp
  also have "\<dots> = bs"
    by (rule sort_key_distinct_unique)
      (use dist storable_sorted [OF assms(3)] in
        \<open>simp_all add: strict_sorted_iff rev_map [symmetric]\<close>)
  finally show ?thesis .
qed

end

section \<open>Loading what a save left\<close>

lemma load_take:
  assumes "rlp_roundtrip R" "\<forall>b \<in> set bs. fits R b" "length bs < 2 ^ 32"
  shows "load_from_file B R (Content (take m (cache_bytes R bs))) c =
    (if 4 \<le> m
     then (Inr (), run_ops B (map insert_op (take (min (min (length bs) (capacity c))
            (complete_entries R (m - 4) bs)) bs)) c)
     else (Inl UnexpectedEof, c))"
proof -
  let ?es = "concat (map (entry_bytes R) bs)"
  have "read_exact 4 (take m (u32_to_le_bytes (of_nat (length bs)) @ ?es)) =
      (if 4 \<le> m then (Inr (u32_to_le_bytes (of_nat (length bs))), take (m - 4) ?es)
       else (Inl UnexpectedEof, []))"
    by (auto simp: read_exact_def)
  then show ?thesis
    using assms(3)
    by (simp add: load_from_file_def cache_bytes_def Let_def unat_u32_length
        load_entries_take [OF assms(1,2)] del: take_append u32_from_to_le_bytes)
qed

lemma capacity_cache_new [simp]: "capacity (cache_new B n) = n"
  by (simp add: cache_new_def Let_def)

lemma load_take_drain:
  assumes "block_caches B" "rlp_roundtrip R" "0 < n" "n < 2 ^ 32"
    and c: "c = run_ops B ops (cache_new B n)"
    and "\<forall>k \<in> set (drain_blocks B c). fits R k"
  shows "load_from_file B R (Content (take m (cache_bytes R (drain_blocks B c)))) (cache_new B n) =
      (if 4 \<le> m then Inr () else Inl UnexpectedEof,
       snd (load_from_file B R (Content (take m (cache_bytes R (drain_blocks B c)))) (cache_new B n)))"
    and "drain_blocks B (snd (load_from_file B R (Content (take m (cache_bytes R (drain_blocks B c))))
           (cache_new B n))) =
      (if 4 \<le> m then take (complete_entries R (m - 4) (drain_blocks B c)) (drain_blocks B c) else [])"
proof -
  let ?bs = "drain_blocks B c"
  have len: "length ?bs \<le> n"
    using block_caches.drain_history(2) [OF assms(1), of ops n]
      block_caches.caps_history [OF assms(1), of n ops] assms(3)
    by (simp add: c caps_are_def effective_capacity_def)
  have st: "storable ?bs"
    unfolding c
    by (rule block_caches.storable_drain [OF assms(1) block_caches.ok_history [OF assms(1)]
          block_caches.headers_history [OF assms(1)]])
  have fit: "length ?bs < 2 ^ 32" using len assms(4) by simp
  note load = load_take [OF assms(2,6) fit, of B m "cache_new B n"]
  have j: "min (min (length ?bs) n) (complete_entries R (m - 4) ?bs) = complete_entries R (m - 4) ?bs"
    using len complete_entries_le [of R "m - 4" ?bs] by simp
  have drain: "drain_blocks B (run_ops B (map insert_op (take j ?bs)) (cache_new B n)) = take j ?bs" for j
    by (rule block_caches.drain_restored [OF assms(1,3) _ storable_take [OF st]]) (use len in simp)
  have "drain_blocks B (cache_new B n) = []"
    using drain [of 0] by simp
  then show "drain_blocks B (snd (load_from_file B R (Content (take m (cache_bytes R ?bs))) (cache_new B n))) =
      (if 4 \<le> m then take (complete_entries R (m - 4) ?bs) ?bs else [])"
    unfolding load capacity_cache_new j by (simp add: drain)
  show "load_from_file B R (Content (take m (cache_bytes R ?bs))) (cache_new B n) =
      (if 4 \<le> m then Inr () else Inl UnexpectedEof,
       snd (load_from_file B R (Content (take m (cache_bytes R ?bs))) (cache_new B n)))"
    unfolding load by simp
qed

text \<open>A codec that keeps the law, for the concrete runs.\<close>

definition plain_rlp :: "(unit, byte list) rlp" where
  "plain_rlp = \<lparr>
     encode_header = (\<lambda>h. le_bytes 8 (unat (number h)) @ le_bytes 8 (unat (timestamp h))),
     decode_header = (\<lambda>bs. if length bs = 16
        then Some \<lparr>number = of_nat (le_nat (take 8 bs)), timestamp = of_nat (le_nat (drop 8 bs))\<rparr>
        else None),
     encode_body = (\<lambda>b. b),
     decode_body = Some\<rparr>"

lemma plain_rlp_roundtrip: "rlp_roundtrip plain_rlp"
proof -
  have "(of_nat (le_nat (le_bytes 8 (unat w))) :: u64) = w" for w :: u64
  proof -
    have "unat w < 256 ^ 8" by (rule order.strict_trans2 [OF unat_less]) simp
    then show ?thesis by (simp add: le_nat_le_bytes)
  qed
  then show ?thesis by (simp add: rlp_roundtrip_def plain_rlp_def)
qed

section \<open>Properties of the persistent cache\<close>

text \<open>
  Round trip: when every file operation succeeds, the file that \<open>save_to_file\<close> writes makes
  \<open>load_from_file\<close> rebuild, in a new cache of the same capacity, exactly the blocks that the old
  cache could save, whatever history the old cache had.
\<close>

theorem save_load_roundtrip:
  assumes "block_caches B" "rlp_roundtrip R" "0 < n" "n < 2 ^ 32"
    and "\<forall>k \<in> set (drain_blocks B (run_ops B ops (cache_new B n))). fits R k"
    and "can_create env" "\<forall>i. write_fault env i = None"
  shows "let c = run_ops B ops (cache_new B n);
             (res, f) = save_to_file B R env c old;
             (res', c') = load_from_file B R f (cache_new B n)
         in res = Inr () \<and> res' = Inr () \<and> drain_blocks B c' = drain_blocks B c"
proof -
  let ?c = "run_ops B ops (cache_new B n)"
  let ?bs = "drain_blocks B ?c"
  let ?m = "length (cache_bytes R ?bs)"
  have save: "save_to_file B R env ?c old = (Inr (), Content (take ?m (cache_bytes R ?bs)))"
    by (rule save_to_file_cases [OF assms(6), of B R ?c old]) (use assms(7) in simp_all)
  have all: "4 \<le> ?m" "complete_entries R (?m - 4) ?bs = length ?bs"
    by (simp_all add: cache_bytes_def complete_entries_all)
  show ?thesis
    using load_take_drain [OF assms(1-4) refl assms(5), of ?m] all
    unfolding Let_def save by (simp add: case_prod_beta prod_eq_iff)
qed

theorem save_load_roundtrip_witness:
  "let c = run_ops list_lrus
        [Insert 8 \<lparr>number = 6, timestamp = 72\<rparr> [1, 2], Insert 7 \<lparr>number = 5, timestamp = 60\<rparr> [3],
         HeaderByNumber 6] (cache_new list_lrus 2);
       (res, f) = save_to_file list_lrus plain_rlp \<lparr>can_create = True, write_fault = \<lambda>_. None\<rparr> c Absent;
       (res', c') = load_from_file list_lrus plain_rlp f (cache_new list_lrus 2)
   in res = Inr () \<and> res' = Inr () \<and> drain_blocks list_lrus c' = drain_blocks list_lrus c"
proof (rule save_load_roundtrip [OF list_blocks.block_caches_axioms plain_rlp_roundtrip])
  show "\<forall>k \<in> set (drain_blocks list_lrus (run_ops list_lrus
        [Insert 8 \<lparr>number = 6, timestamp = 72\<rparr> [1, 2], Insert 7 \<lparr>number = 5, timestamp = 60\<rparr> [3],
         HeaderByNumber 6] (cache_new list_lrus 2))). fits plain_rlp k"
    by (simp add: cache_eval fits_def plain_rlp_def)
qed simp_all



text \<open>
  C27. Loading any file at all, corrupt or hostile bytes included, ends with a cache that results
  from at most \<open>capacity\<close> ordinary insertions, so every invariant of the cache survives it; on an
  error the cache is unchanged.
\<close>

theorem load_any_file:
  "let (res, c') = load_from_file B R f c
   in (\<exists>bs. length bs \<le> capacity c \<and> c' = run_ops B (map insert_op bs) c)
    \<and> (\<forall>e. res = Inl e \<longrightarrow> c' = c)"
proof -
  have "\<exists>bs. length bs \<le> capacity c \<and>
      load_entries B R (min k (capacity c)) data c = run_ops B (map insert_op bs) c" for k data
    using load_entries_ops [of "min k (capacity c)" B R data c] by (meson le_trans min.cobounded2)
  then show ?thesis
    by (auto simp: load_from_file_def Let_def split: disk_file.split prod.split sum.split
        intro: exI [of _ "[]"])
qed

theorem load_any_file_witness:
  "load_from_file list_lrus plain_rlp (Content [1, 0, 0]) (cache_new list_lrus 2) =
     (Inl UnexpectedEof, cache_new list_lrus 2)"
proof -
  have "fst (load_from_file list_lrus plain_rlp (Content [1, 0, 0]) (cache_new list_lrus 2)) = Inl UnexpectedEof"
    by (simp add: load_from_file_def read_exact_def)
  then show ?thesis
    using load_any_file [of list_lrus plain_rlp "Content [1, 0, 0]" "cache_new list_lrus 2"]
    by (simp add: case_prod_beta prod_eq_iff)
qed



end
