(* ===== verification/Tx_Filter.thy ===== *)
theory Tx_Filter
  imports Sentry_Prelude
begin

text \<open>
  The contract between the forwarding loop and its deduplicator: a filter over hashes that lets a
  hash through unless it is among the \<open>cap\<close> most recently seen distinct ones. The locale
  \<open>tx_filter\<close> names the operation (\<open>check\<close>) and an abstraction of its state (\<open>recent\<close>); what a run
  of the filter over a list of hashes does is proved once, from the contract. \<open>Tx_Dedup\<close> shows
  that \<open>TxDedup\<close> keeps the contract, \<open>Tx_Forwarder\<close> relies on it.
\<close>

text \<open>Running a filter: the state after a list of hashes and the hashes it let through.\<close>

fun filter_state :: "('h \<Rightarrow> 's \<Rightarrow> bool \<times> 's) \<Rightarrow> 's \<Rightarrow> 'h list \<Rightarrow> 's" where
  "filter_state check s [] = s"
| "filter_state check s (h # hs) = filter_state check (snd (check h s)) hs"

fun accepted :: "('h \<Rightarrow> 's \<Rightarrow> bool \<times> 's) \<Rightarrow> 's \<Rightarrow> 'h list \<Rightarrow> 'h list" where
  "accepted check s [] = []"
| "accepted check s (h # hs) =
     (if fst (check h s) then h # accepted check (snd (check h s)) hs
      else accepted check (snd (check h s)) hs)"

lemma filter_state_append:
  "filter_state check s (xs @ ys) = filter_state check (filter_state check s xs) ys"
  by (induction xs arbitrary: s) auto

lemma accepted_append:
  "accepted check s (xs @ ys) = accepted check s xs @ accepted check (filter_state check s xs) ys"
  by (induction xs arbitrary: s) auto

section \<open>The distinct hashes seen, most recent first\<close>

definition seen :: "'h list \<Rightarrow> 'h list" where
  "seen hs = rev (remdups hs)"

lemma remdups_snoc: "remdups (xs @ [x]) = removeAll x (remdups xs) @ [x]"
  by (induction xs) auto

lemma seen_Nil [simp]: "seen [] = []"
  by (simp add: seen_def)

lemma seen_snoc: "seen (hs @ [h]) = h # removeAll h (seen hs)"
  by (simp add: seen_def remdups_snoc removeAll_filter_not_eq rev_filter)

lemma distinct_seen [simp]: "distinct (seen hs)"
  by (simp add: seen_def)

lemma set_seen [simp]: "set (seen hs) = set hs"
  by (simp add: seen_def)

lemma length_seen: "length (seen hs) = card (set hs)"
  by (simp add: seen_def length_remdups_card_conv)

lemma take_removeAll_take:
  "distinct xs \<Longrightarrow> take n (removeAll h (take (Suc n) xs)) = take n (removeAll h xs)"
proof (induction xs arbitrary: n)
  case Nil
  then show ?case by simp
next
  case (Cons x xs)
  show ?case
  proof (cases "x = h")
    case True
    with Cons.prems have "h \<notin> set xs" "h \<notin> set (take n xs)"
      by (auto dest: in_set_takeD)
    with True show ?thesis by (simp add: removeAll_id)
  next
    case False
    with Cons show ?thesis by (cases n) auto
  qed
qed

lemma take_seen_snoc:
  assumes "0 < n"
  shows "take n (h # removeAll h (take n (seen hs))) = take n (seen (hs @ [h]))"
proof -
  obtain m where "n = Suc m" using assms by (cases n) auto
  then show ?thesis
    using take_removeAll_take [of "seen hs" m h] by (simp add: seen_snoc)
qed

text \<open>
  A hash that arrived before is in the window exactly if fewer than \<open>n\<close> other distinct hashes
  arrived since.
\<close>

lemma seen_since:
  assumes "h \<notin> set gs"
  shows "\<exists>rest. seen (hs @ h # gs) = seen gs @ h # rest \<and> h \<notin> set rest"
  using assms
proof (induction gs rule: rev_induct)
  case Nil
  then show ?case using seen_snoc [of hs h] by auto
next
  case (snoc g gs)
  then obtain rest where "seen (hs @ h # gs) = seen gs @ h # rest" "h \<notin> set rest"
    by auto
  moreover have "g \<noteq> h" using snoc.prems by auto
  ultimately show ?case
    using seen_snoc [of "hs @ h # gs" g] seen_snoc [of gs g] by simp
qed

lemma in_window_since:
  assumes "h \<notin> set gs"
  shows "h \<in> set (take n (seen (hs @ h # gs))) \<longleftrightarrow> card (set gs) < n"
proof -
  obtain rest where eq: "seen (hs @ h # gs) = seen gs @ h # rest"
    using seen_since [OF assms] by blast
  show ?thesis
  proof (cases "card (set gs) < n")
    case True
    then have "n - card (set gs) \<noteq> 0" by simp
    then show ?thesis
      using True by (cases "n - card (set gs)") (auto simp: eq length_seen)
  next
    case False
    then show ?thesis using assms
      by (auto simp: eq length_seen dest: in_set_takeD)
  qed
qed

section \<open>The contract\<close>

locale tx_filter =
  fixes check :: "'h \<Rightarrow> 's \<Rightarrow> bool \<times> 's"
    and recent :: "'s \<Rightarrow> 'h list"
    and cap :: "'s \<Rightarrow> nat"
    and ok :: "'s \<Rightarrow> bool"
  assumes cap_pos: "ok s \<Longrightarrow> 0 < cap s"
    and ok_check: "ok s \<Longrightarrow> ok (snd (check h s))"
    and cap_check: "ok s \<Longrightarrow> cap (snd (check h s)) = cap s"
    and fst_check: "ok s \<Longrightarrow> fst (check h s) \<longleftrightarrow> h \<notin> set (recent s)"
    and recent_check: "ok s \<Longrightarrow>
      recent (snd (check h s)) = take (cap s) (h # removeAll h (recent s))"
begin

lemma ok_filter_state: "ok s \<Longrightarrow> ok (filter_state check s hs)"
  by (induction hs arbitrary: s) (auto intro: ok_check)

lemma cap_filter_state: "ok s \<Longrightarrow> cap (filter_state check s hs) = cap s"
  by (induction hs arbitrary: s) (auto simp: ok_check cap_check)

text \<open>The state is the window of the most recently seen distinct hashes.\<close>

lemma recent_filter_state:
  assumes "ok s" "recent s = []"
  shows "recent (filter_state check s hs) = take (cap s) (seen hs)"
proof (induction hs rule: rev_induct)
  case Nil
  then show ?case using assms by simp
next
  case (snoc h hs)
  let ?t = "filter_state check s hs"
  have "recent (snd (check h ?t)) = take (cap s) (h # removeAll h (take (cap s) (seen hs)))"
    using assms(1) snoc by (simp add: recent_check ok_filter_state cap_filter_state)
  then show ?case
    using cap_pos [OF assms(1)] by (simp add: filter_state_append take_seen_snoc)
qed

lemma check_after:
  assumes "ok s" "recent s = []"
  shows "fst (check h (filter_state check s hs)) \<longleftrightarrow> h \<notin> set (take (cap s) (seen hs))"
  using assms by (simp add: fst_check ok_filter_state recent_filter_state)

lemma check_again:
  assumes "ok s" "recent s = []" "h \<notin> set gs"
  shows "fst (check h (filter_state check s (hs @ h # gs))) \<longleftrightarrow> cap s \<le> card (set gs)"
  by (simp only: check_after [OF assms(1,2)] in_window_since [OF assms(3)] not_less)

lemma check_first:
  assumes "ok s" "recent s = []" "h \<notin> set hs"
  shows "fst (check h (filter_state check s hs))"
  using assms by (auto simp: check_after dest: in_set_takeD)

text \<open>While no more distinct hashes arrive than the window holds, each passes exactly once.\<close>

lemma accepted_within_capacity:
  assumes "ok s" "recent s = []" "card (set hs) \<le> cap s"
  shows "accepted check s hs = rev (remdups (rev hs))"
  using assms(3)
proof (induction hs rule: rev_induct)
  case Nil
  then show ?case by simp
next
  case (snoc h hs)
  have le: "card (set hs) \<le> cap s"
    using snoc.prems card_insert_le [of "set hs" h] by simp
  then have "take (cap s) (seen hs) = seen hs"
    by (simp add: length_seen)
  then have "fst (check h (filter_state check s hs)) \<longleftrightarrow> h \<notin> set hs"
    using assms(1,2) by (simp add: check_after)
  then show ?case
    using snoc.IH [OF le] by (simp add: accepted_append)
qed

text \<open>Without that bound, every hash that arrived has still passed at least once.\<close>

lemma set_accepted:
  assumes "ok s" "recent s = []"
  shows "set (accepted check s hs) = set hs"
proof (induction hs rule: rev_induct)
  case Nil
  then show ?case by simp
next
  case (snoc h hs)
  let ?new = "accepted check (filter_state check s hs) [h]"
  have "set ?new \<subseteq> {h}" "h \<notin> set hs \<Longrightarrow> h \<in> set ?new"
    using check_first [OF assms, of h hs] by auto
  moreover have "set (accepted check s (hs @ [h])) = set hs \<union> set ?new"
    by (simp only: accepted_append set_append snoc.IH)
  ultimately show ?case by (cases "h \<in> set hs") auto
qed

end

end
