(* ===== verification/Tx_Dedup.thy ===== *)
theory Tx_Dedup
  imports Lru_Interface Tx_Filter
begin

text \<open>
  \<open>src/dedup.rs\<close>: the transaction deduplicator. \<open>tx_dedup\<close> is \<open>TxDedup\<close> (the mutex-guarded LRU
  cache of hashes, the three atomic counters, the log interval); \<open>check_and_insert\<close> is the method
  of that name, the line it logs being part of its result. The atomic counters are \<open>u64\<close> and wrap.
  The floating-point duplicate rate of the log line is not modelled, its three counters are.
\<close>

record dedup_config =
  cache_size :: nat
  config_log_interval :: u64

definition default_cache_size :: nat where
  "default_cache_size = 100000"

definition default_log_interval :: u64 where
  "default_log_interval = 1000"

definition default_dedup_config :: dedup_config where
  "default_dedup_config =
     \<lparr>cache_size = default_cache_size, config_log_interval = default_log_interval\<rparr>"

record dedup_stats =
  total :: u64
  duplicates :: u64
  unique :: u64

record 'c tx_dedup =
  cache :: 'c
  stats :: dedup_stats
  log_interval :: u64

text \<open>The fields of a \<open>dedup stats\<close> log line.\<close>

record dedup_line =
  line_total :: u64
  line_unique :: u64
  line_duplicates :: u64

text \<open>\<open>TxDedup::new\<close>; \<open>Inl\<close> is the panic of \<open>expect\<close>.\<close>

definition tx_dedup_new ::
    "('c, b256, unit) lru_ops \<Rightarrow> dedup_config \<Rightarrow> string + 'c tx_dedup" where
  "tx_dedup_new L config =
     (if cache_size config = 0 then Inl ''cache_size must be > 0''
      else Inr \<lparr>cache = lru_new L (cache_size config),
                stats = \<lparr>total = 0, duplicates = 0, unique = 0\<rparr>,
                log_interval = config_log_interval config\<rparr>)"

definition check_and_insert ::
    "('c, b256, unit) lru_ops \<Rightarrow> b256 \<Rightarrow> 'c tx_dedup \<Rightarrow> bool \<times> dedup_line option \<times> 'c tx_dedup" where
  "check_and_insert L hash d =
     (let tot = total (stats d) + 1;
          is_new = (\<not> lru_contains L hash (cache d));
          c' = (if is_new then lru_push L hash () (cache d) else lru_promote L hash (cache d));
          st = (stats d)\<lparr>total := tot\<rparr>;
          st' = (if is_new then st\<lparr>unique := unique st + 1\<rparr>
                 else st\<lparr>duplicates := duplicates st + 1\<rparr>);
          line = (if 0 < log_interval d \<and> tot mod log_interval d = 0
                  then Some \<lparr>line_total = tot, line_unique = unique st',
                             line_duplicates = duplicates st'\<rparr>
                  else None)
      in (is_new, line, d\<lparr>cache := c', stats := st'\<rparr>))"

text \<open>The verdict and the new state, without the log line: the filter the forwarder runs.\<close>

definition dedup_check ::
    "('c, b256, unit) lru_ops \<Rightarrow> b256 \<Rightarrow> 'c tx_dedup \<Rightarrow> bool \<times> 'c tx_dedup" where
  "dedup_check L hash d =
     (fst (check_and_insert L hash d), snd (snd (check_and_insert L hash d)))"

definition dedup_recent :: "('c, b256, unit) lru_ops \<Rightarrow> 'c tx_dedup \<Rightarrow> b256 list" where
  "dedup_recent L d = lru_keys L (cache d)"

lemma length_accepted_le: "length (accepted check s hs) \<le> length hs"
  by (induction hs arbitrary: s) (auto intro: le_SucI)

section \<open>One call\<close>

named_theorems dedup_simps \<open>fields after one call\<close>

lemma dedup_check_fields [dedup_simps]:
  "fst (dedup_check L h d) = (\<not> lru_contains L h (cache d))"
  "cache (snd (dedup_check L h d)) =
     (if lru_contains L h (cache d) then lru_promote L h (cache d) else lru_push L h () (cache d))"
  "total (stats (snd (dedup_check L h d))) = total (stats d) + 1"
  "unique (stats (snd (dedup_check L h d))) =
     unique (stats d) + (if lru_contains L h (cache d) then 0 else 1)"
  "duplicates (stats (snd (dedup_check L h d))) =
     duplicates (stats d) + (if lru_contains L h (cache d) then 1 else 0)"
  "log_interval (snd (dedup_check L h d)) = log_interval d"
  by (simp_all add: dedup_check_def check_and_insert_def Let_def)

lemma check_and_insert_line:
  "fst (snd (check_and_insert L h d)) =
     (let d' = snd (dedup_check L h d) in
      if 0 < log_interval d \<and> total (stats d') mod log_interval d = 0
      then Some \<lparr>line_total = total (stats d'), line_unique = unique (stats d'),
                 line_duplicates = duplicates (stats d')\<rparr>
      else None)"
  by (simp add: dedup_check_def check_and_insert_def Let_def)

section \<open>The deduplicator keeps the filter contract\<close>

locale dedup_cache = lru_cache L for L :: "('c, b256, unit) lru_ops"
begin

lemma recent_dedup_check:
  assumes "lru_ok L (cache d)"
  shows "dedup_recent L (snd (dedup_check L h d)) =
    take (lru_cap L (cache d)) (h # removeAll h (dedup_recent L d))"
proof -
  let ?es = "lru_iter L (cache d)"
  show ?thesis
  proof (cases "lru_contains L h (cache d)")
    case True
    then have h: "h \<in> fst ` set ?es" using assms by (simp add: contains_eq)
    have "length (h # removeAll h (map fst ?es)) = length ?es"
      using h assms distinct_removeAll_length [of "map fst ?es" h] by (simp add: lru_ok_def)
    with True h assms show ?thesis
      by (simp add: dedup_recent_def lru_keys_def dedup_simps iter_promote keys_touch lru_ok_def)
  next
    case False
    with assms show ?thesis
      by (simp add: dedup_recent_def lru_keys_def dedup_simps iter_push take_map [symmetric]
          flip: take_Cons')
  qed
qed

lemma ok_dedup_check: "lru_ok L (cache d) \<Longrightarrow> lru_ok L (cache (snd (dedup_check L h d)))"
  by (simp add: dedup_simps ok_push ok_promote)

lemma fst_dedup_check:
  "lru_ok L (cache d) \<Longrightarrow> fst (dedup_check L h d) \<longleftrightarrow> h \<notin> set (dedup_recent L d)"
  by (simp add: dedup_simps contains_eq dedup_recent_def lru_keys_def)

lemma cap_dedup_check:
  "lru_ok L (cache d) \<Longrightarrow> lru_cap L (cache (snd (dedup_check L h d))) = lru_cap L (cache d)"
  by (simp add: dedup_simps cap_push cap_promote)

end

sublocale dedup_cache \<subseteq>
  dd: tx_filter "dedup_check L" "dedup_recent L" "\<lambda>d. lru_cap L (cache d)" "\<lambda>d. lru_ok L (cache d)"
  by unfold_locales
    (rule ok_cap_pos ok_dedup_check cap_dedup_check fst_dedup_check recent_dedup_check; assumption)+

interpretation list_dedup: dedup_cache list_lru
  by unfold_locales

context dedup_cache
begin

lemma new_state:
  assumes "tx_dedup_new L config = Inr d"
  shows "lru_ok L (cache d)" "lru_cap L (cache d) = cache_size config" "dedup_recent L d = []"
    "log_interval d = config_log_interval config"
    "stats d = \<lparr>total = 0, duplicates = 0, unique = 0\<rparr>"
  using assms
  by (auto simp: tx_dedup_new_def dedup_recent_def lru_keys_def ok_new cap_new iter_new
      split: if_splits)

text \<open>The counters count calls, passes and duplicates, modulo \<open>2 ^ 64\<close>.\<close>

lemma stats_filter_state:
  "stats (filter_state (dedup_check L) d hs) =
     \<lparr>total = total (stats d) + of_nat (length hs),
      duplicates = duplicates (stats d) +
        (of_nat (length hs) - of_nat (length (accepted (dedup_check L) d hs))),
      unique = unique (stats d) + of_nat (length (accepted (dedup_check L) d hs))\<rparr>"
  by (induction hs arbitrary: d) (auto simp: dedup_simps)

lemma log_interval_filter_state:
  "log_interval (filter_state (dedup_check L) d hs) = log_interval d"
  by (induction hs arbitrary: d) (auto simp: dedup_simps)

lemma again_after_new:
  assumes "tx_dedup_new L config = Inr d" "h \<notin> set gs"
  shows "fst (dedup_check L h (filter_state (dedup_check L) d (hs @ h # gs)))
     \<longleftrightarrow> cache_size config \<le> card (set gs)"
  using dd.check_again [OF new_state(1,3) [OF assms(1)] assms(2)] new_state(2) [OF assms(1)]
  by simp

lemma recent_after_new:
  assumes "tx_dedup_new L config = Inr d"
  shows "dedup_recent L (filter_state (dedup_check L) d hs) = take (cache_size config) (seen hs)"
  using dd.recent_filter_state [OF new_state(1,3) [OF assms]] new_state(2) [OF assms]
  by simp

lemma accepted_after_new:
  assumes "tx_dedup_new L config = Inr d" "card (set hs) \<le> cache_size config"
  shows "accepted (dedup_check L) d hs = rev (remdups (rev hs))"
  by (rule dd.accepted_within_capacity [OF new_state(1,3) [OF assms(1)]])
    (simp add: new_state(2) [OF assms(1)] assms(2))

lemma set_accepted_after_new:
  "tx_dedup_new L config = Inr d \<Longrightarrow> set (accepted (dedup_check L) d hs) = set hs"
  by (rule dd.set_accepted) (simp_all add: new_state)

end

section \<open>Properties of the deduplicator\<close>

text \<open>
  C14. A hash that the deduplicator has already seen is let through again exactly if at least
  \<open>cache_size\<close> other distinct hashes arrived since its last arrival; otherwise it is a duplicate.
\<close>

theorem dedup_seen_again:
  assumes "lru_cache L" "tx_dedup_new L config = Inr d" "h \<notin> set gs"
  shows "fst (check_and_insert L h (filter_state (dedup_check L) d (hs @ h # gs)))
     \<longleftrightarrow> cache_size config \<le> card (set gs)"
  using dedup_cache.again_after_new [OF dedup_cache.intro [OF assms(1)] assms(2,3)]
  by (simp add: dedup_check_def)

theorem dedup_seen_again_witness:
  "fst (check_and_insert list_lru 7 (filter_state (dedup_check list_lru)
      \<lparr>cache = (2, []), stats = \<lparr>total = 0, duplicates = 0, unique = 0\<rparr>, log_interval = 10\<rparr>
      ([5] @ 7 # [8, 9, 8]))) \<longleftrightarrow> (2::nat) \<le> card {8, 9 :: b256}"
  using dedup_seen_again [OF list_cache.lru_cache_axioms,
      of "\<lparr>cache_size = 2, config_log_interval = 10\<rparr>" _ 7 "[8, 9, 8]" "[5]"]
  by (simp add: tx_dedup_new_def insert_commute)

text \<open>
  C23. As long as no more distinct hashes arrive than \<open>cache_size\<close>, the deduplicator lets each
  through exactly once, in the order of first arrival; and beyond that bound every hash that
  arrives still passes at least once.
\<close>

theorem dedup_once:
  assumes "lru_cache L" "tx_dedup_new L config = Inr d"
  shows "set (accepted (dedup_check L) d hs) = set hs
    \<and> (card (set hs) \<le> cache_size config \<longrightarrow> accepted (dedup_check L) d hs = rev (remdups (rev hs)))"
  using dedup_cache.set_accepted_after_new [OF dedup_cache.intro [OF assms(1)] assms(2)]
    dedup_cache.accepted_after_new [OF dedup_cache.intro [OF assms(1)] assms(2)]
  by blast

theorem dedup_once_witness:
  "accepted (dedup_check list_lru)
     \<lparr>cache = (2, []), stats = \<lparr>total = 0, duplicates = 0, unique = 0\<rparr>, log_interval = 10\<rparr>
     [7, 8, 7, 7, 8] = [7, 8]"
  using dedup_once [OF list_cache.lru_cache_axioms,
      of "\<lparr>cache_size = 2, config_log_interval = 10\<rparr>" _ "[7, 8, 7, 7, 8]"]
  by (simp add: tx_dedup_new_def insert_commute)

text \<open>
  The statistics are right: after \<open>n < 2 ^ 64\<close> calls the counters are the number of calls, of
  hashes let through and of duplicates, and the call number \<open>n\<close> logs a line, with these three
  numbers, exactly if the log interval is positive and divides \<open>n\<close>.
\<close>

theorem dedup_statistics:
  assumes "lru_cache L" "tx_dedup_new L config = Inr d" "length (hs @ [h]) < 2 ^ 64"
  shows "fst (snd (check_and_insert L h (filter_state (dedup_check L) d hs))) =
    (let n = length (hs @ [h]); u = length (accepted (dedup_check L) d (hs @ [h]))
     in if 0 < unat (config_log_interval config) \<and> unat (config_log_interval config) dvd n
        then Some \<lparr>line_total = of_nat n, line_unique = of_nat u, line_duplicates = of_nat (n - u)\<rparr>
        else None)"
proof -
  note loc = dedup_cache.intro [OF assms(1)]
  let ?i = "config_log_interval config"
  let ?n = "length (hs @ [h])" and ?u = "length (accepted (dedup_check L) d (hs @ [h]))"
  let ?d = "snd (dedup_check L h (filter_state (dedup_check L) d hs))"
  have d: "?d = filter_state (dedup_check L) d (hs @ [h])"
    by (simp add: filter_state_append)
  have st: "stats ?d = \<lparr>total = of_nat ?n, duplicates = of_nat (?n - ?u), unique = of_nat ?u\<rparr>"
    unfolding d dedup_cache.stats_filter_state [OF loc] dedup_cache.new_state(5) [OF loc assms(2)]
    using length_accepted_le [of "dedup_check L" d "hs @ [h]"] by (simp add: of_nat_diff)
  have li: "log_interval (filter_state (dedup_check L) d hs) = ?i"
    by (simp add: dedup_cache.log_interval_filter_state [OF loc]
        dedup_cache.new_state(4) [OF loc assms(2)])
  have "(0 < ?i \<and> (of_nat ?n :: u64) mod ?i = 0) \<longleftrightarrow> 0 < unat ?i \<and> unat ?i dvd ?n"
    using assms(3) of_nat_mod_zero_iff [of ?n ?i] by (simp add: unat_gt_0 word_neq_0_conv)
  then show ?thesis
    unfolding check_and_insert_line st li Let_def by simp
qed

theorem dedup_statistics_witness:
  "fst (snd (check_and_insert list_lru 7 (filter_state (dedup_check list_lru)
      \<lparr>cache = (2, []), stats = \<lparr>total = 0, duplicates = 0, unique = 0\<rparr>, log_interval = 2\<rparr> [7])))
   = Some \<lparr>line_total = 2, line_unique = 1, line_duplicates = 1\<rparr>"
  using dedup_statistics [OF list_cache.lru_cache_axioms,
      of "\<lparr>cache_size = 2, config_log_interval = 2\<rparr>" _ "[7]" 7]
  by (simp add: tx_dedup_new_def dedup_simps)

end
