(* ===== verification/Ws_Server.thy ===== *)
theory Ws_Server
  imports Sentry_Prelude
begin

text \<open>
  \<open>src/ws_server.rs\<close>: the WebSocket server that streams pending transactions. \<open>accept_loop\<close> is the
  task \<open>start_ws_server\<close> spawns, interleaved with the calls of \<open>WsBroadcaster::broadcast\<close>;
  \<open>handle_ws_connection\<close> is one client. The outcomes of \<open>tokio\<close>, \<open>tungstenite\<close> and \<open>serde_json\<close>
  are arguments: what \<open>recv\<close> returned, whether a send succeeded, the JSON texts.
\<close>

record pending_tx_notification =
  ntf_hash :: b256
  ntf_raw_tx :: "byte list"

section \<open>Configuration\<close>

record ws_config =
  ws_enabled :: bool
  ws_addr :: string
  ws_port :: u16
  ws_capacity :: nat

definition default_ws_enabled :: bool where "default_ws_enabled = True"

definition default_ws_addr :: string where "default_ws_addr = ''0.0.0.0''"

definition default_ws_port :: u16 where "default_ws_port = 8546"

definition default_ws_capacity :: nat where "default_ws_capacity = 4096"

definition default_ws_config :: ws_config where
  "default_ws_config =
     \<lparr>ws_enabled = default_ws_enabled, ws_addr = default_ws_addr, ws_port = default_ws_port,
      ws_capacity = default_ws_capacity\<rparr>"

section \<open>The server\<close>

text \<open>
  Starting: \<open>broadcast::channel\<close> panics on capacity 0; then the address must parse and the listener
  must bind. \<open>parse_addr\<close> and \<open>bind\<close> are the outcomes of \<open>SocketAddr::from_str\<close> and
  \<open>TcpListener::bind\<close>.
\<close>

datatype ws_start_error = ZeroCapacityPanic | BadAddress | BindFailed

definition start_ws_server ::
    "(string \<Rightarrow> 'a option) \<Rightarrow> ('a \<Rightarrow> bool) \<Rightarrow> ws_config \<Rightarrow> ws_start_error + 'a" where
  "start_ws_server parse_addr bind config =
     (if ws_capacity config = 0 then Inl ZeroCapacityPanic
      else case parse_addr (ws_addr config @ '':'' @ show_nat (unat (ws_port config))) of
          None \<Rightarrow> Inl BadAddress
        | Some a \<Rightarrow> if bind a then Inr a else Inl BindFailed)"

text \<open>
  A receiver of the broadcast channel, as \<open>tokio\<close> documents it: it is handed the notifications sent
  after it subscribed, in order; the channel keeps the last \<open>ring\<close> of them (at least the configured
  capacity), and a receiver that falls further behind loses the oldest and is told how many it
  lost before it gets the next. \<open>rc_results\<close> records what its \<open>recv\<close> calls returned.
\<close>

datatype recv_result = Recv pending_tx_notification | Lagged u64 | Closed

record 'p receiver =
  rc_peer :: 'p
  rc_pending :: "pending_tx_notification list"
  rc_skipped :: nat
  rc_results :: "recv_result list"

definition rc_send :: "nat \<Rightarrow> pending_tx_notification \<Rightarrow> 'p receiver \<Rightarrow> 'p receiver" where
  "rc_send ring n r =
     (if length (rc_pending r) < ring then r\<lparr>rc_pending := rc_pending r @ [n]\<rparr>
      else r\<lparr>rc_pending := tl (rc_pending r @ [n]), rc_skipped := rc_skipped r + 1\<rparr>)"

definition rc_recv :: "'p receiver \<Rightarrow> 'p receiver" where
  "rc_recv r =
     (if 0 < rc_skipped r
      then r\<lparr>rc_skipped := 0, rc_results := rc_results r @ [Lagged (of_nat (rc_skipped r))]\<rparr>
      else case rc_pending r of
          [] \<Rightarrow> r
        | n # rest \<Rightarrow> r\<lparr>rc_pending := rest, rc_results := rc_results r @ [Recv n]\<rparr>)"

text \<open>
  The events of a running server: a connection is accepted (and subscribed to the channel before
  its task is spawned), an accept fails, a notification is broadcast (without receivers the send is
  an ignored error), the task of the \<open>i\<close>-th connection calls \<open>recv\<close>.
\<close>

datatype 'p server_event =
    Accepted 'p
  | AcceptFailed
  | Broadcast pending_tx_notification
  | Poll nat

fun server_step :: "nat \<Rightarrow> 'p server_event \<Rightarrow> 'p receiver list \<Rightarrow> 'p receiver list" where
  "server_step ring (Accepted p) rs =
     rs @ [\<lparr>rc_peer = p, rc_pending = [], rc_skipped = 0, rc_results = []\<rparr>]"
| "server_step ring AcceptFailed rs = rs"
| "server_step ring (Broadcast n) rs = map (rc_send ring n) rs"
| "server_step ring (Poll i) rs = (if i < length rs then rs[i := rc_recv (rs ! i)] else rs)"

fun accept_loop :: "nat \<Rightarrow> 'p server_event list \<Rightarrow> 'p receiver list \<Rightarrow> 'p receiver list" where
  "accept_loop ring [] rs = rs"
| "accept_loop ring (e # es) rs = accept_loop ring es (server_step ring e rs)"

section \<open>Subscribing\<close>

record subscribe_request =
  sr_subscribe :: string
  sr_mode :: string

definition default_mode :: string where "default_mode = ''raw''"

text \<open>The fields of a JSON object; \<open>subscribe\<close> has no default, \<open>mode\<close> has.\<close>

record subscribe_fields =
  field_subscribe :: "string option"
  field_mode :: "string option"

definition deserialize_subscribe :: "subscribe_fields \<Rightarrow> subscribe_request option" where
  "deserialize_subscribe fs =
     (case field_subscribe fs of
        None \<Rightarrow> None
      | Some s \<Rightarrow> Some \<lparr>sr_subscribe = s,
          sr_mode = (case field_mode fs of None \<Rightarrow> default_mode | Some m \<Rightarrow> m)\<rparr>)"

text \<open>What \<open>timeout(10 s, ws_receiver.next())\<close> returns.\<close>

datatype message = Text string | Binary | Ping | Pong | CloseFrame | Frame

datatype first_message = Message message | WsError | Ended | Elapsed

definition wait_for_subscription ::
    "(string \<Rightarrow> subscribe_fields option) \<Rightarrow> first_message \<Rightarrow> string option" where
  "wait_for_subscription parse_json first =
     (case first of
        Message (Text t) \<Rightarrow>
          (case Option.bind (parse_json t) deserialize_subscribe of
             Some req \<Rightarrow>
               if sr_subscribe req = ''pending_transactions'' then Some (sr_mode req)
               else Some (sr_mode req)
           | None \<Rightarrow> Some ''raw'')
      | Message _ \<Rightarrow> Some ''raw''
      | WsError \<Rightarrow> None
      | Ended \<Rightarrow> None
      | Elapsed \<Rightarrow> Some ''raw'')"

section \<open>Streaming\<close>

text \<open>The JSON texts: the confirmation of a mode, a hash notification, a raw notification.\<close>

record ws_json =
  json_subscribe :: "string \<Rightarrow> subscribe_fields option"
  json_confirm :: "string \<Rightarrow> string"
  json_hash :: "string \<Rightarrow> string option"
  json_raw :: "string \<Rightarrow> string \<Rightarrow> string option"
  hex_encode :: "byte list \<Rightarrow> string"

definition use_raw :: "string \<Rightarrow> bool" where
  "use_raw mode \<longleftrightarrow> mode = ''raw'' \<or> mode = ''full''"

definition notification_json :: "ws_json \<Rightarrow> bool \<Rightarrow> pending_tx_notification \<Rightarrow> string option" where
  "notification_json J raw n =
     (if raw
      then json_raw J (''0x'' @ hex_encode J (b256_bytes (ntf_hash n))) (''0x'' @ hex_encode J (ntf_raw_tx n))
      else json_hash J (''0x'' @ hex_encode J (b256_bytes (ntf_hash n))))"

text \<open>How a connection's task ends; \<open>Streaming\<close> if it has not when the events run out.\<close>

datatype ws_end = HandshakeFailed | NotSubscribed | ConfirmFailed | SendFailed | ChannelClosed | Streaming

text \<open>The streaming loop; \<open>send_ok k\<close> tells whether the send number \<open>k\<close> succeeds.\<close>

fun stream_loop ::
    "ws_json \<Rightarrow> bool \<Rightarrow> (nat \<Rightarrow> bool) \<Rightarrow> nat \<Rightarrow> recv_result list \<Rightarrow> string list \<times> ws_end" where
  "stream_loop J raw send_ok k [] = ([], Streaming)"
| "stream_loop J raw send_ok k (Recv n # es) =
     (case notification_json J raw n of
        Some json \<Rightarrow>
          if send_ok k
          then (case stream_loop J raw send_ok (Suc k) es of (sent, e) \<Rightarrow> (json # sent, e))
          else ([], SendFailed)
      | None \<Rightarrow> stream_loop J raw send_ok k es)"
| "stream_loop J raw send_ok k (Lagged n # es) = stream_loop J raw send_ok k es"
| "stream_loop J raw send_ok k (Closed # es) = ([], ChannelClosed)"

definition handle_ws_connection ::
    "ws_json \<Rightarrow> bool \<Rightarrow> first_message \<Rightarrow> (nat \<Rightarrow> bool) \<Rightarrow> recv_result list \<Rightarrow> string list \<times> ws_end" where
  "handle_ws_connection J handshake_ok first send_ok es =
     (if \<not> handshake_ok then ([], HandshakeFailed)
      else case wait_for_subscription (json_subscribe J) first of
          None \<Rightarrow> ([], NotSubscribed)
        | Some mode \<Rightarrow>
            if send_ok 0
            then (case stream_loop J (use_raw mode) send_ok 1 es of
                    (sent, e) \<Rightarrow> (json_confirm J mode # sent, e))
            else ([], ConfirmFailed))"

section \<open>What a client is sent\<close>

text \<open>The notifications a connection can still send: those received before the channel closes.\<close>

fun received :: "recv_result list \<Rightarrow> pending_tx_notification list" where
  "received (Recv n # es) = n # received es"
| "received (Lagged k # es) = received es"
| "received _ = []"

text \<open>The messages sent are the first of the due ones, up to the first send that fails.\<close>

lemma stream_loop_sent:
  "fst (stream_loop J raw send_ok k es) =
     map snd (takeWhile (\<lambda>(i, _). send_ok i)
       (enumerate k (List.map_filter (notification_json J raw) (received es))))"
  by (induction J raw send_ok k es rule: stream_loop.induct)
    (auto simp: map_filter_simps case_prod_beta split: option.split)

lemma stream_loop_end:
  "snd (stream_loop J raw send_ok k es) =
     (if \<exists>i < length (List.map_filter (notification_json J raw) (received es)). \<not> send_ok (k + i)
      then SendFailed else if Closed \<in> set es then ChannelClosed else Streaming)"
proof (induction J raw send_ok k es rule: stream_loop.induct)
  case (2 J raw send_ok k n es)
  show ?case
  proof (cases "notification_json J raw n")
    case None
    with 2 show ?thesis by (auto simp: map_filter_simps)
  next
    case (Some j)
    with 2 show ?thesis
      by (auto simp add: map_filter_simps case_prod_beta Ex_less_Suc2)
  qed
qed (auto simp: map_filter_simps)

text \<open>
  C26. A client is sent the confirmation of its mode and then, in order, the JSON of every
  notification received before the channel closes, lagged gaps and unserialisable ones skipped, up
  to the first send that fails; the connection ends with that failure, with the close of the
  channel, or not at all. A client that does not subscribe is sent nothing.
\<close>

theorem connection_stream:
  "handle_ws_connection J True first send_ok es =
     (case wait_for_subscription (json_subscribe J) first of
        None \<Rightarrow> ([], NotSubscribed)
      | Some mode \<Rightarrow>
          let due = json_confirm J mode # List.map_filter (notification_json J (use_raw mode)) (received es)
          in (map snd (takeWhile (\<lambda>(i, _). send_ok i) (enumerate 0 due)),
              if \<not> send_ok 0 then ConfirmFailed
              else if \<exists>i < length due. \<not> send_ok i then SendFailed
              else if Closed \<in> set es then ChannelClosed else Streaming))"
proof (cases "wait_for_subscription (json_subscribe J) first")
  case None
  then show ?thesis by (simp add: handle_ws_connection_def)
next
  case (Some mode)
  show ?thesis
    using stream_loop_sent [of J "use_raw mode" send_ok 1 es]
      stream_loop_end [of J "use_raw mode" send_ok 1 es]
    by (simp add: handle_ws_connection_def Some Let_def case_prod_beta prod_eq_iff Ex_less_Suc2)
qed

text \<open>
  A client is turned away exactly if the socket fails or closes before its first message.
  Whatever else the first message is, the client is served: in the mode it asked for, if it is a
  subscription (of any topic) that names one, and in raw mode in every other case, a timeout
  included. Only \<open>raw\<close> and \<open>full\<close> select the raw stream, every other mode gets hashes.
\<close>

theorem subscription_mode:
  "(wait_for_subscription P first = None \<longleftrightarrow> first = WsError \<or> first = Ended)
   \<and> (case first of
        Message (Text t) \<Rightarrow>
          wait_for_subscription P first =
            Some (case P t of
                    Some fs \<Rightarrow> (case (field_subscribe fs, field_mode fs) of
                                 (Some _, Some m) \<Rightarrow> m | _ \<Rightarrow> ''raw'')
                  | None \<Rightarrow> ''raw'')
      | _ \<Rightarrow> wait_for_subscription P first \<in> {None, Some ''raw''})
   \<and> (notification_json J (use_raw mode) n =
        (if mode \<in> {''raw'', ''full''}
         then json_raw J (''0x'' @ hex_encode J (b256_bytes (ntf_hash n))) (''0x'' @ hex_encode J (ntf_raw_tx n))
         else json_hash J (''0x'' @ hex_encode J (b256_bytes (ntf_hash n)))))"
  by (auto simp: wait_for_subscription_def deserialize_subscribe_def default_mode_def
      notification_json_def use_raw_def split: first_message.split message.split option.split)

text \<open>The peers accepted and the notifications broadcast during some events.\<close>

fun accepted_peers :: "'p server_event list \<Rightarrow> 'p list" where
  "accepted_peers [] = []"
| "accepted_peers (Accepted p # es) = p # accepted_peers es"
| "accepted_peers (_ # es) = accepted_peers es"

fun broadcasts :: "'p server_event list \<Rightarrow> pending_tx_notification list" where
  "broadcasts [] = []"
| "broadcasts (Broadcast n # es) = n # broadcasts es"
| "broadcasts (_ # es) = broadcasts es"

text \<open>
  What is left of some notifications after the given \<open>recv\<close> results, each of which takes the next
  notification or skips the number it reports; \<open>None\<close> if the results do not fit.
\<close>

fun consumes :: "recv_result list \<Rightarrow> pending_tx_notification list \<Rightarrow> pending_tx_notification list option" where
  "consumes [] ns = Some ns"
| "consumes (Recv n # rs) ns = (case ns of [] \<Rightarrow> None | m # ms \<Rightarrow> if m = n then consumes rs ms else None)"
| "consumes (Lagged k # rs) ns = (if unat k \<le> length ns then consumes rs (drop (unat k) ns) else None)"
| "consumes (Closed # rs) ns = None"

lemma consumes_append:
  "consumes (rs @ qs) ns = Option.bind (consumes rs ns) (consumes qs)"
  by (induction rs ns rule: consumes.induct) (auto split: list.split)

lemma consumes_more: "consumes rs ns = Some ms \<Longrightarrow> consumes rs (ns @ [n]) = Some (ms @ [n])"
  by (induction rs ns rule: consumes.induct) (auto split: list.splits if_splits)

text \<open>A receiver has consumed, lost or still has every notification sent to it.\<close>

definition keeps_up :: "nat \<Rightarrow> pending_tx_notification list \<Rightarrow> 'p receiver \<Rightarrow> bool" where
  "keeps_up ring ns r \<longleftrightarrow>
     (\<exists>lost. consumes (rc_results r) ns = Some (lost @ rc_pending r) \<and> length lost = rc_skipped r)
   \<and> length (rc_pending r) \<le> ring
   \<and> (length ns \<le> ring \<longrightarrow> rc_skipped r = 0 \<and> map Recv ns = rc_results r @ map Recv (rc_pending r))"

lemma keeps_up_send:
  assumes "keeps_up ring ns r" "0 < ring"
  shows "keeps_up ring (ns @ [n]) (rc_send ring n r)"
proof -
  obtain lost where lost: "consumes (rc_results r) ns = Some (lost @ rc_pending r)" "length lost = rc_skipped r"
    using assms(1) unfolding keeps_up_def by blast
  note more = consumes_more [OF lost(1), of n]
  show ?thesis
  proof (cases "length (rc_pending r) < ring")
    case True
    have "map Recv (ns @ [n]) = rc_results r @ map Recv (rc_pending r @ [n])" "rc_skipped r = 0"
      if "length (ns @ [n]) \<le> ring"
      using assms(1) that by (simp_all add: keeps_up_def)
    then show ?thesis
      using True more lost(2) by (auto simp: keeps_up_def rc_send_def intro: exI [of _ lost])
  next
    case False
    then have full: "length (rc_pending r) = ring" using assms(1) by (simp add: keeps_up_def)
    have "length ns \<le> ring \<Longrightarrow> ring \<le> length ns"
      using assms(1) full by (metis keeps_up_def length_append length_map le_add2)
    then have big: "\<not> length (ns @ [n]) \<le> ring" by auto
    obtain q qs where q: "rc_pending r = q # qs" using full assms(2) by (cases "rc_pending r") auto
    then have "consumes (rc_results r) (ns @ [n]) = Some ((lost @ [q]) @ tl (rc_pending r @ [n]))"
      using more by simp
    moreover have "length (lost @ [q]) = rc_skipped r + 1" using lost(2) by simp
    ultimately show ?thesis
      unfolding keeps_up_def rc_send_def using False big full assms(2) by (auto intro!: exI [of _ "lost @ [q]"])
  qed
qed

lemma keeps_up_recv:
  assumes "keeps_up ring ns r" "length ns < 2 ^ 64"
  shows "keeps_up ring ns (rc_recv r)"
proof -
  obtain lost where lost: "consumes (rc_results r) ns = Some (lost @ rc_pending r)" "length lost = rc_skipped r"
    using assms(1) unfolding keeps_up_def by blast
  have "consumes rs ms = Some ks \<Longrightarrow> length ks \<le> length ms" for rs ms ks
    by (induction rs ms rule: consumes.induct) (auto split: list.splits if_splits)
  from this [OF lost(1)] have len: "rc_skipped r < 2 ^ 64" using lost(2) assms(2) by simp
  show ?thesis
  proof (cases "0 < rc_skipped r")
    case True
    have "consumes (rc_results r @ [Lagged (of_nat (rc_skipped r))]) ns = Some (rc_pending r)"
      using lost len by (simp add: consumes_append unat_of_nat take_bit_nat_eq_self)
    moreover have "\<not> length ns \<le> ring" using assms(1) True by (auto simp: keeps_up_def)
    ultimately show ?thesis
      using assms(1) True by (simp add: keeps_up_def rc_recv_def)
  next
    case False
    with lost have none: "consumes (rc_results r) ns = Some (rc_pending r)" by simp
    show ?thesis
    proof (cases "rc_pending r")
      case Nil
      with False assms(1) show ?thesis by (simp add: rc_recv_def)
    next
      case (Cons n rest)
      with none have "consumes (rc_results r @ [Recv n]) ns = Some rest" by (simp add: consumes_append)
      with False Cons assms(1) show ?thesis by (simp add: keeps_up_def rc_recv_def)
    qed
  qed
qed

lemma accept_loop_append: "accept_loop ring (es @ fs) rs = accept_loop ring fs (accept_loop ring es rs)"
  by (induction es arbitrary: rs) simp_all

lemma rc_peer_ops [simp]: "rc_peer (rc_send ring n r) = rc_peer r" "rc_peer (rc_recv r) = rc_peer r"
  by (simp_all add: rc_send_def rc_recv_def split: list.split)

lemma peers_accept_loop: "map rc_peer (accept_loop ring es rs) = map rc_peer rs @ accepted_peers es"
proof (induction es arbitrary: rs)
  case (Cons e es)
  then show ?case
    by (cases e) (simp_all add: comp_def map_update list_update_beyond list_update_same_conv)
qed simp

lemma broadcasts_append: "broadcasts (es @ fs) = broadcasts es @ broadcasts fs"
  by (induction es rule: broadcasts.induct) simp_all

lemma accept_loop_keeps_up:
  assumes "0 < ring" "i < length rs" "keeps_up ring ns (rs ! i)" "length (ns @ broadcasts es) < 2 ^ 64"
  shows "keeps_up ring (ns @ broadcasts es) (accept_loop ring es rs ! i)"
  using assms(2-)
proof (induction es arbitrary: rs ns)
  case (Cons e es)
  have fit: "length ns < 2 ^ 64" using Cons.prems(3) by simp
  have "keeps_up ring (ns @ broadcasts [e]) (server_step ring e rs ! i)"
    using Cons.prems(1,2) keeps_up_send [OF Cons.prems(2) assms(1)] keeps_up_recv [OF Cons.prems(2) fit]
    by (cases e) (auto simp: nth_append nth_list_update)
  moreover have "i < length (server_step ring e rs)" using Cons.prems(1) by (cases e) auto
  ultimately have "keeps_up ring ((ns @ broadcasts [e]) @ broadcasts es)
      (accept_loop ring es (server_step ring e rs) ! i)"
    by (intro Cons.IH) (use Cons.prems(3) broadcasts_append [of "[e]" es] in simp_all)
  then show ?case using broadcasts_append [of "[e]" es] by simp
qed simp

lemma receiver_keeps_up:
  assumes "0 < ring" "length (broadcasts fs) < 2 ^ 64"
  shows "keeps_up ring (broadcasts fs) (accept_loop ring (es @ Accepted p # fs) [] ! length (accepted_peers es))"
proof -
  let ?rs = "accept_loop ring es []"
  let ?r = "\<lparr>rc_peer = p, rc_pending = [], rc_skipped = 0, rc_results = []\<rparr>"
  have len: "length ?rs = length (accepted_peers es)"
    using arg_cong [OF peers_accept_loop [of ring es "[]"], of length] by simp
  have "keeps_up ring [] ?r" by (simp add: keeps_up_def)
  then have "keeps_up ring ([] @ broadcasts fs) (accept_loop ring fs (?rs @ [?r]) ! length ?rs)"
    by (intro accept_loop_keeps_up) (use assms in simp_all)
  then show ?thesis by (simp add: accept_loop_append len)
qed



end
