(* ===== verification/Labelled_Runs.thy ===== *)
theory Labelled_Runs
  imports Sentry_Prelude
begin

text \<open>
  Runs of a labelled step relation, shared by the concurrent components (the forwarder's tasks and
  the node's): the relation gives the single steps, a run is a list of labels. The locale
  \<open>executable_steps\<close> is the contract between a step relation and the function that executes it.
\<close>

inductive labelled_runs :: "('l \<Rightarrow> 's \<Rightarrow> 's \<Rightarrow> bool) \<Rightarrow> 'l list \<Rightarrow> 's \<Rightarrow> 's \<Rightarrow> bool"
  for step :: "'l \<Rightarrow> 's \<Rightarrow> 's \<Rightarrow> bool" where
  runs_nil: "labelled_runs step [] s s"
| runs_snoc: "labelled_runs step ls s t \<Longrightarrow> step l t u \<Longrightarrow> labelled_runs step (ls @ [l]) s u"

lemma labelled_runs_append:
  "labelled_runs step ks t u \<Longrightarrow> labelled_runs step ls s t \<Longrightarrow> labelled_runs step (ls @ ks) s u"
  by (induction rule: labelled_runs.induct) (auto simp: labelled_runs.runs_snoc simp flip: append_assoc)

lemma labelled_runs_Cons:
  assumes "step l s t" "labelled_runs step ls t u"
  shows "labelled_runs step (l # ls) s u"
proof -
  have "labelled_runs step ([] @ [l]) s t" by (rule runs_snoc [OF runs_nil]) (rule assms(1))
  from labelled_runs_append [OF assms(2) this] show ?thesis by simp
qed

text \<open>What every step keeps, every run keeps; what every step adds up, every run does.\<close>

lemma labelled_runs_keep:
  assumes "labelled_runs step ls s t" "\<And>l s t. step l s t \<Longrightarrow> l \<in> set ls \<Longrightarrow> I s \<Longrightarrow> I t" "I s"
  shows "I t"
  using assms by (induction rule: labelled_runs.induct) auto

lemma labelled_runs_log:
  assumes "labelled_runs step ls s t" "\<And>l s t. step l s t \<Longrightarrow> log t = log s @ f [l]"
    and "\<And>xs ys. f (xs @ ys) = f xs @ f ys" "f [] = []"
  shows "log t = log s @ f ls"
  using assms by (induction rule: labelled_runs.induct) auto

text \<open>Executing a list of labels.\<close>

primrec exec_list :: "('l \<Rightarrow> 's \<Rightarrow> 's option) \<Rightarrow> 'l list \<Rightarrow> 's \<Rightarrow> 's option" where
  "exec_list exec [] s = Some s"
| "exec_list exec (l # ls) s = Option.bind (exec l s) (exec_list exec ls)"

locale executable_steps =
  fixes step :: "'l \<Rightarrow> 's \<Rightarrow> 's \<Rightarrow> bool" and exec :: "'l \<Rightarrow> 's \<Rightarrow> 's option"
  assumes exec_sound: "exec l s = Some t \<Longrightarrow> step l s t"
begin

lemma exec_list_runs: "exec_list exec ls s = Some t \<Longrightarrow> labelled_runs step ls s t"
proof (induction ls arbitrary: s)
  case (Cons l ls)
  then obtain u where "exec l s = Some u" "exec_list exec ls u = Some t"
    by (auto simp: bind_eq_Some_conv)
  then show ?case by (intro labelled_runs_Cons exec_sound Cons.IH)
qed (simp add: runs_nil)

end

end
