(* ===== verification/Tx_Forwarder.thy ===== *)
theory Tx_Forwarder
  imports Tx_Dedup Ws_Server Labelled_Runs
begin

text \<open>
  \<open>src/forwarder.rs\<close>: the forwarder of transactions. Its loop and the tasks the loop spawns run
  concurrently with each other and with the callers of \<open>TxForwarder::forward\<close>, so the component is
  a step relation: \<open>receive\<close> is the loop's body up to the semaphore, \<open>spawn_task\<close> the rest of it,
  \<open>post_next\<close> one iteration of a task's loop over the endpoints, \<open>finish\<close> the drop of its permit.
  The deduplicator is any \<open>tx_filter\<close>; what the HTTP client returns labels the steps. The bounded
  channel is a queue, the semaphore a count of permits (it is never closed, so the error branch
  of \<open>acquire_owned\<close> is never taken).
\<close>

record forwardable_tx =
  tx_hash :: b256
  tx_raw :: "byte list"

section \<open>Configuration\<close>

record backend_config =
  endpoints :: "string list"
  max_concurrent :: nat
  buffer_size :: nat
  backend_dedup :: dedup_config

definition default_max_concurrent :: nat where "default_max_concurrent = 64"

definition default_buffer_size :: nat where "default_buffer_size = 4096"

definition default_backend_config :: backend_config where
  "default_backend_config =
     \<lparr>endpoints = [''http://localhost:8545''], max_concurrent = default_max_concurrent,
      buffer_size = default_buffer_size, backend_dedup = default_dedup_config\<rparr>"

section \<open>JSON-RPC\<close>

record json_rpc_request =
  jsonrpc :: string
  rpc_method :: string
  params :: "string list"
  rpc_id :: u64

record json_rpc_error =
  error_code :: "64 word"
  error_message :: string

text \<open>The \<open>result\<close> field is parsed and never read.\<close>

record json_rpc_response =
  rpc_error :: "json_rpc_error option"

text \<open>What posting to one endpoint gives, and what the task makes of it (it only logs it).\<close>

datatype http_result = RequestFailed | InvalidJson | Response json_rpc_response

datatype verdict =
    ForwardedOk
  | AlreadyKnown
  | RejectedBy "64 word" string
  | ParseFailed
  | SendError

fun str_contains :: "string \<Rightarrow> string \<Rightarrow> bool" where
  "str_contains [] needle = (needle = [])"
| "str_contains (c # s) needle = (take (length needle) (c # s) = needle \<or> str_contains s needle)"

definition classify :: "http_result \<Rightarrow> verdict" where
  "classify r =
     (case r of
        RequestFailed \<Rightarrow> SendError
      | InvalidJson \<Rightarrow> ParseFailed
      | Response resp \<Rightarrow>
          (case rpc_error resp of
             None \<Rightarrow> ForwardedOk
           | Some err \<Rightarrow>
               if str_contains (error_message err) ''already known''
                  \<or> str_contains (error_message err) ''already in pool''
               then AlreadyKnown
               else RejectedBy (error_code err) (error_message err)))"

definition send_raw_request :: "(byte list \<Rightarrow> string) \<Rightarrow> u64 \<Rightarrow> forwardable_tx \<Rightarrow> json_rpc_request" where
  "send_raw_request hex i tx =
     \<lparr>jsonrpc = ''2.0'', rpc_method = ''eth_sendRawTransaction'',
      params = [''0x'' @ hex (tx_raw tx)], rpc_id = i\<rparr>"

section \<open>State\<close>

record fwd_task =
  task_id :: u64
  task_tx :: forwardable_tx
  task_todo :: "string list"

record http_post =
  post_url :: string
  post_body :: json_rpc_request
  post_verdict :: verdict

text \<open>
  \<open>acquiring\<close> is the transaction with which the loop waits for a permit. \<open>ws_out\<close> and \<open>posts\<close>
  record what was broadcast and posted.
\<close>

record 'd forwarder =
  queue :: "forwardable_tx list"
  senders_gone :: bool
  loop_done :: bool
  dedup_state :: 'd
  acquiring :: "forwardable_tx option"
  permits :: nat
  id_counter :: u64
  tasks :: "fwd_task list"
  ws_out :: "pending_tx_notification list"
  posts :: "http_post list"

definition forwarder_init :: "backend_config \<Rightarrow> 'd \<Rightarrow> 'd forwarder" where
  "forwarder_init config d =
     \<lparr>queue = [], senders_gone = False, loop_done = False, dedup_state = d, acquiring = None,
      permits = max_concurrent config, id_counter = 0, tasks = [], ws_out = [], posts = []\<rparr>"

text \<open>
  \<open>TxForwarder::new\<close>. \<open>Inl\<close> is the panic of \<open>mpsc::channel\<close> in the caller. \<open>Inr None\<close> is a
  forwarder whose spawned loop died in the panic of \<open>TxDedup::new\<close>: nothing is ever forwarded.
\<close>

definition forwarder_new ::
    "('c, b256, unit) lru_ops \<Rightarrow> backend_config \<Rightarrow> string + 'c tx_dedup forwarder option" where
  "forwarder_new L config =
     (if buffer_size config = 0 then Inl ''mpsc bounded channel requires buffer > 0''
      else Inr (case tx_dedup_new L (backend_dedup config) of
          Inl e \<Rightarrow> None
        | Inr d \<Rightarrow> Some (forwarder_init config d)))"

section \<open>Operations\<close>

text \<open>The parameters of a running forwarder.\<close>

record 'd forwarder_env =
  env_config :: backend_config
  env_ws :: bool
  env_check :: "b256 \<Rightarrow> 'd \<Rightarrow> bool \<times> 'd"
  env_hex :: "byte list \<Rightarrow> string"

text \<open>
  \<open>TxForwarder::forward\<close>: the send waits while the channel is full (\<open>None\<close>), and fails, which is
  only logged, when the loop is gone.
\<close>

definition forward :: "'d forwarder_env \<Rightarrow> forwardable_tx \<Rightarrow> 'd forwarder \<Rightarrow> 'd forwarder option" where
  "forward E tx s =
     (if loop_done s then Some s
      else if length (queue s) < buffer_size (env_config E) then Some (s\<lparr>queue := queue s @ [tx]\<rparr>)
      else None)"

text \<open>One iteration of \<open>forwarding_loop\<close>, up to \<open>acquire_owned\<close>.\<close>

definition receive :: "'d forwarder_env \<Rightarrow> forwardable_tx \<Rightarrow> 'd forwarder \<Rightarrow> 'd forwarder" where
  "receive E tx s =
     (case env_check E (tx_hash tx) (dedup_state s) of
        (False, d) \<Rightarrow> s\<lparr>dedup_state := d\<rparr>
      | (True, d) \<Rightarrow>
          let s' = s\<lparr>dedup_state := d,
                     ws_out := (if env_ws E
                                then ws_out s @ [\<lparr>ntf_hash = tx_hash tx, ntf_raw_tx = tx_raw tx\<rparr>]
                                else ws_out s)\<rparr>
          in if endpoints (env_config E) = [] then s' else s'\<lparr>acquiring := Some tx\<rparr>)"

text \<open>The rest of the iteration, with the permit.\<close>

definition spawn_task :: "'d forwarder_env \<Rightarrow> forwardable_tx \<Rightarrow> 'd forwarder \<Rightarrow> 'd forwarder" where
  "spawn_task E tx s =
     s\<lparr>acquiring := None, permits := permits s - 1, id_counter := id_counter s + 1,
       tasks := tasks s @ [\<lparr>task_id = id_counter s + 1, task_tx = tx,
                            task_todo = endpoints (env_config E)\<rparr>]\<rparr>"

definition post_next ::
    "'d forwarder_env \<Rightarrow> nat \<Rightarrow> string \<Rightarrow> string list \<Rightarrow> http_result \<Rightarrow> 'd forwarder \<Rightarrow> 'd forwarder" where
  "post_next E i url rest r s =
     (let t = tasks s ! i
      in s\<lparr>tasks := (tasks s)[i := t\<lparr>task_todo := rest\<rparr>],
           posts := posts s @ [\<lparr>post_url = url,
                                 post_body = send_raw_request (env_hex E) (task_id t) (task_tx t),
                                 post_verdict = classify r\<rparr>]\<rparr>)"

definition finish :: "nat \<Rightarrow> 'd forwarder \<Rightarrow> 'd forwarder" where
  "finish i s = s\<lparr>tasks := take i (tasks s) @ drop (Suc i) (tasks s), permits := permits s + 1\<rparr>"

section \<open>The step relation\<close>

datatype label =
    Submit forwardable_tx
  | DropSenders
  | Receive
  | Acquire
  | Post nat http_result
  | Finish nat
  | Stop

inductive fstep :: "'d forwarder_env \<Rightarrow> label \<Rightarrow> 'd forwarder \<Rightarrow> 'd forwarder \<Rightarrow> bool"
  for E :: "'d forwarder_env" where
  submit: "\<not> senders_gone s \<Longrightarrow> \<not> loop_done s \<Longrightarrow> forward E tx s = Some t \<Longrightarrow> fstep E (Submit tx) s t"
| drop_senders: "fstep E DropSenders s (s\<lparr>senders_gone := True\<rparr>)"
| receive: "\<not> loop_done s \<Longrightarrow> acquiring s = None \<Longrightarrow> queue s = tx # rest \<Longrightarrow>
    fstep E Receive s (receive E tx (s\<lparr>queue := rest\<rparr>))"
| acquire: "acquiring s = Some tx \<Longrightarrow> 0 < permits s \<Longrightarrow> fstep E Acquire s (spawn_task E tx s)"
| post: "i < length (tasks s) \<Longrightarrow> task_todo (tasks s ! i) = url # rest \<Longrightarrow>
    fstep E (Post i r) s (post_next E i url rest r s)"
| finish: "i < length (tasks s) \<Longrightarrow> task_todo (tasks s ! i) = [] \<Longrightarrow>
    fstep E (Finish i) s (finish i s)"
| stop: "\<not> loop_done s \<Longrightarrow> acquiring s = None \<Longrightarrow> queue s = [] \<Longrightarrow> senders_gone s \<Longrightarrow>
    fstep E Stop s (s\<lparr>loop_done := True\<rparr>)"

inductive_cases fstep_cases:
  "fstep E (Submit tx) s t" "fstep E DropSenders s t" "fstep E Receive s t" "fstep E Acquire s t"
  "fstep E (Post i r) s t" "fstep E (Finish i) s t" "fstep E Stop s t"

abbreviation runs :: "'d forwarder_env \<Rightarrow> label list \<Rightarrow> 'd forwarder \<Rightarrow> 'd forwarder \<Rightarrow> bool" where
  "runs E \<equiv> labelled_runs (fstep E)"

text \<open>The transactions submitted during a run, and those a filter lets through.\<close>

fun submitted :: "label list \<Rightarrow> forwardable_tx list" where
  "submitted [] = []"
| "submitted (Submit tx # ls) = tx # submitted ls"
| "submitted (_ # ls) = submitted ls"

fun accepted_txs ::
    "(b256 \<Rightarrow> 'd \<Rightarrow> bool \<times> 'd) \<Rightarrow> 'd \<Rightarrow> forwardable_tx list \<Rightarrow> forwardable_tx list" where
  "accepted_txs check d [] = []"
| "accepted_txs check d (tx # txs) =
     (if fst (check (tx_hash tx) d) then tx # accepted_txs check (snd (check (tx_hash tx) d)) txs
      else accepted_txs check (snd (check (tx_hash tx) d)) txs)"

text \<open>Nothing is queued, waiting or in flight.\<close>

definition quiescent :: "'d forwarder \<Rightarrow> bool" where
  "quiescent s \<longleftrightarrow> queue s = [] \<and> acquiring s = None \<and> tasks s = []"

section \<open>What every run keeps\<close>

lemma submitted_append: "submitted (ls @ ks) = submitted ls @ submitted ks"
  by (induction ls rule: submitted.induct) simp_all

lemma accepted_txs_append:
  "accepted_txs check d (xs @ ys) =
     accepted_txs check d xs @ accepted_txs check (filter_state check d (map tx_hash xs)) ys"
  by (induction xs arbitrary: d) simp_all

lemma map_hash_accepted_txs:
  "map tx_hash (accepted_txs check d txs) = accepted check d (map tx_hash txs)"
  by (induction txs arbitrary: d) simp_all

text \<open>The permits and the tasks in flight together are always the configured number.\<close>

lemma permits_step:
  "fstep E l s t \<Longrightarrow> permits t + length (tasks t) = permits s + length (tasks s)"
  by (induction rule: fstep.induct)
    (auto simp: forward_def receive_def spawn_task_def post_next_def finish_def Let_def
      split: if_splits prod.split bool.split)

lemma permits_runs:
  "runs E ls s t \<Longrightarrow> permits t + length (tasks t) = permits s + length (tasks s)"
  by (induction rule: labelled_runs.induct) (auto dest: permits_step)

lemma queue_step:
  "fstep E l s t \<Longrightarrow> length (queue s) \<le> buffer_size (env_config E) \<Longrightarrow>
   length (queue t) \<le> buffer_size (env_config E)"
  by (induction rule: fstep.induct)
    (auto simp: forward_def receive_def spawn_task_def post_next_def finish_def Let_def
      split: if_splits prod.split bool.split)

lemma queue_runs:
  "runs E ls s t \<Longrightarrow> length (queue s) \<le> buffer_size (env_config E) \<Longrightarrow>
   length (queue t) \<le> buffer_size (env_config E)"
  by (induction rule: labelled_runs.induct) (auto dest: queue_step)

text \<open>The posts a task has still to make, and all those made for a list of transactions.\<close>

definition task_posts :: "'d forwarder_env \<Rightarrow> u64 \<Rightarrow> forwardable_tx \<Rightarrow> string list \<Rightarrow> (string \<times> json_rpc_request) list"
  where "task_posts E i tx urls = map (\<lambda>url. (url, send_raw_request (env_hex E) i tx)) urls"

definition open_posts :: "'d forwarder_env \<Rightarrow> fwd_task list \<Rightarrow> (string \<times> json_rpc_request) list" where
  "open_posts E ts = concat (map (\<lambda>t. task_posts E (task_id t) (task_tx t) (task_todo t)) ts)"

definition done_posts :: "'d forwarder \<Rightarrow> (string \<times> json_rpc_request) list" where
  "done_posts s = map (\<lambda>p. (post_url p, post_body p)) (posts s)"

definition all_posts :: "'d forwarder_env \<Rightarrow> forwardable_tx list \<Rightarrow> (string \<times> json_rpc_request) list" where
  "all_posts E txs =
     concat (map (\<lambda>(i, tx). task_posts E (of_nat i) tx (endpoints (env_config E))) (enumerate 1 txs))"

lemma all_posts_snoc:
  "all_posts E (txs @ [tx]) =
     all_posts E txs @ task_posts E (of_nat (length txs) + 1) tx (endpoints (env_config E))"
  by (simp add: all_posts_def enumerate_append_eq add.commute)

lemma all_posts_no_endpoints: "endpoints (env_config E) = [] \<Longrightarrow> all_posts E txs = []"
  by (simp add: all_posts_def task_posts_def)

definition ntf_of :: "forwardable_tx \<Rightarrow> pending_tx_notification" where
  "ntf_of tx = \<lparr>ntf_hash = tx_hash tx, ntf_raw_tx = tx_raw tx\<rparr>"

text \<open>
  Where every submitted transaction is: still queued, filtered out, waiting for a permit, or
  spawned, in which case each of its posts is either made or still to be made.
\<close>

definition accounted ::
    "'d forwarder_env \<Rightarrow> 'd \<Rightarrow> forwardable_tx list \<Rightarrow> 'd forwarder
     \<Rightarrow> forwardable_tx list \<Rightarrow> forwardable_tx list \<Rightarrow> bool" where
  "accounted E d subs s got spawned \<longleftrightarrow>
     subs = got @ queue s
   \<and> dedup_state s = filter_state (env_check E) d (map tx_hash got)
   \<and> ws_out s = (if env_ws E then map ntf_of (accepted_txs (env_check E) d got) else [])
   \<and> (if endpoints (env_config E) = [] then spawned = [] \<and> acquiring s = None
      else accepted_txs (env_check E) d got =
             spawned @ (case acquiring s of None \<Rightarrow> [] | Some tx \<Rightarrow> [tx]))
   \<and> id_counter s = of_nat (length spawned)
   \<and> mset (done_posts s) + mset (open_posts E (tasks s)) = mset (all_posts E spawned)"

lemma accounted_init: "accounted E d [] (forwarder_init config d) [] []"
  by (simp add: accounted_def forwarder_init_def done_posts_def open_posts_def all_posts_def)

lemma open_posts_simps [simp]:
  "open_posts E [] = []"
  "open_posts E (t # ts) = task_posts E (task_id t) (task_tx t) (task_todo t) @ open_posts E ts"
  "open_posts E (ts @ us) = open_posts E ts @ open_posts E us"
  by (simp_all add: open_posts_def)

lemma open_posts_update:
  assumes "i < length ts"
  shows "mset (open_posts E ts) =
      mset (task_posts E (task_id (ts ! i)) (task_tx (ts ! i)) (task_todo (ts ! i)))
    + mset (open_posts E (take i ts @ drop (Suc i) ts))"
    and "mset (open_posts E (ts[i := t])) =
      mset (task_posts E (task_id t) (task_tx t) (task_todo t))
    + mset (open_posts E (take i ts @ drop (Suc i) ts))"
proof -
  have "open_posts E ts = open_posts E (take i ts @ ts ! i # drop (Suc i) ts)"
    using id_take_nth_drop [OF assms] by simp
  then show "mset (open_posts E ts) =
      mset (task_posts E (task_id (ts ! i)) (task_tx (ts ! i)) (task_todo (ts ! i)))
    + mset (open_posts E (take i ts @ drop (Suc i) ts))"
    by (simp del: append_take_drop_id)
qed (simp add: upd_conv_take_nth_drop [OF assms])

lemma task_posts_simps [simp]:
  "task_posts E i tx [] = []"
  "task_posts E i tx (url # urls) = (url, send_raw_request (env_hex E) i tx) # task_posts E i tx urls"
  by (simp_all add: task_posts_def)

lemma accounted_receive:
  assumes "accounted E d subs s got spawned" "acquiring s = None" "queue s = tx # rest"
  shows "accounted E d subs (receive E tx (s\<lparr>queue := rest\<rparr>)) (got @ [tx]) spawned"
  using assms
  by (auto simp: accounted_def receive_def Let_def ntf_of_def done_posts_def filter_state_append
      accepted_txs_append split: prod.split bool.split)

lemma accounted_spawn:
  assumes "accounted E d subs s got spawned" "acquiring s = Some tx"
  shows "accounted E d subs (spawn_task E tx s) got (spawned @ [tx])"
  using assms
  by (auto simp: accounted_def spawn_task_def done_posts_def all_posts_snoc add.commute
      simp flip: union_assoc split: if_splits)

lemma accounted_post:
  assumes "accounted E d subs s got spawned" "i < length (tasks s)" "task_todo (tasks s ! i) = url # rest"
  shows "accounted E d subs (post_next E i url rest r s) got spawned"
  using assms open_posts_update [OF assms(2), of E]
  by (auto simp: accounted_def post_next_def Let_def done_posts_def split: option.splits)

lemma accounted_finish:
  assumes "accounted E d subs s got spawned" "i < length (tasks s)" "task_todo (tasks s ! i) = []"
  shows "accounted E d subs (finish i s) got spawned"
  using assms open_posts_update(1) [OF assms(2), of E]
  by (auto simp: accounted_def finish_def done_posts_def split: option.splits)

lemma accounted_flags:
  "accounted E d subs s got spawned \<Longrightarrow> accounted E d subs (s\<lparr>senders_gone := b\<rparr>) got spawned"
  "accounted E d subs s got spawned \<Longrightarrow> accounted E d subs (s\<lparr>loop_done := b\<rparr>) got spawned"
  by (simp_all add: accounted_def done_posts_def)

lemma accounted_step:
  assumes "fstep E l s t" "accounted E d subs s got spawned"
  shows "\<exists>got' spawned'. accounted E d (subs @ submitted [l]) t got' spawned'"
  using assms
proof (induction rule: fstep.induct)
  case (submit s tx t)
  then have "accounted E d (subs @ [tx]) t got spawned"
    by (auto simp: accounted_def forward_def done_posts_def split: if_splits)
  then show ?case by auto
next
  case (receive s tx rest)
  then show ?case using accounted_receive [OF receive.prems receive.hyps(2,3)] by auto
next
  case (acquire s tx)
  then show ?case using accounted_spawn [OF acquire.prems acquire.hyps(1)] by auto
next
  case (post i s url rest r)
  then show ?case using accounted_post [OF post.prems post.hyps] by auto
next
  case (finish i s)
  then show ?case using accounted_finish [OF finish.prems finish.hyps] by auto
qed (auto intro: accounted_flags)

lemma accounted_runs:
  assumes "runs E ls s t" "s = forwarder_init config d"
  shows "\<exists>got spawned. accounted E d (submitted ls) t got spawned"
  using assms
proof (induction rule: labelled_runs.induct)
  case (runs_nil s)
  then show ?case by (auto intro: accounted_init)
next
  case (runs_snoc ls s t l u)
  then obtain got spawned where "accounted E d (submitted ls) t got spawned" by auto
  from accounted_step [OF runs_snoc.hyps(2) this] show ?case
    by (simp add: submitted_append)
qed

section \<open>Draining\<close>

text \<open>The steps that need nothing from outside but an answer of the HTTP client.\<close>

fun internal :: "label \<Rightarrow> bool" where
  "internal Receive = True"
| "internal Acquire = True"
| "internal (Post _ _) = True"
| "internal (Finish _) = True"
| "internal _ = False"

definition work :: "'d forwarder_env \<Rightarrow> 'd forwarder \<Rightarrow> nat" where
  "work E s =
     (let n = length (endpoints (env_config E))
      in length (queue s) * (n + 3) + (if acquiring s = None then 0 else n + 2)
         + sum_list (map (\<lambda>t. Suc (length (task_todo t))) (tasks s)))"

lemma sum_list_update_at:
  fixes f :: "'t \<Rightarrow> nat"
  assumes "i < length ts"
  shows "sum_list (map f (ts[i := t])) + f (ts ! i) = sum_list (map f ts) + f t"
    and "sum_list (map f (take i ts @ drop (Suc i) ts)) + f (ts ! i) = sum_list (map f ts)"
proof -
  have "map f ts = map f (take i ts) @ f (ts ! i) # map f (drop (Suc i) ts)"
    by (subst id_take_nth_drop [OF assms]) simp
  then have "sum_list (map f ts) = sum_list (map f (take i ts)) + f (ts ! i) + sum_list (map f (drop (Suc i) ts))"
    by simp
  then show "sum_list (map f (ts[i := t])) + f (ts ! i) = sum_list (map f ts) + f t"
    "sum_list (map f (take i ts @ drop (Suc i) ts)) + f (ts ! i) = sum_list (map f ts)"
    by (simp_all add: upd_conv_take_nth_drop [OF assms])
qed

lemma work_decreases: "fstep E l s t \<Longrightarrow> internal l \<Longrightarrow> work E t < work E s"
proof (induction rule: fstep.induct)
  case (receive s tx rest)
  then show ?case
    by (auto simp: work_def receive_def Let_def split: prod.split bool.split)
next
  case (post i s url rest r)
  then show ?case
    using sum_list_update_at(1) [OF post.hyps(1), of "\<lambda>t. Suc (length (task_todo t))" "(tasks s ! i)\<lparr>task_todo := rest\<rparr>"]
    by (simp add: work_def post_next_def Let_def)
next
  case (finish i s)
  then show ?case
    using sum_list_update_at(2) [OF finish.hyps(1), of "\<lambda>t. Suc (length (task_todo t))"]
    by (simp add: work_def finish_def Let_def)
qed (auto simp: work_def spawn_task_def Let_def)

lemma stopped_step:
  "fstep E l s t \<Longrightarrow> (loop_done s \<longrightarrow> queue s = [] \<and> acquiring s = None) \<Longrightarrow>
   loop_done t \<longrightarrow> queue t = [] \<and> acquiring t = None"
  by (induction rule: fstep.induct)
    (auto simp: forward_def receive_def spawn_task_def post_next_def finish_def Let_def
      split: if_splits prod.split bool.split)

lemma stopped_runs:
  "runs E ls s t \<Longrightarrow> (loop_done s \<longrightarrow> queue s = [] \<and> acquiring s = None) \<Longrightarrow>
   loop_done t \<longrightarrow> queue t = [] \<and> acquiring t = None"
  by (induction rule: labelled_runs.induct) (blast dest: stopped_step)+

lemma progress:
  assumes "0 < permits s + length (tasks s)" "loop_done s \<longrightarrow> queue s = [] \<and> acquiring s = None"
    "\<not> quiescent s"
  shows "\<exists>l t. internal l \<and> fstep E l s t"
proof (cases "tasks s")
  case (Cons u us)
  show ?thesis
  proof (cases "task_todo u")
    case Nil
    with Cons have "fstep E (Finish 0) s (finish 0 s)" by (intro fstep.finish) simp_all
    then show ?thesis using internal.simps(4) by blast
  next
    case (Cons url rest)
    with \<open>tasks s = u # us\<close> have "fstep E (Post 0 RequestFailed) s (post_next E 0 url rest RequestFailed s)"
      by (intro fstep.post) simp_all
    then show ?thesis using internal.simps(3) by blast
  qed
next
  case Nil
  show ?thesis
  proof (cases "acquiring s")
    case (Some tx)
    with assms(1) Nil have "fstep E Acquire s (spawn_task E tx s)" by (intro fstep.acquire) simp_all
    then show ?thesis using internal.simps(2) by blast
  next
    case None
    with Nil assms(3) obtain tx rest where "queue s = tx # rest"
      by (cases "queue s") (auto simp: quiescent_def)
    with None assms(2) have "fstep E Receive s (receive E tx (s\<lparr>queue := rest\<rparr>))"
      by (intro fstep.receive) auto
    then show ?thesis using internal.simps(1) by blast
  qed
qed

lemma internal_runs_bounded:
  "runs E ks s t \<Longrightarrow> list_all internal ks \<Longrightarrow> work E t + length ks \<le> work E s"
proof (induction rule: labelled_runs.induct)
  case (runs_snoc ls s t l u)
  then show ?case using work_decreases [OF runs_snoc.hyps(2)] by simp
qed simp

section \<open>Executing steps\<close>

fun exec_step :: "'d forwarder_env \<Rightarrow> label \<Rightarrow> 'd forwarder \<Rightarrow> 'd forwarder option" where
  "exec_step E (Submit tx) s = (if senders_gone s \<or> loop_done s then None else forward E tx s)"
| "exec_step E DropSenders s = Some (s\<lparr>senders_gone := True\<rparr>)"
| "exec_step E Receive s =
     (if loop_done s \<or> acquiring s \<noteq> None then None
      else case queue s of [] \<Rightarrow> None | tx # rest \<Rightarrow> Some (receive E tx (s\<lparr>queue := rest\<rparr>)))"
| "exec_step E Acquire s =
     (case acquiring s of None \<Rightarrow> None
      | Some tx \<Rightarrow> if 0 < permits s then Some (spawn_task E tx s) else None)"
| "exec_step E (Post i r) s =
     (if i < length (tasks s)
      then (case task_todo (tasks s ! i) of [] \<Rightarrow> None | url # rest \<Rightarrow> Some (post_next E i url rest r s))
      else None)"
| "exec_step E (Finish i) s =
     (if i < length (tasks s) \<and> task_todo (tasks s ! i) = [] then Some (finish i s) else None)"
| "exec_step E Stop s =
     (if \<not> loop_done s \<and> acquiring s = None \<and> queue s = [] \<and> senders_gone s
      then Some (s\<lparr>loop_done := True\<rparr>) else None)"

abbreviation exec_run :: "'d forwarder_env \<Rightarrow> label list \<Rightarrow> 'd forwarder \<Rightarrow> 'd forwarder option" where
  "exec_run E \<equiv> exec_list (exec_step E)"

lemma exec_step_iff: "exec_step E l s = Some t \<longleftrightarrow> fstep E l s t"
proof
  show "fstep E l s t \<Longrightarrow> exec_step E l s = Some t"
    by (cases l) (auto elim: fstep_cases)
  show "exec_step E l s = Some t \<Longrightarrow> fstep E l s t"
    by (cases l) (auto split: if_splits option.splits list.splits intro: fstep.intros)
qed

interpretation forwarder_exec: executable_steps "fstep E" "exec_step E" for E
  by unfold_locales (simp add: exec_step_iff)

lemmas exec_run_runs = forwarder_exec.exec_list_runs

section \<open>The forwarder over a lawful filter\<close>

locale forward_filter = tx_filter check recent cap ok
  for check :: "b256 \<Rightarrow> 'd \<Rightarrow> bool \<times> 'd" and recent :: "'d \<Rightarrow> b256 list"
    and cap :: "'d \<Rightarrow> nat" and ok :: "'d \<Rightarrow> bool"
begin

lemma quiescent_once:
  assumes "env_check E = check" "ok d" "recent d = []"
    and "runs E ls (forwarder_init config d) s" "quiescent s"
  shows "let txs = accepted_txs check d (submitted ls)
     in ws_out s = (if env_ws E then map ntf_of txs else [])
      \<and> mset (done_posts s) = mset (all_posts E txs)
      \<and> tx_hash ` set txs = tx_hash ` set (submitted ls)
      \<and> (card (tx_hash ` set (submitted ls)) \<le> cap d \<longrightarrow>
          map tx_hash txs = rev (remdups (rev (map tx_hash (submitted ls)))))"
proof -
  define txs where "txs = accepted_txs check d (submitted ls)"
  obtain got spawned where acc: "accounted E d (submitted ls) s got spawned"
    using accounted_runs [OF assms(4) refl] by blast
  then have "got = submitted ls" using assms(5) by (simp add: accounted_def quiescent_def)
  with acc assms(1,5) have "ws_out s = (if env_ws E then map ntf_of txs else [])"
    "mset (done_posts s) = mset (all_posts E txs)"
    by (auto simp: accounted_def quiescent_def txs_def all_posts_no_endpoints split: if_splits)
  moreover have hashes: "map tx_hash txs = accepted check d (map tx_hash (submitted ls))"
    by (simp add: txs_def map_hash_accepted_txs)
  moreover have "tx_hash ` set txs = tx_hash ` set (submitted ls)"
    using set_accepted [OF assms(2,3), of "map tx_hash (submitted ls)"] hashes by (metis image_set)
  moreover have "card (tx_hash ` set (submitted ls)) \<le> cap d \<Longrightarrow>
      map tx_hash txs = rev (remdups (rev (map tx_hash (submitted ls))))"
    using accepted_within_capacity [OF assms(2,3), of "map tx_hash (submitted ls)"] hashes by simp
  ultimately show ?thesis unfolding Let_def txs_def by blast
qed

end

sublocale dedup_cache \<subseteq>
  fwd: forward_filter "dedup_check L" "dedup_recent L" "\<lambda>d. lru_cap L (cache d)" "\<lambda>d. lru_ok L (cache d)"
  by unfold_locales

context dedup_cache
begin

lemma forwarded_once:
  assumes "tx_dedup_new L (backend_dedup (env_config E)) = Inr d" "env_check E = dedup_check L"
    and "runs E ls (forwarder_init (env_config E) d) s" "quiescent s"
  shows "let txs = accepted_txs (dedup_check L) d (submitted ls)
     in ws_out s = (if env_ws E then map ntf_of txs else [])
      \<and> mset (done_posts s) = mset (all_posts E txs)
      \<and> tx_hash ` set txs = tx_hash ` set (submitted ls)
      \<and> (card (tx_hash ` set (submitted ls)) \<le> cache_size (backend_dedup (env_config E)) \<longrightarrow>
          map tx_hash txs = rev (remdups (rev (map tx_hash (submitted ls)))))"
  using fwd.quiescent_once [OF assms(2) new_state(1,3) [OF assms(1)] assms(3,4)]
  unfolding new_state(2) [OF assms(1)] .

end

text \<open>A run of one transaction over one endpoint, for the witnesses.\<close>

definition sample_env :: "(nat \<times> (b256 \<times> unit) list) tx_dedup forwarder_env" where
  "sample_env =
     \<lparr>env_config = \<lparr>endpoints = [''a''], max_concurrent = 1, buffer_size = 2,
                    backend_dedup = \<lparr>cache_size = 2, config_log_interval = 0\<rparr>\<rparr>,
      env_ws = True, env_check = dedup_check list_lru, env_hex = \<lambda>bs. map (\<lambda>_. CHR ''f'') bs\<rparr>"

definition sample_dedup :: "(nat \<times> (b256 \<times> unit) list) tx_dedup" where
  "sample_dedup = \<lparr>cache = (2, []), stats = \<lparr>total = 0, duplicates = 0, unique = 0\<rparr>, log_interval = 0\<rparr>"

definition sample_run :: "label list" where
  "sample_run =
     [Submit \<lparr>tx_hash = 7, tx_raw = [1]\<rparr>, Submit \<lparr>tx_hash = 7, tx_raw = [1]\<rparr>, Receive, Acquire, Receive,
      Post 0 RequestFailed, Finish 0]"

lemmas sample_eval = sample_env_def sample_dedup_def sample_run_def forwarder_init_def forward_def
  receive_def spawn_task_def post_next_def finish_def dedup_check_def check_and_insert_def
  list_lru_def Let_def touch_def

definition sample_final :: "(nat \<times> (b256 \<times> unit) list) tx_dedup forwarder" where
  "sample_final =
     the (exec_run sample_env sample_run (forwarder_init (env_config sample_env) sample_dedup))"

lemma sample_exec:
  "exec_run sample_env sample_run (forwarder_init (env_config sample_env) sample_dedup) \<noteq> None"
  by (simp add: sample_eval)

lemma sample_runs: "runs sample_env sample_run (forwarder_init (env_config sample_env) sample_dedup) sample_final"
  using sample_exec unfolding sample_final_def by (intro exec_run_runs) auto

lemma sample_new:
  "tx_dedup_new list_lru (backend_dedup (env_config sample_env)) = Inr sample_dedup"
  "env_check sample_env = dedup_check list_lru" "quiescent sample_final"
  by (simp_all add: tx_dedup_new_def sample_final_def quiescent_def sample_eval)

section \<open>Properties of the forwarder\<close>

text \<open>
  C20. However steps interleave, no more than \<open>max_concurrent\<close> forwarding tasks are in flight: the
  free permits and the tasks always add up to it. And the channel never holds more than
  \<open>buffer_size\<close> transactions.
\<close>

theorem forwarder_concurrency:
  assumes "runs E ls (forwarder_init (env_config E) d) s"
  shows "permits s + length (tasks s) = max_concurrent (env_config E)
    \<and> length (queue s) \<le> buffer_size (env_config E)"
  using permits_runs [OF assms] queue_runs [OF assms] by (simp add: forwarder_init_def)

theorem forwarder_concurrency_witness:
  "permits sample_final + length (tasks sample_final) = max_concurrent (env_config sample_env)
   \<and> length (queue sample_final) \<le> buffer_size (env_config sample_env)"
  by (rule forwarder_concurrency [OF sample_runs])

text \<open>
  C1. When nothing is left to do, the transactions the deduplicator let through have each been
  broadcast once to the WebSocket clients, in order, and posted exactly once to every endpoint,
  numbered by the order they were let through, whatever the backends answered; every hash submitted
  is among them, and each only once if no more distinct hashes were submitted than \<open>cache_size\<close>.
\<close>

theorem forwarded_exactly_once:
  assumes "lru_cache L" "tx_dedup_new L (backend_dedup (env_config E)) = Inr d"
    "env_check E = dedup_check L"
    and "runs E ls (forwarder_init (env_config E) d) s" "quiescent s"
  shows "let txs = accepted_txs (dedup_check L) d (submitted ls)
     in ws_out s = (if env_ws E then map ntf_of txs else [])
      \<and> mset (done_posts s) = mset (all_posts E txs)
      \<and> tx_hash ` set txs = tx_hash ` set (submitted ls)
      \<and> (card (tx_hash ` set (submitted ls)) \<le> cache_size (backend_dedup (env_config E)) \<longrightarrow>
          map tx_hash txs = rev (remdups (rev (map tx_hash (submitted ls)))))"
  by (rule dedup_cache.forwarded_once [OF dedup_cache.intro [OF assms(1)] assms(2-5)])

theorem forwarded_exactly_once_witness:
  "mset (done_posts sample_final) =
     {#(''a'', \<lparr>jsonrpc = ''2.0'', rpc_method = ''eth_sendRawTransaction'', params = [''0xf''], rpc_id = 1\<rparr>)#}"
proof -
  have "mset (done_posts sample_final) = mset (all_posts sample_env
      (accepted_txs (dedup_check list_lru) sample_dedup (submitted sample_run)))"
    using forwarded_exactly_once [OF list_cache.lru_cache_axioms sample_new(1,2) sample_runs sample_new(3)]
    unfolding Let_def by blast
  then show ?thesis
    by (simp add: all_posts_def task_posts_def send_raw_request_def sample_eval)
qed

text \<open>
  C13. With at least one permit the forwarder never gets stuck: under every schedule of its internal
  steps and whatever the backends answer, it can go on until nothing is left to do, and it reaches
  that point after at most \<open>work E s\<close> steps.
\<close>

theorem forwarder_drains:
  assumes "0 < max_concurrent (env_config E)" "runs E ls (forwarder_init (env_config E) d) s"
    and "runs E ks s t" "list_all internal ks"
  shows "length ks + work E t \<le> work E s \<and> (quiescent t \<or> (\<exists>l u. internal l \<and> fstep E l t u))"
proof -
  have run: "runs E (ls @ ks) (forwarder_init (env_config E) d) t"
    by (rule labelled_runs_append [OF assms(3,2)])
  have "0 < permits t + length (tasks t)"
    using permits_runs [OF run] assms(1) by (simp add: forwarder_init_def)
  moreover have "loop_done t \<longrightarrow> queue t = [] \<and> acquiring t = None"
    by (rule stopped_runs [OF run]) (simp add: forwarder_init_def)
  ultimately show ?thesis
    using progress [of t E] internal_runs_bounded [OF assms(3,4)] by (metis add.commute)
qed

definition sample_queued :: "(nat \<times> (b256 \<times> unit) list) tx_dedup forwarder" where
  "sample_queued =
     the (exec_run sample_env (take 2 sample_run) (forwarder_init (env_config sample_env) sample_dedup))"

lemma sample_queued_runs:
  "runs sample_env (take 2 sample_run) (forwarder_init (env_config sample_env) sample_dedup) sample_queued"
  "runs sample_env (drop 2 sample_run) sample_queued sample_final"
proof -
  have "exec_run sample_env (take 2 sample_run) (forwarder_init (env_config sample_env) sample_dedup) \<noteq> None"
    by (simp add: sample_eval)
  then show "runs sample_env (take 2 sample_run) (forwarder_init (env_config sample_env) sample_dedup) sample_queued"
    unfolding sample_queued_def by (intro exec_run_runs) auto
  have "exec_run sample_env (drop 2 sample_run) sample_queued = Some sample_final"
    by (simp add: sample_queued_def sample_final_def sample_eval)
  then show "runs sample_env (drop 2 sample_run) sample_queued sample_final"
    by (rule exec_run_runs)
qed

theorem forwarder_drains_witness:
  "length (drop 2 sample_run) + work sample_env sample_final \<le> work sample_env sample_queued
   \<and> (quiescent sample_final \<or> (\<exists>l u. internal l \<and> fstep sample_env l sample_final u))"
  by (rule forwarder_drains [OF _ sample_queued_runs]) (simp_all add: sample_env_def sample_run_def)

lemma no_permits_step:
  assumes "fstep E l s t" "endpoints (env_config E) \<noteq> []"
    and "permits s = 0 \<and> tasks s = [] \<and> posts s = [] \<and> length (ws_out s) \<le> (if acquiring s = None then 0 else 1)"
  shows "permits t = 0 \<and> tasks t = [] \<and> posts t = [] \<and> length (ws_out t) \<le> (if acquiring t = None then 0 else 1)"
  using assms
  by (induction rule: fstep.induct)
    (auto simp: forward_def receive_def Let_def split: if_splits prod.split bool.split)

text \<open>
  C37. A permit is needed: with \<open>max_concurrent = 0\<close>, which the configuration allows, and an
  endpoint, the loop waits for ever with the first transaction let through. Nothing is ever posted
  and at most one transaction reaches the WebSocket clients.
\<close>

theorem no_permits_no_forwarding:
  assumes "max_concurrent (env_config E) = 0" "endpoints (env_config E) \<noteq> []"
    and "runs E ls (forwarder_init (env_config E) d) s"
  shows "posts s = [] \<and> length (ws_out s) \<le> 1"
proof -
  have "permits s = 0 \<and> tasks s = [] \<and> posts s = [] \<and> length (ws_out s) \<le> (if acquiring s = None then 0 else 1)"
    if "runs E ls s0 s" "s0 = forwarder_init (env_config E) d" for s0 s
    using that
  proof (induction rule: labelled_runs.induct)
    case (runs_nil s)
    then show ?case using assms(1) by (simp add: forwarder_init_def)
  next
    case (runs_snoc ls s t l u)
    show ?case by (rule no_permits_step [OF runs_snoc.hyps(2) assms(2) runs_snoc.IH [OF runs_snoc.prems]])
  qed
  from this [OF assms(3) refl] show ?thesis by (auto split: if_splits)
qed

definition stuck_env :: "(nat \<times> (b256 \<times> unit) list) tx_dedup forwarder_env" where
  "stuck_env = sample_env\<lparr>env_config := (env_config sample_env)\<lparr>max_concurrent := 0\<rparr>\<rparr>"

theorem no_permits_no_forwarding_witness:
  "let s = the (exec_run stuck_env (take 3 sample_run) (forwarder_init (env_config stuck_env) sample_dedup))
   in posts s = [] \<and> length (ws_out s) \<le> 1"
  unfolding Let_def
proof (rule no_permits_no_forwarding)
  have "exec_run stuck_env (take 3 sample_run) (forwarder_init (env_config stuck_env) sample_dedup) \<noteq> None"
    by (simp add: stuck_env_def sample_eval)
  then show "runs stuck_env (take 3 sample_run) (forwarder_init (env_config stuck_env) sample_dedup)
      (the (exec_run stuck_env (take 3 sample_run) (forwarder_init (env_config stuck_env) sample_dedup)))"
    by (intro exec_run_runs) auto
qed (simp_all add: stuck_env_def sample_env_def)

lemma str_contains_iff: "str_contains s needle \<longleftrightarrow> (\<exists>xs ys. s = xs @ needle @ ys)"
proof (induction s)
  case (Cons c s)
  have "take (length needle) (c # s) = needle \<longleftrightarrow> (\<exists>ys. c # s = needle @ ys)"
    by (metis append_eq_conv_conj append_take_drop_id)
  moreover have "(\<exists>xs ys. c # s = xs @ needle @ ys) \<longleftrightarrow>
      (\<exists>ys. c # s = needle @ ys) \<or> (\<exists>xs ys. s = xs @ needle @ ys)"
    by (metis append_Cons append_Nil list.exhaust list.inject)
  ultimately show ?case using Cons.IH by simp
qed simp

text \<open>
  A backend's answer counts as accepted exactly if it carries no error or an error whose
  message has \<open>already known\<close> or \<open>already in pool\<close> somewhere in it.
\<close>

lemma classify_accepted:
  "classify r \<in> {ForwardedOk, AlreadyKnown} \<longleftrightarrow>
     (\<exists>resp. r = Response resp
        \<and> (case rpc_error resp of
             None \<Rightarrow> True
           | Some e \<Rightarrow> \<exists>xs ys. error_message e = xs @ ''already known'' @ ys
                                \<or> error_message e = xs @ ''already in pool'' @ ys))"
  by (cases r) (auto simp: classify_def str_contains_iff split: option.split)

end
