(* ===== verification/Sentry_Config.thy ===== *)
theory Sentry_Config
  imports Tx_Forwarder
begin

text \<open>
  \<open>src/config.rs\<close>, \<open>SentryNetworkConfig\<close> of \<open>src/network.rs\<close> and the part of \<open>src/main.rs\<close> that
  chooses the configuration. A parsed TOML file is a tree of optional fields (\<open>..._fields\<close>); the
  \<open>deserialize\<close> functions are what \<open>serde\<close> derives from the attributes: a missing field with a
  default gets it, a missing field without one is an error. Reading the file and parsing TOML are
  arguments.
\<close>

record network_config_file =
  nf_chain_id :: u64
  nf_max_peers :: u32
  nf_p2p_port :: u16
  nf_discovery_port :: u16
  nf_block_cache_size :: nat

record sentry_config =
  network :: network_config_file
  backend :: backend_config
  websocket :: ws_config

record sentry_network_config =
  chain_id :: u64
  max_peers :: u32
  p2p_port :: u16
  discovery_port :: u16
  block_cache_size :: nat

definition default_sentry_network_config :: sentry_network_config where
  "default_sentry_network_config =
     \<lparr>chain_id = 1, max_peers = 50, p2p_port = 30303, discovery_port = 30303, block_cache_size = 256\<rparr>"

definition default_block_cache_size :: nat where "default_block_cache_size = 256"

definition default_chain_id :: u64 where "default_chain_id = 1"

definition default_max_peers :: u32 where "default_max_peers = 50"

definition default_port :: u16 where "default_port = 30303"

definition default_network_config_file :: network_config_file where
  "default_network_config_file =
     \<lparr>nf_chain_id = default_chain_id, nf_max_peers = default_max_peers, nf_p2p_port = default_port,
      nf_discovery_port = default_port, nf_block_cache_size = default_block_cache_size\<rparr>"

definition default_sentry_config :: sentry_config where
  "default_sentry_config =
     \<lparr>network = default_network_config_file, backend = default_backend_config,
      websocket = default_ws_config\<rparr>"

definition network_config_from :: "network_config_file \<Rightarrow> sentry_network_config" where
  "network_config_from cfg =
     \<lparr>chain_id = nf_chain_id cfg, max_peers = nf_max_peers cfg, p2p_port = nf_p2p_port cfg,
      discovery_port = nf_discovery_port cfg, block_cache_size = nf_block_cache_size cfg\<rparr>"

section \<open>Configuration files\<close>

record network_fields =
  f_chain_id :: "u64 option"
  f_max_peers :: "u32 option"
  f_p2p_port :: "u16 option"
  f_discovery_port :: "u16 option"
  f_block_cache_size :: "nat option"

record dedup_fields =
  f_cache_size :: "nat option"
  f_log_interval :: "u64 option"

record backend_fields =
  f_endpoints :: "string list option"
  f_max_concurrent :: "nat option"
  f_buffer_size :: "nat option"
  f_dedup :: "dedup_fields option"

record ws_fields =
  f_enabled :: "bool option"
  f_addr :: "string option"
  f_port :: "u16 option"
  f_capacity :: "nat option"

record config_fields =
  f_network :: "network_fields option"
  f_backend :: "backend_fields option"
  f_websocket :: "ws_fields option"

definition or_default :: "'a option \<Rightarrow> 'a \<Rightarrow> 'a" where
  "or_default x d = (case x of None \<Rightarrow> d | Some y \<Rightarrow> y)"

definition deserialize_network :: "network_fields \<Rightarrow> network_config_file" where
  "deserialize_network f =
     \<lparr>nf_chain_id = or_default (f_chain_id f) default_chain_id,
      nf_max_peers = or_default (f_max_peers f) default_max_peers,
      nf_p2p_port = or_default (f_p2p_port f) default_port,
      nf_discovery_port = or_default (f_discovery_port f) default_port,
      nf_block_cache_size = or_default (f_block_cache_size f) default_block_cache_size\<rparr>"

definition deserialize_dedup :: "dedup_fields \<Rightarrow> dedup_config" where
  "deserialize_dedup f =
     \<lparr>cache_size = or_default (f_cache_size f) default_cache_size,
      config_log_interval = or_default (f_log_interval f) default_log_interval\<rparr>"

definition deserialize_backend :: "backend_fields \<Rightarrow> backend_config option" where
  "deserialize_backend f =
     (case f_endpoints f of
        None \<Rightarrow> None
      | Some urls \<Rightarrow> Some
          \<lparr>endpoints = urls,
           max_concurrent = or_default (f_max_concurrent f) default_max_concurrent,
           buffer_size = or_default (f_buffer_size f) default_buffer_size,
           backend_dedup = (case f_dedup f of None \<Rightarrow> default_dedup_config | Some d \<Rightarrow> deserialize_dedup d)\<rparr>)"

definition deserialize_ws :: "ws_fields \<Rightarrow> ws_config" where
  "deserialize_ws f =
     \<lparr>ws_enabled = or_default (f_enabled f) default_ws_enabled,
      ws_addr = or_default (f_addr f) default_ws_addr,
      ws_port = or_default (f_port f) default_ws_port,
      ws_capacity = or_default (f_capacity f) default_ws_capacity\<rparr>"

definition deserialize_config :: "config_fields \<Rightarrow> sentry_config option" where
  "deserialize_config f =
     (case (case f_backend f of None \<Rightarrow> Some default_backend_config | Some b \<Rightarrow> deserialize_backend b) of
        None \<Rightarrow> None
      | Some b \<Rightarrow> Some
          \<lparr>network = (case f_network f of None \<Rightarrow> default_network_config_file | Some n \<Rightarrow> deserialize_network n),
           backend = b,
           websocket = (case f_websocket f of None \<Rightarrow> default_ws_config | Some w \<Rightarrow> deserialize_ws w)\<rparr>)"

section \<open>The command line\<close>

record 'p cli =
  cli_config :: "'p option"
  cli_port :: u16
  cli_max_peers :: u32
  cli_chain_id :: u64
  cli_backends :: "string list"
  cli_ws_port :: u16
  cli_no_ws :: bool
  cli_data_dir :: 'p
  cli_block_cache_size :: nat

text \<open>The arguments when none is given; \<open>data\<close> is the default data directory.\<close>

definition cli_defaults :: "'p \<Rightarrow> 'p cli" where
  "cli_defaults data =
     \<lparr>cli_config = None, cli_port = 30303, cli_max_peers = 50, cli_chain_id = 1, cli_backends = [],
      cli_ws_port = 8546, cli_no_ws = False, cli_data_dir = data, cli_block_cache_size = 256\<rparr>"

datatype config_error = ConfigReadFailed | ConfigInvalid

definition choose_config ::
    "('p \<Rightarrow> string option) \<Rightarrow> (string \<Rightarrow> config_fields option) \<Rightarrow> 'p cli \<Rightarrow> config_error + sentry_config" where
  "choose_config read_file parse_toml cli =
     (case cli_config cli of
        Some path \<Rightarrow>
          (case read_file path of
             None \<Rightarrow> Inl ConfigReadFailed
           | Some content \<Rightarrow>
               (case Option.bind (parse_toml content) deserialize_config of
                  None \<Rightarrow> Inl ConfigInvalid
                | Some cfg \<Rightarrow> Inr cfg))
      | None \<Rightarrow> Inr
          \<lparr>network = \<lparr>nf_chain_id = cli_chain_id cli, nf_max_peers = cli_max_peers cli,
                      nf_p2p_port = cli_port cli, nf_discovery_port = cli_port cli,
                      nf_block_cache_size = cli_block_cache_size cli\<rparr>,
           backend = (if cli_backends cli = [] then default_backend_config\<lparr>endpoints := []\<rparr>
                      else default_backend_config\<lparr>endpoints := cli_backends cli\<rparr>),
           websocket = default_ws_config\<lparr>ws_enabled := \<not> cli_no_ws cli, ws_port := cli_ws_port cli\<rparr>\<rparr>)"

section \<open>Properties of the configuration\<close>

lemmas default_simps = or_default_def default_sentry_config_def default_network_config_file_def
  default_backend_config_def default_ws_config_def default_dedup_config_def default_cache_size_def
  default_log_interval_def default_max_concurrent_def default_buffer_size_def default_ws_enabled_def
  default_ws_addr_def default_ws_port_def default_ws_capacity_def default_chain_id_def
  default_max_peers_def default_port_def default_block_cache_size_def

text \<open>The value of a field at the end of a path of optional sections.\<close>

definition setting :: "'s option \<Rightarrow> ('s \<Rightarrow> 'a option) \<Rightarrow> 'a \<Rightarrow> 'a" where
  "setting s f d = or_default (Option.bind s f) d"

lemma setting_simps [simp]:
  "setting None f d = d" "setting (Some s) f d = or_default (f s) d"
  by (simp_all add: setting_def or_default_def)

text \<open>
  Every setting of a configuration file is what the file says, or one documented default,
  the same whether the field, its section or the whole file is missing. The only file refused
  (once its types are right) is one with a \<open>[backend]\<close> section without \<open>endpoints\<close>.
\<close>

theorem config_file_settings:
  "deserialize_config f =
     (if \<exists>b. f_backend f = Some b \<and> f_endpoints b = None then None
      else Some
         \<lparr>network = \<lparr>nf_chain_id = setting (f_network f) f_chain_id 1,
                     nf_max_peers = setting (f_network f) f_max_peers 50,
                     nf_p2p_port = setting (f_network f) f_p2p_port 30303,
                     nf_discovery_port = setting (f_network f) f_discovery_port 30303,
                     nf_block_cache_size = setting (f_network f) f_block_cache_size 256\<rparr>,
          backend = \<lparr>endpoints = setting (f_backend f) f_endpoints [''http://localhost:8545''],
                     max_concurrent = setting (f_backend f) f_max_concurrent 64,
                     buffer_size = setting (f_backend f) f_buffer_size 4096,
                     backend_dedup = \<lparr>
                       cache_size = setting (Option.bind (f_backend f) f_dedup) f_cache_size 100000,
                       config_log_interval = setting (Option.bind (f_backend f) f_dedup) f_log_interval 1000\<rparr>\<rparr>,
          websocket = \<lparr>ws_enabled = setting (f_websocket f) f_enabled True,
                       ws_addr = setting (f_websocket f) f_addr ''0.0.0.0'',
                       ws_port = setting (f_websocket f) f_port 8546,
                       ws_capacity = setting (f_websocket f) f_capacity 4096\<rparr>\<rparr>)"
proof -
  have dd: "(case d of None \<Rightarrow> default_dedup_config | Some d \<Rightarrow> deserialize_dedup d) =
      \<lparr>cache_size = setting d f_cache_size 100000, config_log_interval = setting d f_log_interval 1000\<rparr>" for d
    by (cases d) (simp_all add: deserialize_dedup_def default_simps)
  have nn: "(case n of None \<Rightarrow> default_network_config_file | Some n \<Rightarrow> deserialize_network n) =
      \<lparr>nf_chain_id = setting n f_chain_id 1, nf_max_peers = setting n f_max_peers 50,
       nf_p2p_port = setting n f_p2p_port 30303, nf_discovery_port = setting n f_discovery_port 30303,
       nf_block_cache_size = setting n f_block_cache_size 256\<rparr>" for n
    by (cases n) (simp_all add: deserialize_network_def default_simps)
  have ww: "(case w of None \<Rightarrow> default_ws_config | Some w \<Rightarrow> deserialize_ws w) =
      \<lparr>ws_enabled = setting w f_enabled True, ws_addr = setting w f_addr ''0.0.0.0'',
       ws_port = setting w f_port 8546, ws_capacity = setting w f_capacity 4096\<rparr>" for w
    by (cases w) (simp_all add: deserialize_ws_def default_simps)
  show ?thesis
  proof (cases "f_backend f")
    case None
    then show ?thesis
      unfolding deserialize_config_def nn ww by (simp add: default_simps)
  next
    case (Some b)
    then show ?thesis
      unfolding deserialize_config_def deserialize_backend_def dd nn ww
      by (cases b; cases "f_endpoints b") (simp_all add: default_simps setting_def)
  qed
qed

text \<open>
  With \<open>--config\<close> no other argument matters. Without it the node listens and discovers on
  \<open>--port\<close> and forwards to the \<open>--backends\<close> only: started without arguments it has the default
  configuration except that it forwards nowhere, while an empty configuration file forwards to
  \<open>http://localhost:8545\<close>.
\<close>

theorem command_line_config:
  "choose_config read_file parse_toml (cli\<lparr>cli_config := Some path\<rparr>)
     = choose_config read_file parse_toml (cli'\<lparr>cli_config := Some path\<rparr>)
   \<and> (\<exists>cfg. choose_config read_file parse_toml (cli\<lparr>cli_config := None\<rparr>) = Inr cfg
        \<and> nf_p2p_port (network cfg) = cli_port cli \<and> nf_discovery_port (network cfg) = cli_port cli
        \<and> endpoints (backend cfg) = cli_backends cli)
   \<and> choose_config read_file parse_toml (cli_defaults data)
      = Inr (default_sentry_config\<lparr>backend := default_backend_config\<lparr>endpoints := []\<rparr>\<rparr>)
   \<and> deserialize_config \<lparr>f_network = None, f_backend = None, f_websocket = None\<rparr> = Some default_sentry_config"
  by (simp add: choose_config_def cli_defaults_def default_simps deserialize_config_def)

end
