(* ===== verification/Tx_Validator.thy ===== *)
theory Tx_Validator
  imports Sentry_Prelude
begin

text \<open>
  \<open>src/validator.rs\<close>: the stateless transaction validator. \<open>pool_tx\<close> holds what the methods of
  \<open>PoolTransaction\<close> and \<open>alloy_consensus::Transaction\<close> that the code calls return for a
  transaction. \<open>validate_stateless\<close> is the method of that name with its checks in the code's order;
  an error carries the numbers its message prints, \<open>error_text\<close> is the message.
\<close>

definition MAX_TX_GAS_LIMIT :: u64 where
  "MAX_TX_GAS_LIMIT = 30000000"

definition MIN_TX_GAS_LIMIT :: u64 where
  "MIN_TX_GAS_LIMIT = 21000"

record validator_config =
  expected_chain_id :: u64
  max_tx_gas_limit :: u64

definition default_validator_config :: validator_config where
  "default_validator_config =
     \<lparr>expected_chain_id = 1, max_tx_gas_limit = MAX_TX_GAS_LIMIT\<rparr>"

record pool_tx =
  tx_sender :: address
  tx_is_create :: bool
  tx_chain_id :: "u64 option"
  tx_gas_limit :: u64
  tx_max_fee_per_gas :: u128
  tx_max_priority_fee_per_gas :: "u128 option"
  tx_value :: u256
  tx_nonce :: u64

datatype validation_error =
    ContractCreation
  | WrongChainId u64 u64
  | GasLimitTooLow u64 u64
  | GasLimitTooHigh u64 u64
  | PriorityFeeAboveMaxFee u128 u128
  | ZeroGasPrice
  | CostOverflow
  | ZeroSigner
  | MaxNonce

definition show_word :: "'w::len word \<Rightarrow> string" where
  "show_word w = show_nat (unat w)"

fun error_text :: "validation_error \<Rightarrow> string" where
  "error_text ContractCreation = ''contract creation transactions are not allowed''"
| "error_text (WrongChainId e g) =
     ''wrong chain ID: expected '' @ show_word e @ '', got '' @ show_word g"
| "error_text (GasLimitTooLow g m) = ''gas limit too low: '' @ show_word g @ '' < '' @ show_word m"
| "error_text (GasLimitTooHigh g m) = ''gas limit too high: '' @ show_word g @ '' > '' @ show_word m"
| "error_text (PriorityFeeAboveMaxFee p f) =
     ''maxPriorityFeePerGas ('' @ show_word p @ '') > maxFeePerGas ('' @ show_word f @ '')''"
| "error_text ZeroGasPrice = ''gas price is zero''"
| "error_text CostOverflow = ''value + gas cost overflows U256''"
| "error_text ZeroSigner = ''signer is zero address''"
| "error_text MaxNonce = ''nonce is u64::MAX''"

definition validate_stateless :: "validator_config \<Rightarrow> pool_tx \<Rightarrow> validation_error + unit" where
  "validate_stateless config tx =
     (let signer = tx_sender tx; gas_limit = tx_gas_limit tx; max_fee = tx_max_fee_per_gas tx;
          gas_price = max_fee; max_gas_cost = (ucast gas_limit :: u256) * ucast gas_price
      in early (if tx_is_create tx then Some ContractCreation else None)
        (early (case tx_chain_id tx of
             Some c \<Rightarrow> if c \<noteq> expected_chain_id config
                       then Some (WrongChainId (expected_chain_id config) c) else None
           | None \<Rightarrow> None)
        (early (if gas_limit < MIN_TX_GAS_LIMIT
                then Some (GasLimitTooLow gas_limit MIN_TX_GAS_LIMIT) else None)
        (early (if gas_limit > max_tx_gas_limit config
                then Some (GasLimitTooHigh gas_limit (max_tx_gas_limit config)) else None)
        (early (case tx_max_priority_fee_per_gas tx of
             Some p \<Rightarrow> if p > max_fee then Some (PriorityFeeAboveMaxFee p max_fee) else None
           | None \<Rightarrow> None)
        (early (if gas_price = 0 then Some ZeroGasPrice else None)
        (early (if checked_add (tx_value tx) max_gas_cost = None then Some CostOverflow else None)
        (early (if signer = 0 then Some ZeroSigner else None)
        (early (if tx_nonce tx = - 1 then Some MaxNonce else None)
        (Inr ()))))))))))"

text \<open>
  \<open>validate_transaction\<close> and the outcome it returns: the fields of
  \<open>TransactionValidationOutcome::Valid\<close>, or the transaction with the boxed
  \<open>StatelessValidationError\<close>, whose text and \<open>is_bad_transaction\<close> flag the pool reads.
\<close>

record valid_outcome =
  out_balance :: u256
  out_state_nonce :: u64
  out_bytecode_hash :: "b256 option"
  out_transaction :: pool_tx
  out_propagate :: bool
  out_authorities :: "address list option"

datatype stateless_validation_error = StatelessValidationError string

datatype outcome = Valid valid_outcome | Invalid pool_tx stateless_validation_error

fun display_error :: "stateless_validation_error \<Rightarrow> string" where
  "display_error (StatelessValidationError s) = ''stateless validation error: '' @ s"

fun is_bad_transaction :: "stateless_validation_error \<Rightarrow> bool" where
  "is_bad_transaction e = True"

definition validate_transaction :: "validator_config \<Rightarrow> pool_tx \<Rightarrow> outcome" where
  "validate_transaction config tx =
     (case validate_stateless config tx of
        Inr _ \<Rightarrow> Valid \<lparr>out_balance = - 1, out_state_nonce = tx_nonce tx, out_bytecode_hash = None,
                        out_transaction = tx, out_propagate = True, out_authorities = None\<rparr>
      | Inl reason \<Rightarrow> Invalid tx (StatelessValidationError (error_text reason)))"

section \<open>The checks over unbounded numbers\<close>

text \<open>The 256-bit product of a \<open>u64\<close> and a \<open>u128\<close> does not wrap.\<close>

lemma unat_gas_cost:
  "unat ((ucast (g :: u64) :: u256) * ucast (f :: u128)) = unat g * unat f"
proof -
  have "unat g < 2 ^ 64" "unat f < 2 ^ 128"
    using unat_less [of g] unat_less [of f] by simp_all
  then have "unat g * unat f < 2 ^ 64 * 2 ^ 128"
    by (intro mult_strict_mono) simp_all
  then show ?thesis
    by (simp add: unat_word_ariths unat_ucast_up)
qed

lemma cost_overflow_iff:
  "checked_add (v :: u256) (ucast (g :: u64) * ucast (f :: u128)) = None
     \<longleftrightarrow> 2 ^ 256 \<le> unat v + unat g * unat f"
  by (simp add: checked_add_None_iff unat_gas_cost)

text \<open>The rules of stateless validity, over unbounded numbers.\<close>

definition stateless_valid :: "validator_config \<Rightarrow> pool_tx \<Rightarrow> bool" where
  "stateless_valid config tx \<longleftrightarrow>
     \<not> tx_is_create tx
   \<and> (tx_chain_id tx = None \<or> tx_chain_id tx = Some (expected_chain_id config))
   \<and> 21000 \<le> unat (tx_gas_limit tx) \<and> unat (tx_gas_limit tx) \<le> unat (max_tx_gas_limit config)
   \<and> (case tx_max_priority_fee_per_gas tx of None \<Rightarrow> True
      | Some p \<Rightarrow> unat p \<le> unat (tx_max_fee_per_gas tx))
   \<and> 0 < unat (tx_max_fee_per_gas tx)
   \<and> unat (tx_value tx) + unat (tx_gas_limit tx) * unat (tx_max_fee_per_gas tx) < 2 ^ 256
   \<and> tx_sender tx \<noteq> 0
   \<and> unat (tx_nonce tx) < 2 ^ 64 - 1"

lemma word_not_max_iff: "(w :: u64) = - 1 \<longleftrightarrow> \<not> unat w < 2 ^ 64 - 1"
proof -
  have "w = - 1 \<longleftrightarrow> unat w = unat (- 1 :: u64)" by (simp add: word_unat_eq_iff)
  also have "unat (- 1 :: u64) = 2 ^ 64 - 1" by (simp add: unsigned_minus_1_eq_mask mask_eq_exp_minus_1)
  finally show ?thesis using unat_less [of w] by auto
qed

lemma unat_MIN_TX_GAS_LIMIT: "unat MIN_TX_GAS_LIMIT = 21000"
  by (simp add: MIN_TX_GAS_LIMIT_def)

lemmas unbounded_rules =
  cost_overflow_iff word_not_max_iff unat_MIN_TX_GAS_LIMIT word_less_nat_alt not_less unat_gt_0

text \<open>
  C22. The validator accepts a transaction exactly if it satisfies the rules of stateless validity
  read over unbounded integers: the 256-bit arithmetic of the cost check never wraps.
\<close>

theorem validate_stateless_iff:
  "validate_stateless config tx = Inr () \<longleftrightarrow> stateless_valid config tx"
  unfolding validate_stateless_def stateless_valid_def Let_def early_eq_Inr_iff
  by (auto simp: unbounded_rules split: option.splits if_splits)

text \<open>All the rules a transaction violates, in the order in which the code checks them.\<close>

definition violations :: "validator_config \<Rightarrow> pool_tx \<Rightarrow> validation_error list" where
  "violations config tx =
     (if tx_is_create tx then [ContractCreation] else [])
   @ (case tx_chain_id tx of None \<Rightarrow> []
      | Some c \<Rightarrow> if c \<noteq> expected_chain_id config
                 then [WrongChainId (expected_chain_id config) c] else [])
   @ (if unat (tx_gas_limit tx) < 21000 then [GasLimitTooLow (tx_gas_limit tx) 21000] else [])
   @ (if unat (max_tx_gas_limit config) < unat (tx_gas_limit tx)
      then [GasLimitTooHigh (tx_gas_limit tx) (max_tx_gas_limit config)] else [])
   @ (case tx_max_priority_fee_per_gas tx of None \<Rightarrow> []
      | Some p \<Rightarrow> if unat (tx_max_fee_per_gas tx) < unat p
                 then [PriorityFeeAboveMaxFee p (tx_max_fee_per_gas tx)] else [])
   @ (if unat (tx_max_fee_per_gas tx) = 0 then [ZeroGasPrice] else [])
   @ (if 2 ^ 256 \<le> unat (tx_value tx) + unat (tx_gas_limit tx) * unat (tx_max_fee_per_gas tx)
      then [CostOverflow] else [])
   @ (if tx_sender tx = 0 then [ZeroSigner] else [])
   @ (if \<not> unat (tx_nonce tx) < 2 ^ 64 - 1 then [MaxNonce] else [])
   @ []"

definition first_error :: "'e list \<Rightarrow> 'e + unit" where
  "first_error vs = (case vs of [] \<Rightarrow> Inr () | e # _ \<Rightarrow> Inl e)"

lemma first_error_simps:
  "first_error [] = Inr ()"
  "first_error ((if P then [e] else []) @ vs) = early (if P then Some e else None) (first_error vs)"
  "first_error ((case opt of None \<Rightarrow> [] | Some c \<Rightarrow> if Q c then [g c] else []) @ vs) =
     early (case opt of None \<Rightarrow> None | Some c \<Rightarrow> if Q c then Some (g c) else None) (first_error vs)"
  by (auto simp: first_error_def split: option.split)

text \<open>
  C28. The error reported is the first violated rule in the order of the checks, with the
  transaction's own numbers in it; no error is reported when no rule is violated.
\<close>

theorem validate_stateless_first_violation:
  "validate_stateless config tx = first_error (violations config tx)"
proof -
  have gas: "MIN_TX_GAS_LIMIT = 21000" by (simp add: MIN_TX_GAS_LIMIT_def)
  have fee: "unat (tx_max_fee_per_gas tx) = 0 \<longleftrightarrow> tx_max_fee_per_gas tx = 0"
    by (simp add: unat_eq_zero)
  show ?thesis
    unfolding validate_stateless_def violations_def Let_def first_error_simps
      cost_overflow_iff word_not_max_iff fee word_less_nat_alt gas
    by simp
qed

text \<open>
  The outcome given to the pool keeps the transaction unchanged: a valid one comes with its own
  nonce as state nonce, a balance that covers its cost and leave to propagate; any other comes
  with the rendered error and is always flagged as a bad transaction.
\<close>

theorem validate_transaction_outcome:
  "case validate_transaction config tx of
     Valid v \<Rightarrow> stateless_valid config tx \<and> out_transaction v = tx
       \<and> out_state_nonce v = tx_nonce tx \<and> out_propagate v
       \<and> unat (tx_value tx) + unat (tx_gas_limit tx) * unat (tx_max_fee_per_gas tx)
           \<le> unat (out_balance v)
   | Invalid tx' e \<Rightarrow> \<not> stateless_valid config tx \<and> tx' = tx \<and> is_bad_transaction e
       \<and> display_error e = ''stateless validation error: ''
           @ error_text (hd (violations config tx))"
proof (cases "validate_stateless config tx")
  case (Inl e)
  then have "\<not> stateless_valid config tx"
    by (metis Inl_Inr_False validate_stateless_iff)
  moreover have "hd (violations config tx) = e"
    using Inl validate_stateless_first_violation [of config tx] by (auto simp: first_error_def split: list.splits)
  ultimately show ?thesis
    using Inl by (simp add: validate_transaction_def)
next
  case (Inr u)
  then have v: "stateless_valid config tx"
    by (simp add: validate_stateless_iff [symmetric])
  have "unat (- 1 :: u256) = 2 ^ 256 - 1"
    by (simp add: unsigned_minus_1_eq_mask mask_eq_exp_minus_1)
  with v Inr show ?thesis
    by (auto simp: validate_transaction_def stateless_valid_def)
qed

end
