(* ===== verification/Sentry_Network.thy ===== *)
theory Sentry_Network
  imports Block_Import Block_Persist Sentry_Config Tx_Validator
begin

text \<open>
  \<open>src/network.rs\<close>, operation by operation: what \<open>start_sentry_network\<close> builds the network with (the
  validator's configuration, the peer limits, the head), the loops of the tasks it spawns (the
  rebroadcast of new blocks, the loop that hands pending transactions to the forwarder), and the life
  of the block cache from the load at the start to the save at shutdown. Here each loop runs alone: a
  \<open>select!\<close> over a channel and the shutdown token is a list of events, in the order they win.
  \<open>Sentry_Node\<close> has the tasks together. The reth network, its pool and the clock are arguments.
\<close>

section \<open>Set-up\<close>

definition network_validator_config :: "sentry_network_config \<Rightarrow> validator_config" where
  "network_validator_config cfg = default_validator_config\<lparr>expected_chain_id := chain_id cfg\<rparr>"

definition peer_limits :: "sentry_network_config \<Rightarrow> nat \<times> nat option" where
  "peer_limits cfg = (unat (max_peers cfg) div 2, Some (unat (max_peers cfg) div 2))"

record head =
  head_number :: u64
  head_hash :: b256
  head_difficulty :: u256
  head_total_difficulty :: u256
  head_timestamp :: u64

definition mainnet_total_difficulty :: u256 where
  "mainnet_total_difficulty = 58750000000000000000000"

text \<open>The estimate of the current block number, in \<open>u64\<close> arithmetic, which wraps in a release build.\<close>

definition estimated_number :: "u64 \<Rightarrow> u64" where
  "estimated_number now = (now - 1681338455) div 12 + 17034870"

definition initial_head :: "b256 \<Rightarrow> u64 \<Rightarrow> (b256 \<times> 'x header_scheme) option \<Rightarrow> head" where
  "initial_head genesis now latest_block =
     (case latest_block of
        Some (hash, hdr) \<Rightarrow>
          \<lparr>head_number = number hdr, head_hash = hash, head_difficulty = 0,
           head_total_difficulty = mainnet_total_difficulty, head_timestamp = timestamp hdr\<rparr>
      | None \<Rightarrow>
          \<lparr>head_number = estimated_number now, head_hash = genesis, head_difficulty = 0,
           head_total_difficulty = mainnet_total_difficulty, head_timestamp = now\<rparr>)"

text \<open>
  What the network is built with. reth's \<open>MAINNET\<close> (its specification, genesis hash and boot nodes)
  is an argument; the builder is always given this one.
\<close>

record ('chain, 'peer) known_network =
  kn_spec :: 'chain
  kn_genesis_hash :: b256
  kn_boot_nodes :: "'peer list"

record ('chain, 'peer) network_settings =
  listener_port :: u16
  settings_discovery_port :: u16
  peer_config :: "nat \<times> nat option"
  settings_head :: head
  dns_discovery :: bool
  boot_nodes :: "'peer list"
  chain_spec :: 'chain

definition build_network_config ::
    "('chain, 'peer) known_network \<Rightarrow> sentry_network_config \<Rightarrow> u64 \<Rightarrow> (b256 \<times> 'x header_scheme) option
     \<Rightarrow> ('chain, 'peer) network_settings" where
  "build_network_config mainnet cfg now latest_block =
     \<lparr>listener_port = p2p_port cfg, settings_discovery_port = discovery_port cfg,
      peer_config = peer_limits cfg,
      settings_head = initial_head (kn_genesis_hash mainnet) now latest_block,
      dns_discovery = False, boot_nodes = kn_boot_nodes mainnet, chain_spec = kn_spec mainnet\<rparr>"

text \<open>The configured chain reaches the validator only: the network joined is the same for every chain.\<close>

theorem chain_id_only_validates:
  "build_network_config mainnet (cfg\<lparr>chain_id := i\<rparr>) now latest_block =
     build_network_config mainnet cfg now latest_block
   \<and> network_validator_config (cfg\<lparr>chain_id := i\<rparr>) = (network_validator_config cfg)\<lparr>expected_chain_id := i\<rparr>"
  by (simp add: build_network_config_def peer_limits_def network_validator_config_def)

section \<open>Rebroadcasting\<close>

text \<open>
  A block taken from the channel comes with the peers that \<open>get_all_peers\<close> answers for it, \<open>None\<close>
  if that fails. \<open>sent\<close> records the messages handed to \<open>send_eth_message\<close>.
\<close>

datatype ('p, 'x, 'b) rebroadcast_event =
    NewBlock "('x, 'b) new_block_data" "'p list option"
  | RebroadcastShutdown

record ('p, 'x, 'b) rebroadcast_state =
  status :: head
  sent :: "('p \<times> ('x, 'b) new_block_data) list"

definition block_head :: "('x, 'b) new_block_data \<Rightarrow> head" where
  "block_head d =
     \<lparr>head_number = number (nb_header (nbd_block d)), head_hash = nbd_hash d, head_difficulty = 0,
      head_total_difficulty = mainnet_total_difficulty,
      head_timestamp = timestamp (nb_header (nbd_block d))\<rparr>"

definition rebroadcast_one ::
    "('x, 'b) new_block_data \<Rightarrow> 'p list option \<Rightarrow> ('p, 'x, 'b) rebroadcast_state
     \<Rightarrow> ('p, 'x, 'b) rebroadcast_state" where
  "rebroadcast_one d peers s =
     (let s' = s\<lparr>status := block_head d\<rparr>
      in case peers of
          None \<Rightarrow> s'
        | Some ps \<Rightarrow> s'\<lparr>sent := sent s' @ map (\<lambda>p. (p, d)) ps\<rparr>)"

fun rebroadcast_new_blocks ::
    "('p, 'x, 'b) rebroadcast_event list \<Rightarrow> ('p, 'x, 'b) rebroadcast_state
     \<Rightarrow> ('p, 'x, 'b) rebroadcast_state" where
  "rebroadcast_new_blocks [] s = s"
| "rebroadcast_new_blocks (NewBlock d peers # es) s = rebroadcast_new_blocks es (rebroadcast_one d peers s)"
| "rebroadcast_new_blocks (RebroadcastShutdown # es) s = s"

section \<open>Pending transactions\<close>

text \<open>
  A pending hash comes with what the pool has for it then; \<open>encode\<close> is \<open>encoded_2718\<close> of the
  consensus transaction. The result is what is passed to \<open>TxForwarder::forward\<close>.
\<close>

datatype 't pool_event = PendingTx b256 "'t option" | TxShutdown

fun forward_pending :: "('t \<Rightarrow> byte list) \<Rightarrow> 't pool_event list \<Rightarrow> forwardable_tx list" where
  "forward_pending encode [] = []"
| "forward_pending encode (PendingTx hash found # es) =
     (case found of
        Some tx \<Rightarrow> \<lparr>tx_hash = hash, tx_raw = encode tx\<rparr> # forward_pending encode es
      | None \<Rightarrow> forward_pending encode es)"
| "forward_pending encode (TxShutdown # es) = []"

section \<open>The life of the block cache\<close>

text \<open>
  At the start the cache is created and loaded, an error being only logged; while the node runs,
  announcements and requests of peers use it; at shutdown it is saved, an error being only logged.
\<close>

datatype ('x, 'b) node_event =
    Announced "('x, 'b) new_block_event"
  | Requested "('x, 'b) net" eth_request

definition start_cache ::
    "('hh, 'hn, 'nh, 'bh, 'x, 'b) block_lrus \<Rightarrow> ('x, 'b) rlp \<Rightarrow> sentry_network_config \<Rightarrow> disk_file
     \<Rightarrow> ('hh, 'hn, 'nh, 'bh) block_cache" where
  "start_cache B R cfg f = snd (load_from_file B R f (cache_new B (block_cache_size cfg)))"

fun node_step ::
    "('hh, 'hn, 'nh, 'bh, 'x, 'b) block_lrus \<Rightarrow> ('x header_scheme \<Rightarrow> b256) \<Rightarrow> ('x, 'b) node_event
     \<Rightarrow> ('hh, 'hn, 'nh, 'bh) block_cache \<Rightarrow> ('hh, 'hn, 'nh, 'bh) block_cache" where
  "node_step B hash_slow (Announced ev) c = import_cache (on_new_block B ev (block_import_new c))"
| "node_step B hash_slow (Requested net req) c = snd (handle_request (cache_store B) hash_slow net req c)"

fun node_run ::
    "('hh, 'hn, 'nh, 'bh, 'x, 'b) block_lrus \<Rightarrow> ('x header_scheme \<Rightarrow> b256) \<Rightarrow> ('x, 'b) node_event list
     \<Rightarrow> ('hh, 'hn, 'nh, 'bh) block_cache \<Rightarrow> ('hh, 'hn, 'nh, 'bh) block_cache" where
  "node_run B hash_slow [] c = c"
| "node_run B hash_slow (e # es) c = node_run B hash_slow es (node_step B hash_slow e c)"

definition shutdown_cache ::
    "('hh, 'hn, 'nh, 'bh, 'x, 'b) block_lrus \<Rightarrow> ('x, 'b) rlp \<Rightarrow> save_env
     \<Rightarrow> ('hh, 'hn, 'nh, 'bh) block_cache \<Rightarrow> disk_file \<Rightarrow> disk_file" where
  "shutdown_cache B R env c f = snd (save_to_file B R env c f)"

section \<open>Every event is a sequence of cache operations\<close>

text \<open>\<open>evolves B c c'\<close>: \<open>c'\<close> results from \<open>c\<close> by public operations of the cache.\<close>

definition evolves ::
    "('hh, 'hn, 'nh, 'bh, 'x, 'b) block_lrus \<Rightarrow> ('hh, 'hn, 'nh, 'bh) block_cache
     \<Rightarrow> ('hh, 'hn, 'nh, 'bh) block_cache \<Rightarrow> bool" where
  "evolves B c c' \<longleftrightarrow> (\<exists>ops. c' = run_ops B ops c)"

lemma evolves_refl [simp, intro]: "evolves B c c"
  unfolding evolves_def by (rule exI [of _ "[]"]) simp

lemma evolves_trans: "evolves B c d \<Longrightarrow> evolves B d e \<Longrightarrow> evolves B c e"
  unfolding evolves_def by (metis run_ops_append)

lemma evolves_op: "evolves B c (apply_op B op c)"
  unfolding evolves_def by (rule exI [of _ "[op]"]) simp

lemmas evolves_ops =
  evolves_op [of B c "Insert x h b" for B c x h b, simplified]
  evolves_op [of B c "InsertHeader x h" for B c x h, simplified]
  evolves_op [of B c "InsertBody x b" for B c x b, simplified]
  evolves_op [of B c "HeaderByHash x" for B c x, simplified]
  evolves_op [of B c "HeaderByNumber n" for B c n, simplified]
  evolves_op [of B c "BodyByHash x" for B c x, simplified]

lemma evolves_header_walk: "evolves B c (snd (header_walk (cache_store B) d step k current c))"
proof (induction k arbitrary: current c)
  case (Suc k)
  show ?case
  proof (cases current)
    case (Some n)
    obtain r t where rt: "get_header_by_number B n c = (r, t)" by fastforce
    with evolves_ops(5) [of B c n] have "evolves B c t" by simp
    with Suc.IH [of t "next_number d n step"] rt Some show ?thesis
      by (auto simp: case_prod_beta split: option.split intro: evolves_trans)
  qed simp
qed simp

lemma evolves_resolve_headers: "evolves B c (snd (resolve_headers_from_cache (cache_store B) req c))"
  using evolves_trans [OF evolves_ops(4) evolves_header_walk]
  by (cases "start_block req")
    (simp_all add: resolve_headers_from_cache_def Let_def case_prod_beta evolves_header_walk)

lemma evolves_resolve_bodies: "evolves B c (snd (resolve_bodies_from_cache (cache_store B) xs c))"
proof (induction xs arbitrary: c)
  case (Cons x xs)
  show ?case
    using evolves_trans [OF evolves_ops(6) Cons.IH, of c x]
    by (simp add: case_prod_beta split: option.split)
qed simp

lemma evolves_missing: "evolves B c (snd (missing_hashes (cache_store B) xs c))"
proof (induction xs arbitrary: c)
  case (Cons x xs)
  show ?case
    using evolves_trans [OF evolves_ops(6) Cons.IH, of c x] by (simp add: case_prod_beta)
qed simp

lemma evolves_merge: "evolves B c (snd (merge_bodies (cache_store B) xs fetched c))"
proof (induction xs arbitrary: c fetched)
  case (Cons x xs)
  obtain r t where rt: "get_body_by_hash B x c = (r, t)" by fastforce
  with evolves_ops(6) [of B c x] have t: "evolves B c t" by simp
  have "evolves B c (snd (merge_bodies (cache_store B) xs f t))" for f
    by (rule evolves_trans [OF t Cons.IH])
  moreover have "evolves B c (snd (merge_bodies (cache_store B) xs f (cache_insert_body B x b t)))" for f b
    by (rule evolves_trans [OF t evolves_trans [OF evolves_ops(3) Cons.IH]])
  ultimately show ?case
    using rt by (simp add: case_prod_beta split: option.split list.split)
qed simp

lemma evolves_insert_headers: "evolves B c (insert_headers (cache_store B) hash_slow hs c)"
proof (induction hs arbitrary: c)
  case (Cons h hs)
  show ?case
    using evolves_trans [OF evolves_ops(2) Cons.IH, of c "hash_slow h" h] by simp
qed simp

lemma evolves_handle_request: "evolves B c (snd (handle_request (cache_store B) hash_slow net req c))"
proof (cases req)
  case (GetBlockHeaders r)
  then show ?thesis
    using evolves_trans [OF evolves_resolve_headers evolves_insert_headers]
    by (auto simp: handle_headers_def case_prod_beta evolves_resolve_headers split: option.split)
next
  case (GetBlockBodies xs)
  then show ?thesis
    using evolves_trans [OF evolves_resolve_bodies evolves_missing]
      evolves_trans [OF evolves_trans [OF evolves_resolve_bodies evolves_missing] evolves_merge]
    by (auto simp: handle_bodies_def case_prod_beta evolves_resolve_bodies split: option.split)
qed simp_all

lemma evolves_node_run: "evolves B c (node_run B hash_slow es c)"
proof (induction es arbitrary: c)
  case (Cons e es)
  have "evolves B c (node_step B hash_slow e c)"
    by (cases e) (auto simp: on_new_block_def block_import_new_def evolves_handle_request evolves_ops
        split: new_block_event.split)
  from evolves_trans [OF this Cons.IH] show ?case by simp
qed simp

lemma evolves_load: "evolves B c (snd (load_from_file B R f c))"
proof -
  have "evolves B c (load_entries B R k data c)" for k data
    using load_entries_ops [of k B R data c] unfolding evolves_def by blast
  then show ?thesis
    by (auto simp: load_from_file_def Let_def split: disk_file.split prod.split sum.split)
qed

lemma node_history:
  "\<exists>ops. node_run B hash_slow es (start_cache B R cfg f) = run_ops B ops (cache_new B (block_cache_size cfg))"
  using evolves_trans [OF evolves_load evolves_node_run] unfolding evolves_def start_cache_def by blast

section \<open>Restarting\<close>

context block_caches
begin

text \<open>A cache that was just filled with stored blocks has the last of them as its latest block.\<close>

lemma latest_restored:
  assumes "0 < n" "length bs \<le> n" "storable bs"
  shows "latest B (run_ops B (map insert_op bs) (cache_new B n)) =
    (if bs = [] then None else Some (cb_hash (last bs), cb_header (last bs)))"
proof -
  let ?c = "run_ops B (map insert_op bs) (cache_new B n)"
  have iters: "lru_iter (nh_lru B) (hash_by_number ?c) = rev (map (\<lambda>b. (block_number b, cb_hash b)) bs)"
    "lru_iter (hn_lru B) (headers_by_number ?c) = rev (map (\<lambda>b. (block_number b, cb_header b)) bs)"
    using number_caches_restored [OF assms] by (simp_all add: Let_def)
  have sorted: "sorted_wrt (<) (map block_number bs)" by (rule storable_sorted [OF assms(3)])
  then have dist: "distinct (map block_number bs)" by (simp add: strict_sorted_iff)
  have at: "hash_at_number B ?c (block_number b) = Some (cb_hash b)"
    "header_at_number B ?c (block_number b) = Some (cb_header b)" if "b \<in> set bs" for b
    using that dist
    by (simp_all add: hash_at_number_def header_at_number_def lru_view_def iters rev_map [symmetric] comp_def)
  show ?thesis
  proof (cases "bs = []")
    case True
    then show ?thesis using iters by (simp add: latest_def)
  next
    case False
    let ?l = "last bs"
    have l: "?l \<in> set bs" using False by simp
    have sync: "synced B ?c"
      by (rule synced_history) (simp add: list_all_iff insert_op_def)
    have "latest B ?c \<noteq> None"
      using synced_latest_None [OF ok_history sync] at(1) [OF l] by (metis option.distinct(1))
    then obtain x h where xh: "latest B ?c = Some (x, h)" by auto
    obtain m where m: "hash_at_number B ?c m = Some x" "header_at_number B ?c m = Some h"
      "\<forall>m' \<in> dom (hash_at_number B ?c). m' \<le> m"
      by (rule latest_Some [OF ok_history xh])
    have "m \<in> fst ` set (lru_iter (nh_lru B) (hash_by_number ?c))"
      using m(1) unfolding hash_at_number_def lru_view_def
      by (metis domI dom_map_of_conv_image_fst)
    then obtain b where b: "b \<in> set bs" "m = block_number b" unfolding iters by auto
    have "block_number ?l \<le> m" using m(3) at(1) [OF l] by blast
    moreover have "m \<le> block_number ?l"
    proof -
      have "bs = butlast bs @ [?l]" using False by simp
      then have "map block_number bs = map block_number (butlast bs) @ [block_number ?l]"
        by (metis list.simps(8) list.simps(9) map_append)
      then have "\<forall>a \<in> set (butlast bs). block_number a < block_number ?l"
        using sorted by (simp add: sorted_wrt_append)
      moreover have "b \<in> set (butlast bs) \<or> b = ?l"
        using b(1) False by (metis append_butlast_last_id in_set_conv_decomp rotate1.simps(2) set_ConsD set_rotate1)
      ultimately show ?thesis using b(2) by auto
    qed
    ultimately have "m = block_number ?l" by simp
    with m(1,2) at [OF l] xh False show ?thesis by simp
  qed
qed

end

lemma save_then_load:
  assumes "block_caches B" "rlp_roundtrip R" "0 < n" "n < 2 ^ 32"
    and c: "c = run_ops B ops (cache_new B n)"
    and "\<forall>k \<in> set (drain_blocks B c). fits R k"
    and "can_create env" "\<forall>i. write_fault env i = None"
  shows "snd (load_from_file B R (snd (save_to_file B R env c old)) (cache_new B n)) =
      run_ops B (map insert_op (drain_blocks B c)) (cache_new B n)
    \<and> storable (drain_blocks B c) \<and> length (drain_blocks B c) \<le> n"
proof -
  let ?bs = "drain_blocks B c" and ?m = "length (cache_bytes R (drain_blocks B c))"
  have save: "save_to_file B R env c old = (Inr (), Content (take ?m (cache_bytes R ?bs)))"
    by (rule save_to_file_cases [OF assms(7), of B R c old]) (use assms(8) in simp_all)
  have len: "length ?bs \<le> n"
    using block_caches.drain_history(2) [OF assms(1), of ops n]
      block_caches.caps_history [OF assms(1), of n ops] assms(3)
    by (simp add: c caps_are_def effective_capacity_def)
  have st: "storable ?bs"
    unfolding c
    by (rule block_caches.storable_drain [OF assms(1) block_caches.ok_history [OF assms(1)]
          block_caches.headers_history [OF assms(1)]])
  have all: "4 \<le> ?m" "complete_entries R (?m - 4) ?bs = length ?bs"
    by (simp_all add: cache_bytes_def complete_entries_all)
  have fit: "length ?bs < 2 ^ 32" using len assms(4) by simp
  have "min (min (length ?bs) (capacity (cache_new B n))) (complete_entries R (?m - 4) ?bs) = length ?bs"
    using len all(2) by simp
  then show ?thesis
    using load_take [OF assms(2,6) fit, of B ?m "cache_new B n"] all(1) len st unfolding save by simp
qed

section \<open>Properties of the network task\<close>

text \<open>The blocks handled before the shutdown, with the peers known for each.\<close>

fun handled :: "('p, 'x, 'b) rebroadcast_event list \<Rightarrow> (('x, 'b) new_block_data \<times> 'p list option) list" where
  "handled [] = []"
| "handled (NewBlock d peers # es) = (d, peers) # handled es"
| "handled (RebroadcastShutdown # es) = []"

text \<open>
  Until shutdown every new block is sent, in order, exactly once to each peer connected then,
  and to none if the peers are not known; and the announced status is the last block handled,
  whether or not its number is higher than before.
\<close>

theorem rebroadcast_to_every_peer:
  "rebroadcast_new_blocks es s =
     \<lparr>status = (if handled es = [] then status s else block_head (fst (last (handled es)))),
      sent = sent s @ concat (map (\<lambda>(d, peers).
        case peers of None \<Rightarrow> [] | Some ps \<Rightarrow> map (\<lambda>p. (p, d)) ps) (handled es))\<rparr>"
  by (induction es s rule: rebroadcast_new_blocks.induct)
    (auto simp: rebroadcast_one_def Let_def split: option.split)

text \<open>
  Nothing complete is lost over a restart: whatever was announced and requested since the
  start, and whatever file the node started from, after a save without errors the next start
  has in its cache exactly the blocks that were complete (header, hash and body) at the shutdown,
  and takes the highest of them as its head.
\<close>

theorem restart_keeps_blocks:
  assumes "block_caches B" "rlp_roundtrip R" "0 < block_cache_size cfg" "block_cache_size cfg < 2 ^ 32"
    and c: "c = node_run B hash_slow es (start_cache B R cfg f)"
    and "\<forall>k \<in> set (drain_blocks B c). fits R k"
    and "can_create env" "\<forall>i. write_fault env i = None"
  shows "let c' = start_cache B R cfg (shutdown_cache B R env c f) in
      drain_blocks B c' = drain_blocks B c
    \<and> initial_head genesis now (latest B c') =
        initial_head genesis now
          (if drain_blocks B c = [] then None
           else Some (cb_hash (last (drain_blocks B c)), cb_header (last (drain_blocks B c))))"
proof -
  obtain ops where "c = run_ops B ops (cache_new B (block_cache_size cfg))"
    using node_history [of B hash_slow es R cfg f] unfolding c by blast
  note load = save_then_load [OF assms(1-4) this assms(6-8), of f]
  then have c': "start_cache B R cfg (shutdown_cache B R env c f) =
      run_ops B (map insert_op (drain_blocks B c)) (cache_new B (block_cache_size cfg))"
    by (simp add: start_cache_def shutdown_cache_def)
  show ?thesis
    using block_caches.drain_restored [OF assms(1,3)] block_caches.latest_restored [OF assms(1,3)] load
    unfolding Let_def c' by simp
qed

definition sample_net_config :: sentry_network_config where
  "sample_net_config = default_sentry_network_config\<lparr>block_cache_size := 2\<rparr>"

theorem restart_keeps_blocks_witness:
  "let c = node_run list_lrus (\<lambda>_. 0)
         [Announced (BlockEvent 7 \<lparr>nb_header = \<lparr>number = 5, timestamp = 60\<rparr>, nb_body = [3]\<rparr>),
          Announced (BlockEvent 8 \<lparr>nb_header = \<lparr>number = 4, timestamp = 48\<rparr>, nb_body = [1, 2]\<rparr>)]
         (start_cache list_lrus plain_rlp sample_net_config Absent);
       c' = start_cache list_lrus plain_rlp sample_net_config
         (shutdown_cache list_lrus plain_rlp \<lparr>can_create = True, write_fault = \<lambda>_. None\<rparr> c Absent)
   in drain_blocks list_lrus c' = drain_blocks list_lrus c \<and> drain_blocks list_lrus c \<noteq> []"
proof -
  let ?c = "node_run list_lrus (\<lambda>_. 0)
      [Announced (BlockEvent 7 \<lparr>nb_header = \<lparr>number = 5, timestamp = 60\<rparr>, nb_body = [3]\<rparr>),
       Announced (BlockEvent 8 \<lparr>nb_header = \<lparr>number = 4, timestamp = 48\<rparr>, nb_body = [1, 2]\<rparr>)]
      (start_cache list_lrus plain_rlp sample_net_config Absent)"
  have drain: "drain_blocks list_lrus ?c =
      [\<lparr>cb_hash = 8, cb_header = \<lparr>number = 4, timestamp = 48\<rparr>, cb_body = [1, 2]\<rparr>,
       \<lparr>cb_hash = 7, cb_header = \<lparr>number = 5, timestamp = 60\<rparr>, cb_body = [3]\<rparr>]"
    by (simp add: cache_eval start_cache_def load_from_file_def on_new_block_def block_import_new_def
        sample_net_config_def default_sentry_network_config_def)
  have "drain_blocks list_lrus (start_cache list_lrus plain_rlp sample_net_config
      (shutdown_cache list_lrus plain_rlp \<lparr>can_create = True, write_fault = \<lambda>_. None\<rparr> ?c Absent))
    = drain_blocks list_lrus ?c"
    using restart_keeps_blocks [OF list_blocks.block_caches_axioms plain_rlp_roundtrip _ _ refl,
        of sample_net_config "\<lambda>_. 0"
          "[Announced (BlockEvent 7 \<lparr>nb_header = \<lparr>number = 5, timestamp = 60\<rparr>, nb_body = [3]\<rparr>),
            Announced (BlockEvent 8 \<lparr>nb_header = \<lparr>number = 4, timestamp = 48\<rparr>, nb_body = [1, 2]\<rparr>)]"
          Absent "\<lparr>can_create = True, write_fault = \<lambda>_. None\<rparr>"]
    unfolding drain
    by (simp add: Let_def fits_def plain_rlp_def sample_net_config_def)
  then show ?thesis unfolding Let_def using drain by simp
qed

text \<open>
  C40. The estimated head advances by one block every twelve seconds from the anchor on, without
  overflow. But before the anchor (a clock more than a little wrong) the subtraction wraps and the
  estimate is above \<open>2 ^ 60\<close>.
\<close>

theorem estimated_number_value:
  "if 1681338455 \<le> unat now
   then unat (estimated_number now) = 17034870 + (unat now - 1681338455) div 12
   else 2 ^ 60 < unat (estimated_number now)"
proof -
  have lt: "unat now < 2 ^ 64" using unat_less [of now] by simp
  have div: "unat (w div 12) = unat w div 12" for w :: u64
    by (simp add: unat_div)
  show ?thesis
  proof (cases "1681338455 \<le> unat now")
    case True
    then have "unat (now - 1681338455) = unat now - 1681338455"
      by (subst unat_sub) (simp_all add: word_le_nat_alt)
    moreover have "17034870 + (unat now - 1681338455) div 12 < 2 ^ 64"
      using lt by simp
    ultimately show ?thesis
      using True by (simp add: estimated_number_def unat_word_ariths div)
  next
    case False
    then have "unat (now - 1681338455) = 2 ^ 64 + unat now - 1681338455"
      by (simp add: unat_sub_if' word_le_nat_alt)
    moreover have "17034870 + (2 ^ 64 + unat now - 1681338455) div 12 < 2 ^ 64"
      using lt by simp
    ultimately show ?thesis
      using False by (simp add: estimated_number_def unat_word_ariths div)
  qed
qed

end
