(* ===== verification/Eth_Steps.thy ===== *)
theory Eth_Steps
  imports Eth_Proxy
begin

text \<open>
  \<open>src/eth_proxy.rs\<close> step by step: between two calls on the shared cache the mutex is free, and while
  the handler awaits the network every other task runs. \<open>prog\<close> is the handler's code as a tree of
  these calls, with a continuation for what each returns; \<open>handle_request_p\<close> is
  \<open>handle_request\<close> written so. \<open>run_env\<close> runs a program while other tasks use the cache between its
  steps, \<open>hstep\<close> is one of its steps.
\<close>

datatype ('x, 'b, 'r) prog =
    Return 'r
  | HeaderByHashP b256 "'x header_scheme option \<Rightarrow> ('x, 'b, 'r) prog"
  | HeaderByNumberP u64 "'x header_scheme option \<Rightarrow> ('x, 'b, 'r) prog"
  | BodyByHashP b256 "'b option \<Rightarrow> ('x, 'b, 'r) prog"
  | InsertHeaderP b256 "'x header_scheme" "('x, 'b, 'r) prog"
  | InsertBodyP b256 'b "('x, 'b, 'r) prog"
  | FetchHeadersP headers_request "'x header_scheme list option \<Rightarrow> ('x, 'b, 'r) prog"
  | FetchBodiesP "b256 list" "'b list option \<Rightarrow> ('x, 'b, 'r) prog"

section \<open>The handler's code\<close>

fun header_walk_p ::
    "direction \<Rightarrow> u64 \<Rightarrow> nat \<Rightarrow> u64 option \<Rightarrow> ('x header_scheme list \<Rightarrow> ('x, 'b, 'r) prog)
     \<Rightarrow> ('x, 'b, 'r) prog" where
  "header_walk_p d step 0 current k = k []"
| "header_walk_p d step (Suc n) current k =
     (case current of
        None \<Rightarrow> k []
      | Some num \<Rightarrow> HeaderByNumberP num (\<lambda>r.
          case r of
            None \<Rightarrow> k []
          | Some h \<Rightarrow> header_walk_p d step n (next_number d num step) (\<lambda>hs. k (h # hs))))"

definition resolve_headers_p ::
    "get_block_headers \<Rightarrow> ('x header_scheme list \<Rightarrow> ('x, 'b, 'r) prog) \<Rightarrow> ('x, 'b, 'r) prog" where
  "resolve_headers_p req k =
     (let step = (ucast (skip req) :: u64) + 1;
          walk = (\<lambda>current. header_walk_p (dir req) step (unat (limit req)) current k)
      in case start_block req of
          Number n \<Rightarrow> walk (Some n)
        | Hash x \<Rightarrow> HeaderByHashP x (\<lambda>r. walk (map_option number r)))"

fun resolve_bodies_p :: "b256 list \<Rightarrow> ('b list \<Rightarrow> ('x, 'b, 'r) prog) \<Rightarrow> ('x, 'b, 'r) prog" where
  "resolve_bodies_p [] k = k []"
| "resolve_bodies_p (x # xs) k = BodyByHashP x (\<lambda>r. resolve_bodies_p xs (\<lambda>bs.
     case r of Some b \<Rightarrow> k (b # bs) | None \<Rightarrow> k bs))"

fun missing_hashes_p :: "b256 list \<Rightarrow> (b256 list \<Rightarrow> ('x, 'b, 'r) prog) \<Rightarrow> ('x, 'b, 'r) prog" where
  "missing_hashes_p [] k = k []"
| "missing_hashes_p (x # xs) k = BodyByHashP x (\<lambda>r. missing_hashes_p xs (\<lambda>ms.
     if r = None then k (x # ms) else k ms))"

fun merge_bodies_p ::
    "b256 list \<Rightarrow> 'b list \<Rightarrow> ('b list \<Rightarrow> ('x, 'b, 'r) prog) \<Rightarrow> ('x, 'b, 'r) prog" where
  "merge_bodies_p [] fetched k = k []"
| "merge_bodies_p (x # xs) fetched k = BodyByHashP x (\<lambda>r.
     case r of
       Some b \<Rightarrow> merge_bodies_p xs fetched (\<lambda>bs. k (b # bs))
     | None \<Rightarrow>
         (case fetched of
            [] \<Rightarrow> merge_bodies_p xs [] k
          | b # rest \<Rightarrow> InsertBodyP x b (merge_bodies_p xs rest (\<lambda>bs. k (b # bs)))))"

fun insert_headers_p ::
    "('x header_scheme \<Rightarrow> b256) \<Rightarrow> 'x header_scheme list \<Rightarrow> ('x, 'b, 'r) prog \<Rightarrow> ('x, 'b, 'r) prog" where
  "insert_headers_p hash_slow [] p = p"
| "insert_headers_p hash_slow (h # hs) p = InsertHeaderP (hash_slow h) h (insert_headers_p hash_slow hs p)"

type_synonym ('x, 'b) handler = "('x, 'b, ('x, 'b) eth_response option) prog"

definition handle_headers_p ::
    "('x header_scheme \<Rightarrow> b256) \<Rightarrow> get_block_headers \<Rightarrow> ('x, 'b) handler" where
  "handle_headers_p hash_slow req =
     resolve_headers_p req (\<lambda>hs.
       if hs \<noteq> [] then Return (Some (BlockHeaders hs))
       else FetchHeadersP \<lparr>hr_start = start_block req, hr_limit = limit req, hr_direction = dir req\<rparr> (\<lambda>r.
         case r of
           Some fetched \<Rightarrow> insert_headers_p hash_slow fetched (Return (Some (BlockHeaders fetched)))
         | None \<Rightarrow> Return (Some (BlockHeaders []))))"

definition handle_bodies_p :: "b256 list \<Rightarrow> ('x, 'b) handler" where
  "handle_bodies_p hashes =
     resolve_bodies_p hashes (\<lambda>bodies.
       if length bodies = length hashes \<and> 0 < length hashes then Return (Some (BlockBodies bodies))
       else missing_hashes_p hashes (\<lambda>missing.
         if missing = [] then Return (Some (BlockBodies bodies))
         else FetchBodiesP missing (\<lambda>r.
           case r of
             Some fetched \<Rightarrow> merge_bodies_p hashes fetched (\<lambda>all. Return (Some (BlockBodies all)))
           | None \<Rightarrow> Return (Some (BlockBodies bodies)))))"

fun handle_request_p :: "('x header_scheme \<Rightarrow> b256) \<Rightarrow> eth_request \<Rightarrow> ('x, 'b) handler" where
  "handle_request_p hash_slow (GetBlockHeaders req) = handle_headers_p hash_slow req"
| "handle_request_p hash_slow (GetBlockBodies hashes) = handle_bodies_p hashes"
| "handle_request_p hash_slow GetNodeData = Return None"
| "handle_request_p hash_slow GetReceipts = Return (Some EmptyReceipts)"
| "handle_request_p hash_slow GetReceipts69 = Return (Some EmptyReceipts69)"
| "handle_request_p hash_slow GetReceipts70 = Return (Some (EmptyReceipts70 False))"
| "handle_request_p hash_slow GetBlockAccessLists = Return (Some EmptyBlockAccessLists)"

section \<open>Running a program\<close>

text \<open>
  One step of the handler. What the network answers is not determined.
\<close>

inductive hstep ::
    "('s, 'x, 'b) store_ops \<Rightarrow> ('x, 'b, 'r) prog \<Rightarrow> 's \<Rightarrow> ('x, 'b, 'r) prog \<Rightarrow> 's \<Rightarrow> bool"
  for S :: "('s, 'x, 'b) store_ops" where
  by_hash: "st_header_by_hash S x s = (r, t) \<Longrightarrow> hstep S (HeaderByHashP x k) s (k r) t"
| by_number: "st_header_by_number S n s = (r, t) \<Longrightarrow> hstep S (HeaderByNumberP n k) s (k r) t"
| body: "st_body_by_hash S x s = (r, t) \<Longrightarrow> hstep S (BodyByHashP x k) s (k r) t"
| insert_header: "hstep S (InsertHeaderP x h p) s p (st_insert_header S x h s)"
| insert_body: "hstep S (InsertBodyP x b p) s p (st_insert_body S x b s)"
| fetch_headers: "hstep S (FetchHeadersP q k) s (k r) s"
| fetch_bodies: "hstep S (FetchBodiesP q k) s (k r) s"

inductive_cases hstep_cases:
  "hstep S (Return r) s p t" "hstep S (HeaderByHashP x k) s p t" "hstep S (HeaderByNumberP n k) s p t"
  "hstep S (BodyByHashP x k) s p t" "hstep S (InsertHeaderP x h q) s p t"
  "hstep S (InsertBodyP x b q) s p t" "hstep S (FetchHeadersP q k) s p t"
  "hstep S (FetchBodiesP ms k) s p t"

inductive_simps hstep_simps:
  "hstep S (Return r) s p t" "hstep S (HeaderByHashP x k) s p t" "hstep S (HeaderByNumberP n k) s p t"
  "hstep S (BodyByHashP x k) s p t" "hstep S (InsertHeaderP x h q) s p t"
  "hstep S (InsertBodyP x b q) s p t" "hstep S (FetchHeadersP q k) s p t"
  "hstep S (FetchBodiesP ms k) s p t"

text \<open>The same step as a function, for a network that answers as \<open>net\<close> says.\<close>

fun prog_step ::
    "('s, 'x, 'b) store_ops \<Rightarrow> ('x, 'b) net \<Rightarrow> ('x, 'b, 'r) prog \<Rightarrow> 's \<Rightarrow> (('x, 'b, 'r) prog \<times> 's) option" where
  "prog_step S net (Return r) s = None"
| "prog_step S net (HeaderByHashP x k) s = (case st_header_by_hash S x s of (r, t) \<Rightarrow> Some (k r, t))"
| "prog_step S net (HeaderByNumberP n k) s = (case st_header_by_number S n s of (r, t) \<Rightarrow> Some (k r, t))"
| "prog_step S net (BodyByHashP x k) s = (case st_body_by_hash S x s of (r, t) \<Rightarrow> Some (k r, t))"
| "prog_step S net (InsertHeaderP x h p) s = Some (p, st_insert_header S x h s)"
| "prog_step S net (InsertBodyP x b p) s = Some (p, st_insert_body S x b s)"
| "prog_step S net (FetchHeadersP q k) s = Some (k (fetch_headers net q), s)"
| "prog_step S net (FetchBodiesP ms k) s = Some (k (fetch_bodies net ms), s)"

lemma prog_step_hstep: "prog_step S net p s = Some (q, t) \<Longrightarrow> hstep S p s q t"
  by (cases p) (auto intro: hstep.intros split: prod.splits)

text \<open>
  A whole run: before its \<open>i\<close>-th step the other tasks change the store by \<open>env i\<close>; the network
  answers as \<open>net\<close> says.
\<close>

primrec run_env ::
    "('s, 'x, 'b) store_ops \<Rightarrow> ('x, 'b) net \<Rightarrow> (nat \<Rightarrow> 's \<Rightarrow> 's) \<Rightarrow> ('x, 'b, 'r) prog \<Rightarrow> nat \<Rightarrow> 's \<Rightarrow> 'r \<times> 's"
  where
  "run_env S net env (Return r) i s = (r, env i s)"
| "run_env S net env (HeaderByHashP x k) i s =
     (let rt = st_header_by_hash S x (env i s) in run_env S net env (k (fst rt)) (Suc i) (snd rt))"
| "run_env S net env (HeaderByNumberP n k) i s =
     (let rt = st_header_by_number S n (env i s) in run_env S net env (k (fst rt)) (Suc i) (snd rt))"
| "run_env S net env (BodyByHashP x k) i s =
     (let rt = st_body_by_hash S x (env i s) in run_env S net env (k (fst rt)) (Suc i) (snd rt))"
| "run_env S net env (InsertHeaderP x h p) i s =
     run_env S net env p (Suc i) (st_insert_header S x h (env i s))"
| "run_env S net env (InsertBodyP x b p) i s =
     run_env S net env p (Suc i) (st_insert_body S x b (env i s))"
| "run_env S net env (FetchHeadersP q k) i s = run_env S net env (k (fetch_headers net q)) (Suc i) (env i s)"
| "run_env S net env (FetchBodiesP ms k) i s = run_env S net env (k (fetch_bodies net ms)) (Suc i) (env i s)"

text \<open>Without interference the number of the step does not matter.\<close>

abbreviation undisturbed :: "nat \<Rightarrow> 's \<Rightarrow> 's" where
  "undisturbed \<equiv> \<lambda>_ s. s"

lemma run_undisturbed_shift: "run_env S net undisturbed p i s = run_env S net undisturbed p j s"
proof (induction p arbitrary: i j s)
  case (HeaderByHashP x k)
  show ?case by (simp only: run_env.simps Let_def) (rule HeaderByHashP.IH [OF rangeI])
next
  case (HeaderByNumberP n k)
  show ?case by (simp only: run_env.simps Let_def) (rule HeaderByNumberP.IH [OF rangeI])
next
  case (BodyByHashP x k)
  show ?case by (simp only: run_env.simps Let_def) (rule BodyByHashP.IH [OF rangeI])
next
  case (InsertHeaderP x h p)
  show ?case by (simp only: run_env.simps) (rule InsertHeaderP.IH)
next
  case (InsertBodyP x b p)
  show ?case by (simp only: run_env.simps) (rule InsertBodyP.IH)
next
  case (FetchHeadersP q k)
  show ?case by (simp only: run_env.simps) (rule FetchHeadersP.IH [OF rangeI])
next
  case (FetchBodiesP q k)
  show ?case by (simp only: run_env.simps) (rule FetchBodiesP.IH [OF rangeI])
qed simp

text \<open>An undisturbed run, and what each part of the handler does in one.\<close>

definition run_prog ::
    "('s, 'x, 'b) store_ops \<Rightarrow> ('x, 'b) net \<Rightarrow> ('x, 'b, 'r) prog \<Rightarrow> 's \<Rightarrow> 'r \<times> 's" where
  "run_prog S net p s = run_env S net undisturbed p 0 s"

lemma run_prog_simps [simp]:
  "run_prog S net (Return r) s = (r, s)"
  "run_prog S net (HeaderByHashP x kh) s =
     run_prog S net (kh (fst (st_header_by_hash S x s))) (snd (st_header_by_hash S x s))"
  "run_prog S net (HeaderByNumberP n kh) s =
     run_prog S net (kh (fst (st_header_by_number S n s))) (snd (st_header_by_number S n s))"
  "run_prog S net (BodyByHashP x kb) s =
     run_prog S net (kb (fst (st_body_by_hash S x s))) (snd (st_body_by_hash S x s))"
  "run_prog S net (InsertHeaderP x h p) s = run_prog S net p (st_insert_header S x h s)"
  "run_prog S net (InsertBodyP x b p) s = run_prog S net p (st_insert_body S x b s)"
  "run_prog S net (FetchHeadersP q kf) s = run_prog S net (kf (fetch_headers net q)) s"
  "run_prog S net (FetchBodiesP ms kg) s = run_prog S net (kg (fetch_bodies net ms)) s"
  unfolding run_prog_def
  by (simp_all add: Let_def run_undisturbed_shift [of S net _ "Suc 0" _ 0])

lemma run_header_walk_p:
  "run_prog S net (header_walk_p d step n current k) s =
     run_prog S net (k (fst (header_walk S d step n current s))) (snd (header_walk S d step n current s))"
  by (induction n arbitrary: current k s) (auto simp: case_prod_beta split: option.split)

lemma run_resolve_headers_p:
  "run_prog S net (resolve_headers_p req k) s =
     run_prog S net (k (fst (resolve_headers_from_cache S req s))) (snd (resolve_headers_from_cache S req s))"
  by (cases "start_block req")
    (simp_all add: resolve_headers_p_def resolve_headers_from_cache_def run_header_walk_p Let_def case_prod_beta)

lemma run_resolve_bodies_p:
  "run_prog S net (resolve_bodies_p xs k) s =
     run_prog S net (k (fst (resolve_bodies_from_cache S xs s))) (snd (resolve_bodies_from_cache S xs s))"
  by (induction xs arbitrary: k s) (auto simp: case_prod_beta split: option.split)

lemma run_missing_hashes_p:
  "run_prog S net (missing_hashes_p xs k) s =
     run_prog S net (k (fst (missing_hashes S xs s))) (snd (missing_hashes S xs s))"
  by (induction xs arbitrary: k s) (simp_all add: case_prod_beta)

lemma run_merge_bodies_p:
  "run_prog S net (merge_bodies_p xs fetched k) s =
     run_prog S net (k (fst (merge_bodies S xs fetched s))) (snd (merge_bodies S xs fetched s))"
  by (induction xs arbitrary: fetched k s) (auto simp: case_prod_beta split: option.split list.split)

lemma run_insert_headers_p:
  "run_prog S net (insert_headers_p hash_slow hs p) s = run_prog S net p (insert_headers S hash_slow hs s)"
  by (induction hs arbitrary: s) simp_all

lemmas run_parts = run_resolve_headers_p run_resolve_bodies_p run_missing_hashes_p run_merge_bodies_p
  run_insert_headers_p

lemma run_handle_request_p:
  "run_prog S net (handle_request_p hash_slow req) s = handle_request S hash_slow net req s"
proof (cases req)
  case (GetBlockHeaders r)
  then show ?thesis
    by (simp add: handle_headers_p_def handle_headers_def run_parts case_prod_beta split: option.split)
next
  case (GetBlockBodies xs)
  then show ?thesis
    by (simp add: handle_bodies_p_def handle_bodies_def run_parts case_prod_beta split: option.split)
qed simp_all

section \<open>What every run of a program does\<close>

text \<open>
  \<open>hsteps S k p q\<close>: \<open>k\<close> steps lead from \<open>p\<close> to \<open>q\<close>; between any two of them the store may change
  in any way.
\<close>

inductive hsteps ::
    "('s, 'x, 'b) store_ops \<Rightarrow> nat \<Rightarrow> ('x, 'b, 'r) prog \<Rightarrow> ('x, 'b, 'r) prog \<Rightarrow> bool"
  for S :: "('s, 'x, 'b) store_ops" where
  hsteps_nil: "hsteps S 0 p p"
| hsteps_step: "hstep S p s q t \<Longrightarrow> hsteps S k q r \<Longrightarrow> hsteps S (Suc k) p r"

text \<open>
  Three properties of all runs, by recursion on the program: what it returns, how many steps it
  makes at most, and that it stores headers under their own hash only.
\<close>

primrec returns :: "('r \<Rightarrow> bool) \<Rightarrow> ('x, 'b, 'r) prog \<Rightarrow> bool" where
  "returns P (Return r) = P r"
| "returns P (HeaderByHashP x k) = (\<forall>r. returns P (k r))"
| "returns P (HeaderByNumberP n k) = (\<forall>r. returns P (k r))"
| "returns P (BodyByHashP x k) = (\<forall>r. returns P (k r))"
| "returns P (InsertHeaderP x h p) = returns P p"
| "returns P (InsertBodyP x b p) = returns P p"
| "returns P (FetchHeadersP q k) = (\<forall>r. returns P (k r))"
| "returns P (FetchBodiesP ms k) = (\<forall>r. returns P (k r))"

primrec within :: "('x, 'b, 'r) prog \<Rightarrow> nat \<Rightarrow> bool" where
  "within (Return r) n = True"
| "within (HeaderByHashP x k) n = (0 < n \<and> (\<forall>r. within (k r) (n - 1)))"
| "within (HeaderByNumberP m k) n = (0 < n \<and> (\<forall>r. within (k r) (n - 1)))"
| "within (BodyByHashP x k) n = (0 < n \<and> (\<forall>r. within (k r) (n - 1)))"
| "within (InsertHeaderP x h p) n = (0 < n \<and> within p (n - 1))"
| "within (InsertBodyP x b p) n = (0 < n \<and> within p (n - 1))"
| "within (FetchHeadersP q k) n = (0 < n \<and> (\<forall>r. within (k r) (n - 1)))"
| "within (FetchBodiesP ms k) n = (0 < n \<and> (\<forall>r. within (k r) (n - 1)))"

primrec stores_honestly :: "('x header_scheme \<Rightarrow> b256) \<Rightarrow> ('x, 'b, 'r) prog \<Rightarrow> bool" where
  "stores_honestly hash_slow (Return r) = True"
| "stores_honestly hash_slow (HeaderByHashP x k) = (\<forall>r. stores_honestly hash_slow (k r))"
| "stores_honestly hash_slow (HeaderByNumberP n k) = (\<forall>r. stores_honestly hash_slow (k r))"
| "stores_honestly hash_slow (BodyByHashP x k) = (\<forall>r. stores_honestly hash_slow (k r))"
| "stores_honestly hash_slow (InsertHeaderP x h p) = (hash_slow h = x \<and> stores_honestly hash_slow p)"
| "stores_honestly hash_slow (InsertBodyP x b p) = stores_honestly hash_slow p"
| "stores_honestly hash_slow (FetchHeadersP q k) = (\<forall>r. stores_honestly hash_slow (k r))"
| "stores_honestly hash_slow (FetchBodiesP ms k) = (\<forall>r. stores_honestly hash_slow (k r))"

lemma hstep_keeps:
  assumes "hstep S p s q t"
  shows "returns P p \<Longrightarrow> returns P q" "stores_honestly hash_slow p \<Longrightarrow> stores_honestly hash_slow q"
    "within p n \<Longrightarrow> 0 < n \<and> within q (n - 1)"
  using assms by (induction rule: hstep.induct) simp_all

lemma hsteps_keeps:
  assumes "hsteps S k p q"
  shows "returns P p \<Longrightarrow> returns P q" "stores_honestly hash_slow p \<Longrightarrow> stores_honestly hash_slow q"
    "within p n \<Longrightarrow> k \<le> n \<and> within q (n - k)"
  using assms
proof (induction arbitrary: n rule: hsteps.induct)
  case (hsteps_step p s q t k r)
  { case 1 then show ?case using hstep_keeps(1) [OF hsteps_step.hyps(1)] hsteps_step.IH(1) by blast }
  { case 2 then show ?case using hstep_keeps(2) [OF hsteps_step.hyps(1)] hsteps_step.IH(2) by blast }
  { case 3
    then have "0 < n" "within q (n - 1)" using hstep_keeps(3) [OF hsteps_step.hyps(1)] by blast+
    with hsteps_step.IH(3) [of "n - 1"] show ?case by (cases n) simp_all }
qed simp_all

lemma hstep_progress: "(\<exists>q t. hstep S p s q t) \<longleftrightarrow> (\<nexists>r. p = Return r)"
proof (cases p)
  case (HeaderByHashP x k)
  moreover have "hstep S p s (k (fst (st_header_by_hash S x s))) (snd (st_header_by_hash S x s))"
    unfolding HeaderByHashP by (rule hstep.by_hash) simp
  ultimately show ?thesis by simp blast
next
  case (HeaderByNumberP n k)
  moreover have "hstep S p s (k (fst (st_header_by_number S n s))) (snd (st_header_by_number S n s))"
    unfolding HeaderByNumberP by (rule hstep.by_number) simp
  ultimately show ?thesis by simp blast
next
  case (BodyByHashP x k)
  moreover have "hstep S p s (k (fst (st_body_by_hash S x s))) (snd (st_body_by_hash S x s))"
    unfolding BodyByHashP by (rule hstep.body) simp
  ultimately show ?thesis by simp blast
qed (auto intro: hstep.intros elim: hstep_cases)

text \<open>The parts of the handler, with any continuation.\<close>

lemma returns_header_walk_p:
  "(\<And>hs. returns P (k hs)) \<Longrightarrow> returns P (header_walk_p d step n current k)"
  by (induction n arbitrary: current k) (simp_all split: option.split)

lemma returns_resolve_headers_p: "(\<And>hs. returns P (k hs)) \<Longrightarrow> returns P (resolve_headers_p req k)"
  by (simp add: resolve_headers_p_def Let_def returns_header_walk_p split: hash_or_number.split)

lemma returns_resolve_bodies_p: "(\<And>bs. returns P (k bs)) \<Longrightarrow> returns P (resolve_bodies_p xs k)"
  by (induction xs arbitrary: k) (simp_all split: option.split)

lemma returns_missing_hashes_p: "(\<And>ms. returns P (k ms)) \<Longrightarrow> returns P (missing_hashes_p xs k)"
  by (induction xs arbitrary: k) simp_all

lemma returns_merge_bodies_p: "(\<And>bs. returns P (k bs)) \<Longrightarrow> returns P (merge_bodies_p xs fetched k)"
  by (induction xs arbitrary: fetched k) (simp_all split: option.split list.split)

lemma returns_insert_headers_p: "returns P p \<Longrightarrow> returns P (insert_headers_p hash_slow hs p)"
  by (induction hs) simp_all

lemma returns_handle_request_p: "returns (\<lambda>r. answers r req) (handle_request_p hash_slow req)"
  by (cases req)
    (auto simp: handle_headers_p_def handle_bodies_p_def split: option.split
      intro!: returns_resolve_headers_p returns_resolve_bodies_p returns_missing_hashes_p
        returns_merge_bodies_p returns_insert_headers_p)

lemma honest_header_walk_p:
  "(\<And>hs. stores_honestly hash_slow (k hs)) \<Longrightarrow> stores_honestly hash_slow (header_walk_p d step n current k)"
  by (induction n arbitrary: current k) (simp_all split: option.split)

lemma honest_resolve_headers_p:
  "(\<And>hs. stores_honestly hash_slow (k hs)) \<Longrightarrow> stores_honestly hash_slow (resolve_headers_p req k)"
  by (simp add: resolve_headers_p_def Let_def honest_header_walk_p split: hash_or_number.split)

lemma honest_resolve_bodies_p:
  "(\<And>bs. stores_honestly hash_slow (k bs)) \<Longrightarrow> stores_honestly hash_slow (resolve_bodies_p xs k)"
  by (induction xs arbitrary: k) (simp_all split: option.split)

lemma honest_missing_hashes_p:
  "(\<And>ms. stores_honestly hash_slow (k ms)) \<Longrightarrow> stores_honestly hash_slow (missing_hashes_p xs k)"
  by (induction xs arbitrary: k) simp_all

lemma honest_merge_bodies_p:
  "(\<And>bs. stores_honestly hash_slow (k bs)) \<Longrightarrow> stores_honestly hash_slow (merge_bodies_p xs fetched k)"
  by (induction xs arbitrary: fetched k) (simp_all split: option.split list.split)

lemma honest_insert_headers_p:
  "stores_honestly hash_slow p \<Longrightarrow> stores_honestly hash_slow (insert_headers_p hash_slow hs p)"
  by (induction hs) simp_all

lemma honest_handle_request_p: "stores_honestly hash_slow (handle_request_p hash_slow req)"
  by (cases req)
    (auto simp: handle_headers_p_def handle_bodies_p_def split: option.split
      intro!: honest_resolve_headers_p honest_resolve_bodies_p honest_missing_hashes_p
        honest_merge_bodies_p honest_insert_headers_p)

lemma within_mono: "within p m \<Longrightarrow> m \<le> n \<Longrightarrow> within p n"
proof (induction p arbitrary: m n)
  case (HeaderByHashP x k)
  have "within (k r) (n - 1)" for r
    by (rule HeaderByHashP.IH [OF rangeI, of _ "m - 1"]) (use HeaderByHashP.prems in simp_all)
  with HeaderByHashP.prems show ?case by simp
next
  case (HeaderByNumberP x k)
  have "within (k r) (n - 1)" for r
    by (rule HeaderByNumberP.IH [OF rangeI, of _ "m - 1"]) (use HeaderByNumberP.prems in simp_all)
  with HeaderByNumberP.prems show ?case by simp
next
  case (BodyByHashP x k)
  have "within (k r) (n - 1)" for r
    by (rule BodyByHashP.IH [OF rangeI, of _ "m - 1"]) (use BodyByHashP.prems in simp_all)
  with BodyByHashP.prems show ?case by simp
next
  case (InsertHeaderP x h p)
  have "within p (n - 1)" by (rule InsertHeaderP.IH [of "m - 1"]) (use InsertHeaderP.prems in simp_all)
  with InsertHeaderP.prems show ?case by simp
next
  case (InsertBodyP x b p)
  have "within p (n - 1)" by (rule InsertBodyP.IH [of "m - 1"]) (use InsertBodyP.prems in simp_all)
  with InsertBodyP.prems show ?case by simp
next
  case (FetchHeadersP q k)
  have "within (k r) (n - 1)" for r
    by (rule FetchHeadersP.IH [OF rangeI, of _ "m - 1"]) (use FetchHeadersP.prems in simp_all)
  with FetchHeadersP.prems show ?case by simp
next
  case (FetchBodiesP q k)
  have "within (k r) (n - 1)" for r
    by (rule FetchBodiesP.IH [OF rangeI, of _ "m - 1"]) (use FetchBodiesP.prems in simp_all)
  with FetchBodiesP.prems show ?case by simp
qed simp

lemma within_Suc: "within p n \<Longrightarrow> within p (Suc n)"
  by (erule within_mono) simp

lemma within_resolve_bodies_p:
  "(\<And>bs. within (k bs) n) \<Longrightarrow> within (resolve_bodies_p xs k) (length xs + n)"
  by (induction xs arbitrary: k) (simp_all split: option.split)

lemma within_missing_hashes_p:
  "(\<And>ms. within (k ms) n) \<Longrightarrow> within (missing_hashes_p xs k) (length xs + n)"
  by (induction xs arbitrary: k) simp_all

lemma within_merge_bodies_p:
  "(\<And>bs. within (k bs) n) \<Longrightarrow> within (merge_bodies_p xs fetched k) (2 * length xs + n)"
proof (induction xs arbitrary: fetched k)
  case (Cons x xs)
  have "within (merge_bodies_p xs f (\<lambda>bs. k (b # bs))) (2 * length xs + n)"
    "within (merge_bodies_p xs f k) (2 * length xs + n)" for f b
    by (rule Cons.IH, rule Cons.prems)+
  then show ?case by (auto split: option.split list.split intro: within_Suc)
qed simp

lemma within_handle_bodies_p: "within (handle_bodies_p hashes) (4 * length hashes + 1)"
proof -
  let ?n = "length hashes"
  have "within (merge_bodies_p hashes fetched (\<lambda>all. Return (Some (BlockBodies all)))) (2 * ?n + 0)" for fetched
    by (rule within_merge_bodies_p) simp
  then have "within (if missing = [] then Return (Some (BlockBodies bodies))
        else FetchBodiesP missing (\<lambda>r.
          case r of
            Some fetched \<Rightarrow> merge_bodies_p hashes fetched (\<lambda>all. Return (Some (BlockBodies all)))
          | None \<Rightarrow> Return (Some (BlockBodies bodies)))) (2 * ?n + 1)" for missing bodies
    by (auto split: option.split)
  then have "within (missing_hashes_p hashes (\<lambda>missing.
        if missing = [] then Return (Some (BlockBodies bodies))
        else FetchBodiesP missing (\<lambda>r.
          case r of
            Some fetched \<Rightarrow> merge_bodies_p hashes fetched (\<lambda>all. Return (Some (BlockBodies all)))
          | None \<Rightarrow> Return (Some (BlockBodies bodies))))) (?n + (2 * ?n + 1))" for bodies
    by (rule within_missing_hashes_p)
  then have "within (handle_bodies_p hashes) (?n + (?n + (2 * ?n + 1)))"
    unfolding handle_bodies_p_def
    by (intro within_resolve_bodies_p) (simp only: within.simps split: if_split, blast)
  then show ?thesis by (rule within_mono) simp
qed

text \<open>There is no infinite run, since each step leads to a part of the program.\<close>

definition endless :: "('s, 'x, 'b) store_ops \<Rightarrow> ('x, 'b, 'r) prog \<Rightarrow> bool" where
  "endless S p \<longleftrightarrow> (\<exists>ps. ps 0 = p \<and> (\<forall>i. \<exists>s t. hstep S (ps i) s (ps (Suc i)) t))"

lemma endless_step:
  assumes "endless S p"
  obtains s q t where "hstep S p s q t" "endless S q"
proof -
  from assms obtain ps where ps: "ps 0 = p" "\<And>i. \<exists>s t. hstep S (ps i) s (ps (Suc i)) t"
    unfolding endless_def by blast
  obtain s t where st: "hstep S p s (ps (Suc 0)) t" using ps(2) [of 0] ps(1) by blast
  show thesis
    by (rule that [OF st]) (unfold endless_def, rule exI [of _ "\<lambda>i. ps (Suc i)"], use ps(2) in blast)
qed

lemma not_endless: "\<not> endless S p"
proof (induction p)
  case (HeaderByHashP x k)
  show ?case using HeaderByHashP.IH [OF rangeI] by (blast elim: endless_step hstep_cases)
next
  case (HeaderByNumberP n k)
  show ?case using HeaderByNumberP.IH [OF rangeI] by (blast elim: endless_step hstep_cases)
next
  case (BodyByHashP x k)
  show ?case using BodyByHashP.IH [OF rangeI] by (blast elim: endless_step hstep_cases)
next
  case (FetchHeadersP q k)
  show ?case using FetchHeadersP.IH [OF rangeI] by (blast elim: endless_step hstep_cases)
next
  case (FetchBodiesP ms k)
  show ?case using FetchBodiesP.IH [OF rangeI] by (blast elim: endless_step hstep_cases)
qed (blast elim: endless_step hstep_cases)+

section \<open>Properties\<close>


text \<open>
  C8. Whatever other tasks do to the cache between two calls and whatever the network answers, the
  handler of a request has no infinite run, is stuck only when it has answered, and the answer is of
  the kind of the request; a request for \<open>n\<close> bodies takes at most \<open>4 n + 1\<close> calls.
\<close>

theorem every_request_terminates:
  "\<not> endless S (handle_request_p hash_slow req)
   \<and> (hsteps S k (handle_request_p hash_slow req) p \<longrightarrow>
        ((\<exists>s q t. hstep S p s q t) \<or> (\<exists>r. p = Return r \<and> answers r req))
        \<and> (\<forall>hashes. req = GetBlockBodies hashes \<longrightarrow> k \<le> 4 * length hashes + 1))"
proof (intro conjI impI allI not_endless)
  assume run: "hsteps S k (handle_request_p hash_slow req) p"
  have "returns (\<lambda>r. answers r req) p"
    by (rule hsteps_keeps(1) [OF run returns_handle_request_p])
  then show "(\<exists>s q t. hstep S p s q t) \<or> (\<exists>r. p = Return r \<and> answers r req)"
    using hstep_progress [of S p] by (metis returns.simps(1))
  fix hashes assume "req = GetBlockBodies hashes"
  then have "within (handle_request_p hash_slow req) (4 * length hashes + 1)"
    using within_handle_bodies_p by simp
  from hsteps_keeps(3) [OF run this] show "k \<le> 4 * length hashes + 1" by blast
qed

theorem every_request_terminates_witness:
  "hsteps (cache_store list_lrus) 1
     (handle_request_p (\<lambda>h :: header. 0) (GetBlockBodies [1])) (Return (Some (BlockBodies [''a''])))
   \<and> (\<exists>r :: (unit, string) eth_response option.
        (Return (Some (BlockBodies [''a''])) :: (unit, string) handler) = Return r \<and> answers r (GetBlockBodies [1]))
   \<and> 1 \<le> 4 * length [1 :: b256] + 1"
proof -
  let ?S = "cache_store list_lrus"
  let ?p = "handle_request_p (\<lambda>h :: header. 0) (GetBlockBodies [1]) :: (unit, string) handler"
  let ?c = "cache_insert_body list_lrus 1 ''a'' (cache_new list_lrus 4) :: (nat \<times> (b256 \<times> header) list,
      nat \<times> (u64 \<times> header) list, nat \<times> (u64 \<times> b256) list, nat \<times> (b256 \<times> string) list) block_cache"
  have "fst (st_body_by_hash ?S 1 ?c) = Some ''a''" by (simp add: cache_eval)
  then have "hstep ?S ?p ?c (Return (Some (BlockBodies [''a'']))) (snd (st_body_by_hash ?S 1 ?c))"
    by (cases "st_body_by_hash ?S 1 ?c") (simp add: handle_bodies_p_def hstep_simps del: cache_store_simps)
  from hsteps_step [OF this hsteps_nil]
  have run: "hsteps ?S 1 ?p (Return (Some (BlockBodies [''a''])))" by simp
  then show ?thesis
    using every_request_terminates [of ?S "\<lambda>h :: header. 0" "GetBlockBodies [1]" 1
        "Return (Some (BlockBodies [''a'']))"]
    by (auto elim: hstep_cases)
qed


end
