(* ===== verification/Sentry_Node.thy ===== *)
theory Sentry_Node
  imports Sentry_Network Eth_Steps Tx_Forwarder "HOL-Library.Sublist"
begin

text \<open>
  The running node: the tasks that \<open>start_sentry_network\<close> in \<open>src/network.rs\<close> spawns, with the
  forwarder's loop and the main task, as one step relation. A step is one action of one task: an
  announcement entering the import, one call of the request handler on the cache, one iteration of
  a \<open>select!\<close> loop, one step of the forwarder, one stage of the shutdown. The tasks share the block
  cache, the channels and the shutdown token, which are fields of \<open>node\<close>; any interleaving is a run.
  What the reth network, its pool and the operating system do labels the steps.
\<close>

section \<open>State\<close>

text \<open>The stages of \<open>start_sentry_network\<close>; the last one holds whether it returned \<open>Ok\<close>.\<close>

datatype main_stage = Running | Stopping | Saved | Finished bool

text \<open>
  \<open>nd_blocks\<close> is the rebroadcast channel, \<open>None\<close> once its receiver is dropped. \<open>nd_handler\<close> is the
  request being handled with what is left to do for it, \<open>nd_forwarding\<close> the transaction the pending
  loop is sending to the forwarder, \<open>nd_monitoring\<close> tells whether the peer count is still logged. \<open>nd_fwd\<close> is \<open>None\<close> if the forwarder's loop died at its start.
  \<open>nd_answers\<close> records what went out on the response channels.
\<close>

record ('hh, 'hn, 'nh, 'bh, 'x, 'b, 'd, 'p, 't) node =
  nd_cache :: "('hh, 'hn, 'nh, 'bh) block_cache"
  nd_blocks :: "('x, 'b) new_block_data list option"
  nd_rebroadcast :: "('p, 'x, 'b) rebroadcast_state"
  nd_requests :: "eth_request list"
  nd_handler :: "(eth_request \<times> ('x, 'b) handler) option"
  nd_answers :: "(eth_request \<times> ('x, 'b) eth_response option) list"
  nd_pool :: "'t list"
  nd_pending :: "b256 list"
  nd_forwarding :: "forwardable_tx option"
  nd_forward_stopped :: bool
  nd_fwd :: "'d forwarder option"
  nd_monitoring :: bool
  nd_cancelled :: bool
  nd_stage :: main_stage
  nd_disk :: disk_file

record ('hh, 'hn, 'nh, 'bh, 'x, 'b, 'd, 't) node_env =
  ne_lrus :: "('hh, 'hn, 'nh, 'bh, 'x, 'b) block_lrus"
  ne_rlp :: "('x, 'b) rlp"
  ne_hash_slow :: "'x header_scheme \<Rightarrow> b256"
  ne_config :: sentry_network_config
  ne_forwarder :: "'d forwarder_env"
  ne_pool_tx :: "'t \<Rightarrow> pool_tx"
  ne_tx_hash :: "'t \<Rightarrow> b256"
  ne_encode :: "'t \<Rightarrow> byte list"

text \<open>The capacity of the channel of incoming requests.\<close>

definition request_channel_size :: nat where "request_channel_size = 256"

section \<open>Start\<close>

datatype network_error = RuntimeBuildFailed | NetworkManagerFailed | FetchClientFailed

record network_start =
  runtime_built :: bool
  manager_started :: bool
  fetch_client_ok :: bool

definition start_sentry_network ::
    "('hh, 'hn, 'nh, 'bh, 'x, 'b, 'd, 't) node_env \<Rightarrow> ('chain, 'peer) known_network \<Rightarrow> u64 \<Rightarrow> network_start
     \<Rightarrow> 'd forwarder option \<Rightarrow> disk_file
     \<Rightarrow> network_error + ('chain, 'peer) network_settings \<times> ('hh, 'hn, 'nh, 'bh, 'x, 'b, 'd, 'p, 't) node" where
  "start_sentry_network E mainnet now results fwd f =
     (let c = start_cache (ne_lrus E) (ne_rlp E) (ne_config E) f;
          settings = build_network_config mainnet (ne_config E) now (latest (ne_lrus E) c)
      in if \<not> runtime_built results then Inl RuntimeBuildFailed
         else if \<not> manager_started results then Inl NetworkManagerFailed
         else if \<not> fetch_client_ok results then Inl FetchClientFailed
         else Inr (settings,
           \<lparr>nd_cache = c, nd_blocks = Some [],
            nd_rebroadcast = \<lparr>status = settings_head settings, sent = []\<rparr>,
            nd_requests = [], nd_handler = None, nd_answers = [], nd_pool = [], nd_pending = [],
            nd_forwarding = None, nd_forward_stopped = False, nd_fwd = fwd,
            nd_monitoring = True, nd_cancelled = False,
            nd_stage = Running, nd_disk = f\<rparr>))"

section \<open>Steps\<close>

datatype ('x, 'b, 'p, 't) node_label =
    Announce "('x, 'b) new_block_event"
  | Rebroadcast "'p list option"
  | StopRebroadcast
  | PeerRequest eth_request
  | TakeRequest
  | HandlerStep
  | Answer
  | Admit 't
  | Evict 't
  | NotifyPending 't
  | TakePending
  | SendForward
  | StopForwarding
  | Forwarder label
  | MonitorTick
  | StopMonitor
  | CtrlC
  | NetworkEvent
  | StopMain
  | Save save_env
  | NetworkShutdown bool

definition announce ::
    "('hh, 'hn, 'nh, 'bh, 'x, 'b) block_lrus \<Rightarrow> ('x, 'b) new_block_event
     \<Rightarrow> ('hh, 'hn, 'nh, 'bh, 'x, 'b, 'd, 'p, 't) node \<Rightarrow> ('hh, 'hn, 'nh, 'bh, 'x, 'b, 'd, 'p, 't) node" where
  "announce B ev n =
     (let s = on_new_block B ev \<lparr>import_cache = nd_cache n, rebroadcast_tx = nd_blocks n\<rparr>
      in n\<lparr>nd_cache := import_cache s, nd_blocks := rebroadcast_tx s\<rparr>)"

definition take_pending ::
    "('hh, 'hn, 'nh, 'bh, 'x, 'b, 'd, 't) node_env \<Rightarrow> b256
     \<Rightarrow> ('hh, 'hn, 'nh, 'bh, 'x, 'b, 'd, 'p, 't) node \<Rightarrow> ('hh, 'hn, 'nh, 'bh, 'x, 'b, 'd, 'p, 't) node" where
  "take_pending E hash n =
     (case find (\<lambda>tx. ne_tx_hash E tx = hash) (nd_pool n) of
        Some tx \<Rightarrow> n\<lparr>nd_forwarding := Some \<lparr>tx_hash = hash, tx_raw = ne_encode E tx\<rparr>\<rparr>
      | None \<Rightarrow> n)"

definition send_forward ::
    "'d forwarder_env \<Rightarrow> forwardable_tx \<Rightarrow> 'd forwarder option \<Rightarrow> 'd forwarder option option" where
  "send_forward F tx fwd =
     (case fwd of None \<Rightarrow> Some None | Some s \<Rightarrow> map_option Some (forward F tx s))"

text \<open>
  The pool holds only transactions that the validator accepted, may drop them at any time, and
  notifies its listener of some of them. The monitor's ticks and the network events of the main loop
  are only logged; once the token is cancelled, which branch of a \<open>select!\<close> is taken is not
  determined. No task runs on after \<open>start_sentry_network\<close> has \<open>returned\<close>, since \<open>main\<close> returns then.
\<close>

definition returned :: "('hh, 'hn, 'nh, 'bh, 'x, 'b, 'd, 'p, 't) node \<Rightarrow> bool" where
  "returned n \<longleftrightarrow> (\<exists>ok. nd_stage n = Finished ok)"

inductive task_step ::
    "('hh, 'hn, 'nh, 'bh, 'x, 'b, 'd, 't) node_env \<Rightarrow> ('x, 'b, 'p, 't) node_label
     \<Rightarrow> ('hh, 'hn, 'nh, 'bh, 'x, 'b, 'd, 'p, 't) node \<Rightarrow> ('hh, 'hn, 'nh, 'bh, 'x, 'b, 'd, 'p, 't) node \<Rightarrow> bool"
  for E :: "('hh, 'hn, 'nh, 'bh, 'x, 'b, 'd, 't) node_env" where
  announcement: "task_step E (Announce ev) n (announce (ne_lrus E) ev n)"
| rebroadcast: "nd_blocks n = Some (d # ds) \<Longrightarrow>
    task_step E (Rebroadcast peers) n
      (n\<lparr>nd_blocks := Some ds, nd_rebroadcast := rebroadcast_one d peers (nd_rebroadcast n)\<rparr>)"
| stop_rebroadcast: "nd_cancelled n \<Longrightarrow> nd_blocks n = Some ds \<Longrightarrow>
    task_step E StopRebroadcast n (n\<lparr>nd_blocks := None\<rparr>)"
| request: "length (nd_requests n) < request_channel_size \<Longrightarrow>
    task_step E (PeerRequest req) n (n\<lparr>nd_requests := nd_requests n @ [req]\<rparr>)"
| take_request: "nd_handler n = None \<Longrightarrow> nd_requests n = req # reqs \<Longrightarrow>
    task_step E TakeRequest n
      (n\<lparr>nd_requests := reqs, nd_handler := Some (req, handle_request_p (ne_hash_slow E) req)\<rparr>)"
| handler_step: "nd_handler n = Some (req, p) \<Longrightarrow> hstep (cache_store (ne_lrus E)) p (nd_cache n) q c \<Longrightarrow>
    task_step E HandlerStep n (n\<lparr>nd_cache := c, nd_handler := Some (req, q)\<rparr>)"
| answer: "nd_handler n = Some (req, Return a) \<Longrightarrow>
    task_step E Answer n (n\<lparr>nd_answers := nd_answers n @ [(req, a)], nd_handler := None\<rparr>)"
| admit: "validate_transaction (network_validator_config (ne_config E)) (ne_pool_tx E tx) = Valid v \<Longrightarrow>
    task_step E (Admit tx) n (n\<lparr>nd_pool := tx # nd_pool n\<rparr>)"
| evict: "task_step E (Evict tx) n (n\<lparr>nd_pool := removeAll tx (nd_pool n)\<rparr>)"
| notify: "tx \<in> set (nd_pool n) \<Longrightarrow>
    task_step E (NotifyPending tx) n (n\<lparr>nd_pending := nd_pending n @ [ne_tx_hash E tx]\<rparr>)"
| take_pending: "\<not> nd_forward_stopped n \<Longrightarrow> nd_forwarding n = None \<Longrightarrow> nd_pending n = hash # hashes \<Longrightarrow>
    task_step E TakePending n (take_pending E hash (n\<lparr>nd_pending := hashes\<rparr>))"
| send_forward: "nd_forwarding n = Some tx \<Longrightarrow> send_forward (ne_forwarder E) tx (nd_fwd n) = Some fwd \<Longrightarrow>
    task_step E SendForward n (n\<lparr>nd_forwarding := None, nd_fwd := fwd\<rparr>)"
| stop_forwarding: "nd_cancelled n \<Longrightarrow> \<not> nd_forward_stopped n \<Longrightarrow> nd_forwarding n = None \<Longrightarrow>
    task_step E StopForwarding n
      (n\<lparr>nd_forward_stopped := True, nd_fwd := map_option (senders_gone_update (\<lambda>_. True)) (nd_fwd n)\<rparr>)"
| forwarder: "nd_fwd n = Some s \<Longrightarrow> internal l \<or> l = Stop \<Longrightarrow> fstep (ne_forwarder E) l s t \<Longrightarrow>
    task_step E (Forwarder l) n (n\<lparr>nd_fwd := Some t\<rparr>)"
| monitor_tick: "nd_monitoring n \<Longrightarrow> task_step E MonitorTick n n"
| stop_monitor: "nd_cancelled n \<Longrightarrow> nd_monitoring n \<Longrightarrow>
    task_step E StopMonitor n (n\<lparr>nd_monitoring := False\<rparr>)"
| ctrl_c: "task_step E CtrlC n (n\<lparr>nd_cancelled := True\<rparr>)"
| network_event: "nd_stage n = Running \<Longrightarrow> task_step E NetworkEvent n n"
| stop_main: "nd_cancelled n \<Longrightarrow> nd_stage n = Running \<Longrightarrow>
    task_step E StopMain n (n\<lparr>nd_stage := Stopping\<rparr>)"
| save: "nd_stage n = Stopping \<Longrightarrow>
    task_step E (Save env) n
      (n\<lparr>nd_stage := Saved, nd_disk := shutdown_cache (ne_lrus E) (ne_rlp E) env (nd_cache n) (nd_disk n)\<rparr>)"
| network_shutdown: "nd_stage n = Saved \<Longrightarrow>
    task_step E (NetworkShutdown ok) n (n\<lparr>nd_stage := Finished ok\<rparr>)"

definition node_step_rel ::
    "('hh, 'hn, 'nh, 'bh, 'x, 'b, 'd, 't) node_env \<Rightarrow> ('x, 'b, 'p, 't) node_label
     \<Rightarrow> ('hh, 'hn, 'nh, 'bh, 'x, 'b, 'd, 'p, 't) node \<Rightarrow> ('hh, 'hn, 'nh, 'bh, 'x, 'b, 'd, 'p, 't) node \<Rightarrow> bool" where
  "node_step_rel E l n m \<longleftrightarrow> \<not> returned n \<and> task_step E l n m"

abbreviation node_runs ::
    "('hh, 'hn, 'nh, 'bh, 'x, 'b, 'd, 't) node_env \<Rightarrow> ('x, 'b, 'p, 't) node_label list
     \<Rightarrow> ('hh, 'hn, 'nh, 'bh, 'x, 'b, 'd, 'p, 't) node \<Rightarrow> ('hh, 'hn, 'nh, 'bh, 'x, 'b, 'd, 'p, 't) node \<Rightarrow> bool" where
  "node_runs E \<equiv> labelled_runs (node_step_rel E)"

inductive_cases task_step_cases:
  "task_step E (Announce ev) n m" "task_step E (Rebroadcast peers) n m" "task_step E StopRebroadcast n m"
  "task_step E (PeerRequest req) n m" "task_step E TakeRequest n m" "task_step E HandlerStep n m"
  "task_step E Answer n m" "task_step E (Admit tx) n m" "task_step E (Evict tx) n m"
  "task_step E (NotifyPending tx) n m" "task_step E TakePending n m" "task_step E SendForward n m"
  "task_step E StopForwarding n m" "task_step E (Forwarder l) n m" "task_step E MonitorTick n m"
  "task_step E StopMonitor n m" "task_step E CtrlC n m" "task_step E NetworkEvent n m"
  "task_step E StopMain n m" "task_step E (Save env) n m" "task_step E (NetworkShutdown ok) n m"

lemma start_fields:
  assumes "start_sentry_network E mainnet now results fwd f = Inr (settings, n)"
  shows "nd_cache n = start_cache (ne_lrus E) (ne_rlp E) (ne_config E) f" "nd_blocks n = Some []"
    "nd_requests n = []" "nd_handler n = None" "nd_answers n = []" "nd_pool n = []" "nd_pending n = []"
    "nd_forwarding n = None" "\<not> nd_forward_stopped n" "nd_fwd n = fwd" "\<not> nd_cancelled n"
    "nd_stage n = Running" "nd_disk n = f" "sent (nd_rebroadcast n) = []"
    "status (nd_rebroadcast n) = settings_head settings" "nd_monitoring n"
  using assms by (auto simp: start_sentry_network_def Let_def split: if_splits)

lemma step_not_returned: "node_step_rel E l n m \<Longrightarrow> \<not> returned n" "node_step_rel E l n m \<Longrightarrow> task_step E l n m"
  by (simp_all add: node_step_rel_def)

text \<open>What every step keeps, every run keeps.\<close>

lemma node_runs_keep:
  assumes "node_runs E ls n m" "I n" "\<And>l n m. task_step E l n m \<Longrightarrow> l \<in> set ls \<Longrightarrow> I n \<Longrightarrow> I m"
  shows "I m"
  by (rule labelled_runs_keep [where I = I, OF assms(1)]) (blast intro: assms(2,3) step_not_returned(2))+

lemma node_runs_log:
  assumes "node_runs E ls n m" "\<And>l n m. task_step E l n m \<Longrightarrow> log m = log n @ f [l]"
    and "\<And>xs ys. f (xs @ ys) = f xs @ f ys" "f [] = []"
  shows "log m = log n @ f ls"
  by (rule labelled_runs_log [where log = log and f = f, OF assms(1)])
    (blast intro: assms(2-4) step_not_returned(2))+

section \<open>The cache in a run\<close>

text \<open>Every step of the node is a sequence of cache operations, which are honest if its announcement is.\<close>

fun honest_label :: "('x header_scheme \<Rightarrow> b256) \<Rightarrow> ('x, 'b, 'p, 't) node_label \<Rightarrow> bool" where
  "honest_label hash_slow (Announce (BlockEvent x block)) = (hash_slow (nb_header block) = x)"
| "honest_label hash_slow _ = True"

definition handler_ok ::
    "('x header_scheme \<Rightarrow> b256) \<Rightarrow> (eth_request \<times> ('x, 'b) handler) option \<Rightarrow> bool" where
  "handler_ok hash_slow h \<longleftrightarrow>
     (case h of None \<Rightarrow> True
      | Some (req, p) \<Rightarrow> returns (\<lambda>a. answers a req) p \<and> stores_honestly hash_slow p)"

lemma hstep_op:
  assumes "hstep (cache_store B) p c q d"
  shows "\<exists>ops. d = run_ops B ops c
    \<and> (stores_honestly hash_slow p \<longrightarrow> list_all (op_allowed (\<lambda>x h. hash_slow h = x) (\<lambda>_ _. True)) ops)"
  using assms
proof cases
  case (by_hash x r k)
  then show ?thesis by (intro exI [of _ "[HeaderByHash x]"]) simp
next
  case (by_number x r k)
  then show ?thesis by (intro exI [of _ "[HeaderByNumber x]"]) simp
next
  case (body x r k)
  then show ?thesis by (intro exI [of _ "[BodyByHash x]"]) simp
next
  case (insert_header x h)
  then show ?thesis by (intro exI [of _ "[InsertHeader x h]"]) simp
next
  case (insert_body x b)
  then show ?thesis by (intro exI [of _ "[InsertBody x b]"]) simp
qed (auto intro: exI [of _ "[]"])

lemma task_step_ops:
  assumes "task_step E l n m" "handler_ok hash_slow (nd_handler n)"
  shows "\<exists>ops. nd_cache m = run_ops (ne_lrus E) ops (nd_cache n)
    \<and> (honest_label hash_slow l \<longrightarrow> list_all (op_allowed (\<lambda>x h. hash_slow h = x) (\<lambda>_ _. True)) ops)"
  using assms
proof (induction rule: task_step.induct)
  case (announcement ev n)
  show ?case
  proof (cases ev)
    case (BlockEvent x b)
    then show ?thesis
      by (intro exI [of _ "[Insert x (nb_header b) (nb_body b)]"]) (simp add: announce_def on_new_block_def Let_def)
  next
    case (HashesEvent xs)
    then show ?thesis by (intro exI [of _ "[]"]) (simp add: announce_def on_new_block_def Let_def)
  qed
next
  case (handler_step n req p q c)
  then show ?case using hstep_op [OF handler_step.hyps(2), of hash_slow] by (simp add: handler_ok_def)
qed (auto simp: take_pending_def intro: exI [of _ "[]"] split: option.split)

section \<open>Well-formed states\<close>

text \<open>What the pool's listener is told of and what goes to the forwarder has passed the validator.\<close>

definition vetted :: "('hh, 'hn, 'nh, 'bh, 'x, 'b, 'd, 't) node_env \<Rightarrow> forwardable_tx \<Rightarrow> bool" where
  "vetted E ftx \<longleftrightarrow>
     (\<exists>tx. stateless_valid (network_validator_config (ne_config E)) (ne_pool_tx E tx)
       \<and> ftx = \<lparr>tx_hash = ne_tx_hash E tx, tx_raw = ne_encode E tx\<rparr>)"

definition cache_wf ::
    "('hh, 'hn, 'nh, 'bh, 'x, 'b, 'd, 't) node_env \<Rightarrow> ('hh, 'hn, 'nh, 'bh, 'x, 'b, 'd, 'p, 't) node \<Rightarrow> bool" where
  "cache_wf E n \<longleftrightarrow> cache_ok (ne_lrus E) (nd_cache n)
     \<and> caps_are (ne_lrus E) (effective_capacity (block_cache_size (ne_config E))) (nd_cache n)"

definition handler_wf ::
    "('hh, 'hn, 'nh, 'bh, 'x, 'b, 'd, 't) node_env \<Rightarrow> ('hh, 'hn, 'nh, 'bh, 'x, 'b, 'd, 'p, 't) node \<Rightarrow> bool" where
  "handler_wf E n \<longleftrightarrow> length (nd_requests n) \<le> request_channel_size
     \<and> handler_ok (ne_hash_slow E) (nd_handler n) \<and> list_all (\<lambda>(req, a). answers a req) (nd_answers n)"

definition pool_wf ::
    "('hh, 'hn, 'nh, 'bh, 'x, 'b, 'd, 't) node_env \<Rightarrow> ('hh, 'hn, 'nh, 'bh, 'x, 'b, 'd, 'p, 't) node \<Rightarrow> bool" where
  "pool_wf E n \<longleftrightarrow>
     list_all (\<lambda>tx. stateless_valid (network_validator_config (ne_config E)) (ne_pool_tx E tx)) (nd_pool n)
     \<and> pred_option (vetted E) (nd_forwarding n) \<and> (nd_forward_stopped n \<longrightarrow> nd_forwarding n = None)"

definition forwarder_wf ::
    "('hh, 'hn, 'nh, 'bh, 'x, 'b, 'd, 't) node_env \<Rightarrow> ('hh, 'hn, 'nh, 'bh, 'x, 'b, 'd, 'p, 't) node \<Rightarrow> bool" where
  "forwarder_wf E n \<longleftrightarrow> pred_option (\<lambda>s.
       permits s + length (tasks s) = max_concurrent (env_config (ne_forwarder E))
     \<and> length (queue s) \<le> buffer_size (env_config (ne_forwarder E))
     \<and> (loop_done s \<longrightarrow> queue s = [] \<and> acquiring s = None)
     \<and> (senders_gone s \<longleftrightarrow> nd_forward_stopped n)
     \<and> (loop_done s \<longrightarrow> senders_gone s)) (nd_fwd n)"

definition stages_wf :: "('hh, 'hn, 'nh, 'bh, 'x, 'b, 'd, 'p, 't) node \<Rightarrow> bool" where
  "stages_wf n \<longleftrightarrow> nd_cancelled n \<or> 
     (nd_stage n = Running \<and> nd_monitoring n \<and> nd_blocks n \<noteq> None \<and> \<not> nd_forward_stopped n)"

definition node_ok ::
    "('hh, 'hn, 'nh, 'bh, 'x, 'b, 'd, 't) node_env \<Rightarrow> ('hh, 'hn, 'nh, 'bh, 'x, 'b, 'd, 'p, 't) node \<Rightarrow> bool" where
  "node_ok E n \<longleftrightarrow> cache_wf E n \<and> handler_wf E n \<and> pool_wf E n \<and> forwarder_wf E n \<and> stages_wf n"

lemma cache_wf_step:
  assumes "block_caches (ne_lrus E)" "task_step E l n m" "handler_wf E n" "cache_wf E n"
  shows "cache_wf E m"
proof -
  from task_step_ops [OF assms(2)] assms(3)
  obtain ops where "nd_cache m = run_ops (ne_lrus E) ops (nd_cache n)" by (auto simp: handler_wf_def)
  with assms(4) show ?thesis
    by (simp add: cache_wf_def block_caches.ok_run_ops [OF assms(1)] block_caches.caps_run_ops [OF assms(1)])
qed

lemma handler_wf_step: "task_step E l n m \<Longrightarrow> handler_wf E n \<Longrightarrow> handler_wf E m"
proof (induction rule: task_step.induct)
  case (handler_step n req p q c)
  then show ?case using hstep_keeps(1,2) [OF handler_step.hyps(2)] by (simp add: handler_wf_def handler_ok_def)
qed (auto simp: handler_wf_def handler_ok_def announce_def take_pending_def Let_def
    returns_handle_request_p honest_handle_request_p split: option.split)

lemma vetted_pool:
  assumes "pool_wf E n" "find (\<lambda>tx. ne_tx_hash E tx = hash) (nd_pool n) = Some tx"
  shows "vetted E \<lparr>tx_hash = hash, tx_raw = ne_encode E tx\<rparr>"
  using assms by (auto simp: vetted_def pool_wf_def find_Some_iff list_all_iff)

lemma pool_wf_step: "task_step E l n m \<Longrightarrow> pool_wf E n \<Longrightarrow> pool_wf E m"
proof (induction rule: task_step.induct)
  case (take_pending n hash hashes)
  then show ?case
    using vetted_pool [of E n hash]
    by (auto simp: take_pending_def pool_wf_def split: option.split)
next
  case (admit tx v n)
  then have "validate_stateless (network_validator_config (ne_config E)) (ne_pool_tx E tx) = Inr ()"
    by (auto simp: validate_transaction_def split: sum.splits)
  with admit.prems show ?case by (simp add: pool_wf_def validate_stateless_iff)
qed (auto simp: pool_wf_def announce_def Let_def list_all_iff)

lemma internal_flags:
  "fstep F l s t \<Longrightarrow> internal l \<or> l = Stop \<Longrightarrow>
   senders_gone t = senders_gone s \<and> (loop_done t \<longrightarrow> loop_done s \<or> senders_gone s)"
  by (induction rule: fstep.induct)
    (auto simp: receive_def spawn_task_def post_next_def finish_def Let_def split: prod.split bool.split)

lemma forwarder_wf_step: "task_step E l n m \<Longrightarrow> forwarder_wf E n \<Longrightarrow> forwarder_wf E m"
proof (induction rule: task_step.induct)
  case (send_forward n tx fwd)
  show ?case
  proof (cases "nd_fwd n")
    case None
    with send_forward show ?thesis by (simp add: forwarder_wf_def send_forward_def)
  next
    case (Some s)
    with send_forward.hyps(2) have "fwd = Some s
        \<or> length (queue s) < buffer_size (env_config (ne_forwarder E)) \<and> \<not> loop_done s
          \<and> fwd = Some (s\<lparr>queue := queue s @ [tx]\<rparr>)"
      by (auto simp: send_forward_def forward_def split: if_splits)
    with Some send_forward.prems show ?thesis by (auto simp: forwarder_wf_def)
  qed
next
  case (stop_forwarding n)
  then show ?case by (cases "nd_fwd n") (auto simp: forwarder_wf_def)
next
  case (forwarder n s l t)
  have "senders_gone t = senders_gone s" "loop_done t \<longrightarrow> loop_done s \<or> senders_gone s"
    using internal_flags [OF forwarder.hyps(3,2)] by blast+
  then show ?case
    using forwarder.hyps(1) forwarder.prems permits_step [OF forwarder.hyps(3)] queue_step [OF forwarder.hyps(3)]
      stopped_step [OF forwarder.hyps(3)]
    by (auto simp: forwarder_wf_def)
qed (auto simp: forwarder_wf_def announce_def take_pending_def Let_def option.pred_map comp_def split: option.split)

lemma stages_wf_step: "task_step E l n m \<Longrightarrow> stages_wf n \<Longrightarrow> stages_wf m"
  by (induction rule: task_step.induct)
    (auto simp: stages_wf_def announce_def on_new_block_def take_pending_def Let_def
      split: option.split new_block_event.split)

lemma node_ok_step:
  "block_caches (ne_lrus E) \<Longrightarrow> task_step E l n m \<Longrightarrow> node_ok E n \<Longrightarrow> node_ok E m"
  unfolding node_ok_def
  by (blast intro: cache_wf_step handler_wf_step pool_wf_step forwarder_wf_step stages_wf_step)

lemma start_cache_ops:
  "\<exists>ops. start_cache B R cfg f = run_ops B ops (cache_new B (block_cache_size cfg))"
  using evolves_load [of B "cache_new B (block_cache_size cfg)" R f] unfolding evolves_def start_cache_def .

lemma node_ok_start:
  assumes "block_caches (ne_lrus E)"
    and "start_sentry_network E mainnet now results fwd f = Inr (settings, n)"
    and "fwd \<in> {None, Some (forwarder_init (env_config (ne_forwarder E)) d)}"
  shows "node_ok E n"
proof -
  obtain ops where "nd_cache n = run_ops (ne_lrus E) ops (cache_new (ne_lrus E) (block_cache_size (ne_config E)))"
    using start_cache_ops [of "ne_lrus E"] start_fields(1) [OF assms(2)] by metis
  then have "cache_wf E n"
    by (simp add: cache_wf_def block_caches.ok_history [OF assms(1)] block_caches.caps_history [OF assms(1)])
  then show ?thesis
    using assms(3) start_fields [OF assms(2)]
    by (auto simp: node_ok_def handler_wf_def handler_ok_def pool_wf_def forwarder_wf_def stages_wf_def
        forwarder_init_def)
qed

section \<open>The parts of a run\<close>

text \<open>
  The forwarder in the node runs as the forwarder of \<open>Tx_Forwarder\<close>, and what is submitted to it has
  passed the validator.
\<close>

definition fwd_history ::
    "('hh, 'hn, 'nh, 'bh, 'x, 'b, 'd, 't) node_env \<Rightarrow> 'd
     \<Rightarrow> ('hh, 'hn, 'nh, 'bh, 'x, 'b, 'd, 'p, 't) node \<Rightarrow> bool" where
  "fwd_history E d n \<longleftrightarrow> pool_wf E n \<and> forwarder_wf E n
     \<and> (\<exists>s ks. nd_fwd n = Some s \<and> list_all (vetted E) (submitted ks)
         \<and> runs (ne_forwarder E) ks (forwarder_init (env_config (ne_forwarder E)) d) s)"

lemma runs_one: "runs F ks s t \<Longrightarrow> fstep F l t u \<Longrightarrow> list_all P (submitted ks) \<Longrightarrow> list_all P (submitted [l]) \<Longrightarrow>
   \<exists>js. list_all P (submitted js) \<and> runs F js s u"
  by (rule exI [of _ "ks @ [l]"]) (simp add: submitted_append runs_snoc)

lemma fwd_history_step:
  assumes "task_step E l n m" "fwd_history E d n"
  shows "fwd_history E d m"
proof -
  have wf: "pool_wf E m" "forwarder_wf E m"
    using assms by (auto simp: fwd_history_def intro: pool_wf_step forwarder_wf_step)
  obtain s ks where s: "nd_fwd n = Some s" "list_all (vetted E) (submitted ks)"
    "runs (ne_forwarder E) ks (forwarder_init (env_config (ne_forwarder E)) d) s"
    using assms(2) unfolding fwd_history_def by blast
  note wf_n = assms(2) [unfolded fwd_history_def]
  have "\<exists>t js. nd_fwd m = Some t \<and> list_all (vetted E) (submitted js)
      \<and> runs (ne_forwarder E) js (forwarder_init (env_config (ne_forwarder E)) d) t"
    using assms(1) s wf_n
  proof (induction rule: task_step.induct)
    case (send_forward n tx fwd)
    have tx: "vetted E tx" "\<not> senders_gone s"
      using send_forward by (auto simp: pool_wf_def forwarder_wf_def)
    obtain t where t: "fwd = Some t" "forward (ne_forwarder E) tx s = Some t"
      using send_forward by (auto simp: send_forward_def)
    show ?case
    proof (cases "loop_done s")
      case True
      with t send_forward show ?thesis by (auto simp: forward_def)
    next
      case False
      with tx t have "fstep (ne_forwarder E) (Submit tx) s t" by (intro fstep.submit)
      from runs_one [OF send_forward.prems(3) this send_forward.prems(2)] tx(1) t(1)
      show ?thesis by auto
    qed
  next
    case (stop_forwarding n)
    from runs_one [OF stop_forwarding.prems(3) fstep.drop_senders stop_forwarding.prems(2)]
    show ?case using stop_forwarding.prems(1) by auto
  next
    case (forwarder n r l t)
    have "submitted [l] = []" using forwarder.hyps(2) by (cases l) auto
    with runs_one [OF forwarder.prems(3) _ forwarder.prems(2), of l t] forwarder.hyps(1,3) forwarder.prems(1)
    show ?case by auto
  qed (auto simp: announce_def take_pending_def Let_def split: option.split)
  with wf show ?thesis by (simp add: fwd_history_def)
qed

lemma fwd_history_run:
  assumes "start_sentry_network E mainnet now results (Some (forwarder_init (env_config (ne_forwarder E)) d)) f
      = Inr (settings, n)"
    and "node_runs E ls n m"
  shows "fwd_history E d m"
proof (rule node_runs_keep [OF assms(2)])
  show "fwd_history E d n"
    using start_fields [OF assms(1)]
    by (auto simp: fwd_history_def pool_wf_def forwarder_wf_def forwarder_init_def intro!: exI [of _ "[]"]
        intro: runs_nil)
qed (rule fwd_history_step)

text \<open>Everything the forwarder broadcasts or posts was submitted to it.\<close>

lemma set_accepted_txs: "set (accepted_txs check d txs) \<subseteq> set txs"
  by (induction txs arbitrary: d) auto

lemma done_posts_submitted:
  assumes "runs F ks (forwarder_init (env_config F) d) s"
  shows "ntf \<in> set (ws_out s) \<Longrightarrow> \<exists>tx \<in> set (submitted ks). ntf = ntf_of tx"
    and "p \<in> set (posts s) \<Longrightarrow> \<exists>i. \<exists>tx \<in> set (submitted ks).
      post_url p \<in> set (endpoints (env_config F)) \<and> post_body p = send_raw_request (env_hex F) i tx"
proof -
  obtain got spawned where acc: "accounted F d (submitted ks) s got spawned"
    using accounted_runs [OF assms refl] by blast
  have got: "set (accepted_txs (env_check F) d got) \<subseteq> set (submitted ks)"
    using acc set_accepted_txs [of "env_check F" d got] by (auto simp: accounted_def)
  then show "ntf \<in> set (ws_out s) \<Longrightarrow> \<exists>tx \<in> set (submitted ks). ntf = ntf_of tx"
    using acc by (auto simp: accounted_def split: if_splits)
  have spawned: "set spawned \<subseteq> set (submitted ks)"
    using acc got by (auto simp: accounted_def split: if_splits)
  assume "p \<in> set (posts s)"
  then have "(post_url p, post_body p) \<in># mset (done_posts s)" by (auto simp: done_posts_def)
  then have "(post_url p, post_body p) \<in># mset (all_posts F spawned)"
    using acc by (metis accounted_def mset_subset_eqD mset_subset_eq_add_left)
  then obtain i tx where "(i, tx) \<in> set (enumerate 1 spawned)"
    "(post_url p, post_body p) \<in> set (task_posts F (of_nat i) tx (endpoints (env_config F)))"
    by (auto simp: all_posts_def)
  then show "\<exists>i. \<exists>tx \<in> set (submitted ks).
      post_url p \<in> set (endpoints (env_config F)) \<and> post_body p = send_raw_request (env_hex F) i tx"
    using spawned by (force simp: task_posts_def in_set_enumerate_eq)
qed

text \<open>The cache, with honest announcements, from an honest start.\<close>

lemma honest_run:
  assumes "block_caches (ne_lrus E)" "node_runs E ls n m" "list_all (honest_label (ne_hash_slow E)) ls"
    and "honest_headers (ne_lrus E) (ne_hash_slow E) (nd_cache n)" "handler_wf E n"
  shows "honest_headers (ne_lrus E) (ne_hash_slow E) (nd_cache m)"
proof -
  have "handler_wf E m \<and> honest_headers (ne_lrus E) (ne_hash_slow E) (nd_cache m)"
  proof (rule node_runs_keep [OF assms(2)])
    fix l n m
    assume l: "task_step E l n m" "l \<in> set ls"
      and n: "handler_wf E n \<and> honest_headers (ne_lrus E) (ne_hash_slow E) (nd_cache n)"
    from l(2) assms(3) have "honest_label (ne_hash_slow E) l" by (simp add: list_all_iff)
    with task_step_ops [OF l(1)] n obtain ops where ops: "nd_cache m = run_ops (ne_lrus E) ops (nd_cache n)"
      "list_all (op_allowed (\<lambda>x h. ne_hash_slow E h = x) (\<lambda>_ _. True)) ops"
      by (auto simp: handler_wf_def)
    have "honest_headers (ne_lrus E) (ne_hash_slow E) (run_ops (ne_lrus E) ops (nd_cache n))"
      using ops(2) n
      by (induction ops arbitrary: n rule: rev_induct)
        (auto simp: run_ops_append block_caches.honest_op [OF assms(1)])
    with ops(1) l(1) n show "handler_wf E m \<and> honest_headers (ne_lrus E) (ne_hash_slow E) (nd_cache m)"
      by (auto intro: handler_wf_step)
  qed (use assms(4,5) in simp)
  then show ?thesis ..
qed

lemma node_runs_cache:
  assumes "node_runs E ls n m" "handler_wf E n"
  shows "\<exists>ops. nd_cache m = run_ops (ne_lrus E) ops (nd_cache n)"
proof -
  have "handler_wf E m \<and> evolves (ne_lrus E) (nd_cache n) (nd_cache m)"
  proof (rule node_runs_keep [OF assms(1)])
    fix l k m
    assume "task_step E l k m" and k: "handler_wf E k \<and> evolves (ne_lrus E) (nd_cache n) (nd_cache k)"
    moreover from this obtain ops where "nd_cache m = run_ops (ne_lrus E) ops (nd_cache k)"
      using task_step_ops [of E l k m "ne_hash_slow E"] by (auto simp: handler_wf_def)
    then have "evolves (ne_lrus E) (nd_cache k) (nd_cache m)" unfolding evolves_def by blast
    ultimately show "handler_wf E m \<and> evolves (ne_lrus E) (nd_cache n) (nd_cache m)"
      by (auto intro: handler_wf_step evolves_trans)
  qed (use assms(2) in simp)
  then show ?thesis unfolding evolves_def by blast
qed

text \<open>Requests are taken and answered in the order in which they entered the channel.\<close>

fun entered_requests :: "('x, 'b, 'p, 't) node_label list \<Rightarrow> eth_request list" where
  "entered_requests [] = []"
| "entered_requests (PeerRequest req # ls) = req # entered_requests ls"
| "entered_requests (_ # ls) = entered_requests ls"

lemma entered_requests_append: "entered_requests (ls @ ks) = entered_requests ls @ entered_requests ks"
  by (induction ls rule: entered_requests.induct) simp_all

definition all_requests :: "('hh, 'hn, 'nh, 'bh, 'x, 'b, 'd, 'p, 't) node \<Rightarrow> eth_request list" where
  "all_requests n = map fst (nd_answers n)
     @ (case nd_handler n of None \<Rightarrow> [] | Some (req, p) \<Rightarrow> [req]) @ nd_requests n"

lemma all_requests_step: "task_step E l n m \<Longrightarrow> all_requests m = all_requests n @ entered_requests [l]"
  by (induction rule: task_step.induct)
    (auto simp: all_requests_def announce_def take_pending_def Let_def split: option.split)

lemma all_requests_run: "node_runs E ls n m \<Longrightarrow> all_requests m = all_requests n @ entered_requests ls"
  by (rule node_runs_log [OF _ all_requests_step entered_requests_append]) simp_all

text \<open>
  The blocks announced in a run, and the rebroadcasts: \<open>blocks_done es n evs\<close> says that the
  rebroadcast task has handled \<open>es\<close>, the announced blocks in order, and the rest is in the channel.
\<close>

fun announcements :: "('x, 'b, 'p, 't) node_label list \<Rightarrow> ('x, 'b) new_block_event list" where
  "announcements [] = []"
| "announcements (Announce ev # ls) = ev # announcements ls"
| "announcements (_ # ls) = announcements ls"

lemma announcements_append: "announcements (ls @ ks) = announcements ls @ announcements ks"
  by (induction ls rule: announcements.induct) simp_all

definition rebroadcasts ::
    "('p, 'x, 'b) rebroadcast_state \<Rightarrow> (('x, 'b) new_block_data \<times> 'p list option) list
     \<Rightarrow> ('p, 'x, 'b) rebroadcast_state" where
  "rebroadcasts s es = rebroadcast_new_blocks (map (\<lambda>(d, peers). NewBlock d peers) es) s"

lemma rebroadcasts_snoc: "rebroadcasts s (es @ [(d, peers)]) = rebroadcast_one d peers (rebroadcasts s es)"
  unfolding rebroadcasts_def by (induction es arbitrary: s) (auto simp: case_prod_beta)

definition blocks_done ::
    "('p, 'x, 'b) rebroadcast_state \<Rightarrow> ('x, 'b) new_block_data list
     \<Rightarrow> ('hh, 'hn, 'nh, 'bh, 'x, 'b, 'd, 'p, 't) node \<Rightarrow> bool" where
  "blocks_done s0 all n \<longleftrightarrow> (\<exists>es. nd_rebroadcast n = rebroadcasts s0 es
     \<and> (case nd_blocks n of Some rest \<Rightarrow> map fst es @ rest = all | None \<Rightarrow> prefix (map fst es) all))"

lemma blocks_done_step:
  "task_step E l n m \<Longrightarrow> blocks_done s0 all n \<Longrightarrow> blocks_done s0 (all @ announced (announcements [l])) m"
proof (induction rule: task_step.induct)
  case (announcement ev n)
  then show ?case
    by (cases ev; cases "nd_blocks n") (auto simp: blocks_done_def announce_def on_new_block_def Let_def)
next
  case (rebroadcast n d ds peers)
  then obtain es where es: "nd_rebroadcast n = rebroadcasts s0 es" "map fst es @ d # ds = all"
    by (auto simp: blocks_done_def)
  then show ?case
    by (auto simp: blocks_done_def rebroadcasts_snoc intro!: exI [of _ "es @ [(d, peers)]"])
next
  case (stop_rebroadcast n ds)
  then show ?case by (auto simp: blocks_done_def)
qed (auto simp: blocks_done_def take_pending_def split: option.splits)

lemma blocks_done_run:
  "node_runs E ls n m \<Longrightarrow> blocks_done s0 all n \<Longrightarrow> blocks_done s0 (all @ announced (announcements ls)) m"
proof (induction rule: labelled_runs.induct)
  case (runs_snoc ls n m l k)
  then have "blocks_done s0 (all @ announced (announcements ls)) m" by blast
  from blocks_done_step [OF step_not_returned(2) [OF runs_snoc.hyps(2)] this]
  show ?case by (simp add: announcements_append announced_append)
qed simp

text \<open>Only transactions that satisfy the stateless rules for the configured chain leave the node.\<close>

lemma forwarded_are_valid:
  assumes "start_sentry_network E mainnet now results (Some (forwarder_init (env_config (ne_forwarder E)) d)) f
      = Inr (settings, n)"
    and "node_runs E ls n m" "nd_fwd m = Some s"
  shows "(\<forall>p \<in> set (posts s). \<exists>i tx.
        stateless_valid (network_validator_config (ne_config E)) (ne_pool_tx E tx)
      \<and> post_url p \<in> set (endpoints (env_config (ne_forwarder E)))
      \<and> post_body p = send_raw_request (env_hex (ne_forwarder E)) i
          \<lparr>tx_hash = ne_tx_hash E tx, tx_raw = ne_encode E tx\<rparr>)
    \<and> (\<forall>ntf \<in> set (ws_out s). \<exists>tx.
        stateless_valid (network_validator_config (ne_config E)) (ne_pool_tx E tx)
      \<and> ntf = \<lparr>ntf_hash = ne_tx_hash E tx, ntf_raw_tx = ne_encode E tx\<rparr>)"
proof -
  from fwd_history_run [OF assms(1,2)] assms(3) obtain ks where ks: "list_all (vetted E) (submitted ks)"
    "runs (ne_forwarder E) ks (forwarder_init (env_config (ne_forwarder E)) d) s"
    by (auto simp: fwd_history_def)
  let ?valid = "\<lambda>tx. stateless_valid (network_validator_config (ne_config E)) (ne_pool_tx E tx)"
  have ftx: "\<exists>tx. ?valid tx \<and> ftx = \<lparr>tx_hash = ne_tx_hash E tx, tx_raw = ne_encode E tx\<rparr>"
    if "ftx \<in> set (submitted ks)" for ftx
    using ks(1) that by (simp add: list_all_iff vetted_def)
  show ?thesis
  proof (intro conjI ballI)
    fix p assume "p \<in> set (posts s)"
    from done_posts_submitted(2) [OF ks(2) this] ftx
    show "\<exists>i tx. ?valid tx \<and> post_url p \<in> set (endpoints (env_config (ne_forwarder E)))
      \<and> post_body p = send_raw_request (env_hex (ne_forwarder E)) i
          \<lparr>tx_hash = ne_tx_hash E tx, tx_raw = ne_encode E tx\<rparr>" by blast
  next
    fix ntf assume "ntf \<in> set (ws_out s)"
    from done_posts_submitted(1) [OF ks(2) this] obtain ftx where
      "ftx \<in> set (submitted ks)" "ntf = ntf_of ftx" by blast
    with ftx [of ftx] show "\<exists>tx. ?valid tx \<and> ntf = \<lparr>ntf_hash = ne_tx_hash E tx, ntf_raw_tx = ne_encode E tx\<rparr>"
      by (auto simp: ntf_of_def)
  qed
qed

section \<open>Shutdown\<close>

text \<open>What the main task does next once the token is cancelled, and how much it has still to do.\<close>

definition main_next :: "save_env \<Rightarrow> bool \<Rightarrow> ('hh, 'hn, 'nh, 'bh, 'x, 'b, 'd, 'p, 't) node \<Rightarrow> ('x, 'b, 'p, 't) node_label" where
  "main_next env ok n =
     (case nd_stage n of Running \<Rightarrow> StopMain | Stopping \<Rightarrow> Save env | _ \<Rightarrow> NetworkShutdown ok)"

fun main_rest :: "main_stage \<Rightarrow> nat" where
  "main_rest Running = 3"
| "main_rest Stopping = 2"
| "main_rest Saved = 1"
| "main_rest (Finished ok) = 0"

fun is_main :: "('x, 'b, 'p, 't) node_label \<Rightarrow> bool" where
  "is_main StopMain = True"
| "is_main (Save env) = True"
| "is_main (NetworkShutdown ok) = True"
| "is_main _ = False"

lemma main_rest_step:
  "task_step E l n m \<Longrightarrow> main_rest (nd_stage n) = main_rest (nd_stage m) + (if is_main l then 1 else 0)"
  by (induction rule: task_step.induct)
    (auto simp: announce_def take_pending_def Let_def split: option.split)

lemma cancelled_step: "task_step E l n m \<Longrightarrow> nd_cancelled n \<Longrightarrow> nd_cancelled m"
  by (induction rule: task_step.induct) (auto simp: announce_def take_pending_def Let_def split: option.split)

lemma main_rest_run:
  "node_runs E ls n m \<Longrightarrow> main_rest (nd_stage n) = main_rest (nd_stage m) + length (filter is_main ls)"
  by (induction rule: labelled_runs.induct) (auto dest!: step_not_returned(2) main_rest_step)

lemma cancelled_run: "node_runs E ls n m \<Longrightarrow> nd_cancelled n \<Longrightarrow> nd_cancelled m"
  by (rule node_runs_keep [where I = nd_cancelled]) (auto intro: cancelled_step)

lemma main_next_enabled:
  assumes "nd_cancelled n" "\<not> returned n"
  shows "\<exists>m. node_step_rel E (main_next env ok n) n m"
  using assms
  by (cases "nd_stage n") (auto simp: node_step_rel_def main_next_def returned_def intro: task_step.intros)

section \<open>Executing steps\<close>

text \<open>The same steps as a function, for a network that answers the handler as \<open>net\<close> says.\<close>

fun exec_task ::
    "('hh, 'hn, 'nh, 'bh, 'x, 'b, 'd, 't) node_env \<Rightarrow> ('x, 'b) net \<Rightarrow> ('x, 'b, 'p, 't) node_label
     \<Rightarrow> ('hh, 'hn, 'nh, 'bh, 'x, 'b, 'd, 'p, 't) node
     \<Rightarrow> ('hh, 'hn, 'nh, 'bh, 'x, 'b, 'd, 'p, 't) node option" where
  "exec_task E net (Announce ev) n = Some (announce (ne_lrus E) ev n)"
| "exec_task E net (Rebroadcast peers) n =
     (case nd_blocks n of
        Some (d # ds) \<Rightarrow>
          Some (n\<lparr>nd_blocks := Some ds, nd_rebroadcast := rebroadcast_one d peers (nd_rebroadcast n)\<rparr>)
      | _ \<Rightarrow> None)"
| "exec_task E net StopRebroadcast n =
     (if nd_cancelled n \<and> nd_blocks n \<noteq> None then Some (n\<lparr>nd_blocks := None\<rparr>) else None)"
| "exec_task E net (PeerRequest req) n =
     (if length (nd_requests n) < request_channel_size then Some (n\<lparr>nd_requests := nd_requests n @ [req]\<rparr>)
      else None)"
| "exec_task E net TakeRequest n =
     (case (nd_handler n, nd_requests n) of
        (None, req # reqs) \<Rightarrow>
          Some (n\<lparr>nd_requests := reqs, nd_handler := Some (req, handle_request_p (ne_hash_slow E) req)\<rparr>)
      | _ \<Rightarrow> None)"
| "exec_task E net HandlerStep n =
     (case nd_handler n of
        None \<Rightarrow> None
      | Some (req, p) \<Rightarrow>
          (case prog_step (cache_store (ne_lrus E)) net p (nd_cache n) of
             None \<Rightarrow> None
           | Some (q, c) \<Rightarrow> Some (n\<lparr>nd_cache := c, nd_handler := Some (req, q)\<rparr>)))"
| "exec_task E net Answer n =
     (case nd_handler n of
        Some (req, Return a) \<Rightarrow> Some (n\<lparr>nd_answers := nd_answers n @ [(req, a)], nd_handler := None\<rparr>)
      | _ \<Rightarrow> None)"
| "exec_task E net (Admit tx) n =
     (case validate_transaction (network_validator_config (ne_config E)) (ne_pool_tx E tx) of
        Valid v \<Rightarrow> Some (n\<lparr>nd_pool := tx # nd_pool n\<rparr>)
      | Invalid tx' e \<Rightarrow> None)"
| "exec_task E net (Evict tx) n = Some (n\<lparr>nd_pool := removeAll tx (nd_pool n)\<rparr>)"
| "exec_task E net (NotifyPending tx) n =
     (if tx \<in> set (nd_pool n) then Some (n\<lparr>nd_pending := nd_pending n @ [ne_tx_hash E tx]\<rparr>) else None)"
| "exec_task E net TakePending n =
     (case nd_pending n of
        [] \<Rightarrow> None
      | hash # hashes \<Rightarrow>
          if nd_forward_stopped n \<or> nd_forwarding n \<noteq> None then None
          else Some (take_pending E hash (n\<lparr>nd_pending := hashes\<rparr>)))"
| "exec_task E net SendForward n =
     (case nd_forwarding n of
        None \<Rightarrow> None
      | Some tx \<Rightarrow>
          map_option (\<lambda>fwd. n\<lparr>nd_forwarding := None, nd_fwd := fwd\<rparr>)
            (send_forward (ne_forwarder E) tx (nd_fwd n)))"
| "exec_task E net StopForwarding n =
     (if nd_cancelled n \<and> \<not> nd_forward_stopped n \<and> nd_forwarding n = None
      then Some (n\<lparr>nd_forward_stopped := True, nd_fwd := map_option (senders_gone_update (\<lambda>_. True)) (nd_fwd n)\<rparr>)
      else None)"
| "exec_task E net (Forwarder l) n =
     (case nd_fwd n of
        None \<Rightarrow> None
      | Some s \<Rightarrow>
          if internal l \<or> l = Stop
          then map_option (\<lambda>t. n\<lparr>nd_fwd := Some t\<rparr>) (exec_step (ne_forwarder E) l s) else None)"
| "exec_task E net MonitorTick n = (if nd_monitoring n then Some n else None)"
| "exec_task E net StopMonitor n =
     (if nd_cancelled n \<and> nd_monitoring n then Some (n\<lparr>nd_monitoring := False\<rparr>) else None)"
| "exec_task E net NetworkEvent n = (if nd_stage n = Running then Some n else None)"
| "exec_task E net CtrlC n = Some (n\<lparr>nd_cancelled := True\<rparr>)"
| "exec_task E net StopMain n =
     (if nd_cancelled n \<and> nd_stage n = Running then Some (n\<lparr>nd_stage := Stopping\<rparr>) else None)"
| "exec_task E net (Save env) n =
     (if nd_stage n = Stopping
      then Some (n\<lparr>nd_stage := Saved,
                   nd_disk := shutdown_cache (ne_lrus E) (ne_rlp E) env (nd_cache n) (nd_disk n)\<rparr>)
      else None)"
| "exec_task E net (NetworkShutdown ok) n =
     (if nd_stage n = Saved then Some (n\<lparr>nd_stage := Finished ok\<rparr>) else None)"

lemma exec_task_step: "exec_task E net l n = Some m \<Longrightarrow> task_step E l n m"
  by (cases l)
    (auto intro: task_step.intros dest: prog_step_hstep simp: exec_step_iff
      split: option.splits list.splits if_splits prog.splits outcome.splits prod.splits)

definition exec_node_step ::
    "('hh, 'hn, 'nh, 'bh, 'x, 'b, 'd, 't) node_env \<Rightarrow> ('x, 'b) net \<Rightarrow> ('x, 'b, 'p, 't) node_label
     \<Rightarrow> ('hh, 'hn, 'nh, 'bh, 'x, 'b, 'd, 'p, 't) node
     \<Rightarrow> ('hh, 'hn, 'nh, 'bh, 'x, 'b, 'd, 'p, 't) node option" where
  "exec_node_step E net l n = (case nd_stage n of Finished ok \<Rightarrow> None | _ \<Rightarrow> exec_task E net l n)"

abbreviation exec_node ::
    "('hh, 'hn, 'nh, 'bh, 'x, 'b, 'd, 't) node_env \<Rightarrow> ('x, 'b) net \<Rightarrow> ('x, 'b, 'p, 't) node_label list
     \<Rightarrow> ('hh, 'hn, 'nh, 'bh, 'x, 'b, 'd, 'p, 't) node
     \<Rightarrow> ('hh, 'hn, 'nh, 'bh, 'x, 'b, 'd, 'p, 't) node option" where
  "exec_node E net \<equiv> exec_list (exec_node_step E net)"

interpretation node_exec: executable_steps "node_step_rel E" "exec_node_step E net" for E net
  by unfold_locales
    (auto simp: exec_node_step_def node_step_rel_def returned_def exec_task_step split: main_stage.splits)

lemmas exec_node_runs = node_exec.exec_list_runs

end
