(* ===== verification/Node_Properties.thy ===== *)
theory Node_Properties
  imports Sentry_Node
begin

text \<open>
  What every run of the node of \<open>Sentry_Node\<close> satisfies, from the start of \<open>start_sentry_network\<close>
  (\<open>src/network.rs\<close>) to its return, and one thing its shutdown does not do. A run over the list
  cache, executed by \<open>exec_node\<close>, serves the examples.
\<close>

section \<open>A sample run\<close>

text \<open>A run in which every task makes its steps, for the witnesses.\<close>

definition sample_tx :: pool_tx where
  "sample_tx = \<lparr>tx_sender = 1, tx_is_create = False, tx_chain_id = Some 1, tx_gas_limit = 21000,
     tx_max_fee_per_gas = 1, tx_max_priority_fee_per_gas = None, tx_value = 0, tx_nonce = 0\<rparr>"

definition sample_node_env where
  "sample_node_env =
     \<lparr>ne_lrus = list_lrus, ne_rlp = plain_rlp, ne_hash_slow = (\<lambda>h :: header. ucast (timestamp h)),
      ne_config = sample_net_config, ne_forwarder = sample_env, ne_pool_tx = (\<lambda>tx :: pool_tx. tx),
      ne_tx_hash = (\<lambda>tx. 7), ne_encode = (\<lambda>tx. [1])\<rparr>"

definition sample_mainnet :: "(unit, unit) known_network" where
  "sample_mainnet = \<lparr>kn_spec = (), kn_genesis_hash = 0, kn_boot_nodes = []\<rparr>"

type_synonym list_node =
  "(nat \<times> (b256 \<times> header) list, nat \<times> (u64 \<times> header) list, nat \<times> (u64 \<times> b256) list,
    nat \<times> (b256 \<times> byte list) list, unit, byte list, (nat \<times> (b256 \<times> unit) list) tx_dedup, string, pool_tx) node"

definition sample_start :: "network_error + (unit, unit) network_settings \<times> list_node" where
  "sample_start =
     start_sentry_network sample_node_env sample_mainnet 1700000000
       \<lparr>runtime_built = True, manager_started = True, fetch_client_ok = True\<rparr>
       (Some (forwarder_init (env_config sample_env) sample_dedup)) Absent"

definition sample_settings where "sample_settings = fst (projr sample_start)"

definition sample_node :: list_node where "sample_node = snd (projr sample_start)"

lemma sample_started: "sample_start = Inr (sample_settings, sample_node)"
  by (simp add: sample_settings_def sample_node_def sample_start_def start_sentry_network_def Let_def)

definition sample_labels :: "(unit, byte list, string, pool_tx) node_label list" where
  "sample_labels =
     [Announce (BlockEvent 60 \<lparr>nb_header = \<lparr>number = 5, timestamp = 60\<rparr>, nb_body = [3]\<rparr>),
      Rebroadcast (Some [''p'']), PeerRequest (GetBlockBodies [60]), TakeRequest, HandlerStep, Answer,
      Admit sample_tx, NotifyPending sample_tx, TakePending, SendForward, Forwarder Receive,
      Forwarder Acquire, Forwarder (Post 0 RequestFailed), Forwarder (Finish 0), CtrlC, StopRebroadcast,
      StopForwarding, Forwarder Stop, MonitorTick, StopMonitor, NetworkEvent, StopMain, Save \<lparr>can_create = True, write_fault = \<lambda>_. None\<rparr>,
      NetworkShutdown True]"

definition silent_net :: "('x, 'b) net" where
  "silent_net = \<lparr>fetch_headers = \<lambda>_. None, fetch_bodies = \<lambda>_. None\<rparr>"

lemma sample_fields [simp]:
  "ne_lrus sample_node_env = list_lrus" "ne_rlp sample_node_env = plain_rlp"
  "ne_hash_slow sample_node_env = (\<lambda>h. ucast (timestamp h))" "ne_config sample_node_env = sample_net_config"
  "ne_forwarder sample_node_env = sample_env" "ne_pool_tx sample_node_env = (\<lambda>tx. tx)"
  "ne_tx_hash sample_node_env = (\<lambda>tx. 7)" "ne_encode sample_node_env = (\<lambda>tx. [1])"
  by (simp_all add: sample_node_env_def)

lemma sample_valid [simp]:
  "validate_transaction (network_validator_config sample_net_config) sample_tx =
     Valid \<lparr>out_balance = - 1, out_state_nonce = 0, out_bytecode_hash = None,
            out_transaction = sample_tx, out_propagate = True, out_authorities = None\<rparr>"
  by (simp add: validate_transaction_def validate_stateless_def Let_def network_validator_config_def
      sample_net_config_def default_sentry_network_config_def default_validator_config_def sample_tx_def
      MIN_TX_GAS_LIMIT_def MAX_TX_GAS_LIMIT_def checked_add_def)

lemmas node_eval = sample_labels_def sample_node_def sample_start_def
  start_sentry_network_def start_cache_def load_from_file_def build_network_config_def
  announce_def on_new_block_def rebroadcast_one_def request_channel_size_def
  handle_bodies_p_def take_pending_def send_forward_def exec_node_step_def

lemma sample_size [simp]: "block_cache_size sample_net_config = 2"
  by (simp add: sample_net_config_def)

text \<open>The states of the sample run when Ctrl+C arrives and when everything has ended.\<close>

definition sample_cancelled :: list_node where
  "sample_cancelled = the (exec_node sample_node_env silent_net (take 15 sample_labels) sample_node)"

definition sample_end :: list_node where
  "sample_end = the (exec_node sample_node_env silent_net (drop 15 sample_labels) sample_cancelled)"

lemma sample_cancelled_exec:
  "exec_node sample_node_env silent_net (take 15 sample_labels) sample_node = Some sample_cancelled"
proof -
  have "exec_node sample_node_env silent_net (take 15 sample_labels) sample_node \<noteq> None"
    by (simp add: node_eval cache_eval sample_eval)
  then show ?thesis unfolding sample_cancelled_def by auto
qed

lemma sample_end_exec:
  "exec_node sample_node_env silent_net (drop 15 sample_labels) sample_cancelled = Some sample_end"
proof -
  have "exec_node sample_node_env silent_net (drop 15 sample_labels) sample_cancelled \<noteq> None"
    by (simp add: sample_cancelled_def node_eval cache_eval sample_eval)
  then show ?thesis unfolding sample_end_def by auto
qed

lemma sample_node_runs:
  "node_runs sample_node_env (take 15 sample_labels) sample_node sample_cancelled"
  "node_runs sample_node_env (drop 15 sample_labels) sample_cancelled sample_end"
  "node_runs sample_node_env sample_labels sample_node sample_end"
proof -
  show run: "node_runs sample_node_env (take 15 sample_labels) sample_node sample_cancelled"
    "node_runs sample_node_env (drop 15 sample_labels) sample_cancelled sample_end"
    by (rule exec_node_runs [OF sample_cancelled_exec], rule exec_node_runs [OF sample_end_exec])
  from labelled_runs_append [OF run(2,1)]
  show "node_runs sample_node_env sample_labels sample_node sample_end" by simp
qed

lemma sample_end_state:
  "nd_stage sample_end = Finished True" "nd_cancelled sample_cancelled" "nd_stage sample_cancelled = Running"
  "nd_requests sample_end = []" "nd_handler sample_end = None"
  "nd_answers sample_end = [(GetBlockBodies [60], Some (BlockBodies [[3]]))]"
  "nd_blocks sample_end = None"
  "map_option (\<lambda>s. (ws_out s, map post_url (posts s))) (nd_fwd sample_end) =
     Some ([\<lparr>ntf_hash = 7, ntf_raw_tx = [1]\<rparr>], [''a''])"
  by (simp_all add: sample_end_def sample_cancelled_def node_eval cache_eval sample_eval)

lemma sample_start_unfolded:
  "start_sentry_network sample_node_env sample_mainnet 1700000000
     \<lparr>runtime_built = True, manager_started = True, fetch_client_ok = True\<rparr>
     (Some (forwarder_init (env_config (ne_forwarder sample_node_env)) sample_dedup)) Absent
   = Inr (sample_settings, sample_node)"
  using sample_started by (simp add: sample_start_def)

lemma sample_block_caches: "block_caches (ne_lrus sample_node_env)"
  by (simp add: list_blocks.block_caches_axioms)

section \<open>Properties of the node\<close>





text \<open>
  C16. After Ctrl+C the main task is never stuck and has at most three steps to make besides logging
  network events: whatever the other tasks do in between, its next step is possible until
  \<open>start_sentry_network\<close> has returned, and every such step is one of the three (leave the event loop,
  save, shut the network down).
\<close>

theorem shutdown_completes:
  assumes "node_runs E ls n m" "nd_cancelled n"
  shows "main_rest (nd_stage n) = main_rest (nd_stage m) + length (filter is_main ls)
    \<and> (if returned m then main_rest (nd_stage m) = 0
       else is_main (main_next env ok m) \<and> (\<exists>k. node_step_rel E (main_next env ok m) m k))"
proof -
  have "is_main (main_next env ok m)"
    by (auto simp: main_next_def split: main_stage.split)
  then show ?thesis
    using main_rest_run [OF assms(1)] main_next_enabled [OF cancelled_run [OF assms]]
    by (auto simp: returned_def)
qed

theorem shutdown_completes_witness:
  "main_rest (nd_stage sample_cancelled)
     = main_rest (nd_stage sample_end) + length (filter is_main (drop 15 sample_labels))
   \<and> returned sample_end"
  using shutdown_completes [OF sample_node_runs(2) sample_end_state(2)] sample_end_state(1)
  unfolding returned_def by blast

text \<open>
  C18. Requests are served one at a time in the order they entered the channel: the answered ones,
  the one being handled and the waiting ones are together those that entered.
\<close>

theorem requests_served_in_order:
  assumes "start_sentry_network E mainnet now results fwd f = Inr (settings, n)" "node_runs E ls n m"
  shows "map fst (nd_answers m) @ (case nd_handler m of None \<Rightarrow> [] | Some (req, p) \<Rightarrow> [req]) @ nd_requests m
      = entered_requests ls
    \<and> list_all (\<lambda>(req, a). answers a req) (nd_answers m)"
proof -
  have "handler_wf E n" using start_fields [OF assms(1)] by (simp add: handler_wf_def handler_ok_def)
  then have "handler_wf E m"
    using node_runs_keep [OF assms(2), of "handler_wf E"] handler_wf_step by blast
  then show ?thesis
    using all_requests_run [OF assms(2)] start_fields [OF assms(1)]
    by (simp add: all_requests_def handler_wf_def)
qed

theorem requests_served_in_order_witness:
  "map fst (nd_answers sample_end) = entered_requests sample_labels
   \<and> entered_requests sample_labels = [GetBlockBodies [60]]"
  using requests_served_in_order [OF sample_start_unfolded sample_node_runs(3)] sample_end_state
  by (simp add: sample_labels_def)



text \<open>The disk is written once, by the save.\<close>

lemma disk_step:
  "task_step E l n m \<Longrightarrow> nd_stage n = Saved \<or> returned n \<Longrightarrow>
   nd_disk m = nd_disk n \<and> (nd_stage m = Saved \<or> returned m)"
  by (induction rule: task_step.induct)
    (auto simp: returned_def announce_def take_pending_def Let_def split: option.split)

lemma disk_run:
  assumes "node_runs E ls n m" "nd_stage n = Saved"
  shows "nd_disk m = nd_disk n"
proof -
  have "nd_disk m = nd_disk n \<and> (nd_stage m = Saved \<or> returned m)"
    by (rule node_runs_keep [OF assms(1)]) (use assms(2) disk_step in fastforce)+
  then show ?thesis ..
qed

text \<open>
  C3. Nothing complete is lost over a restart: whenever the main task saves the cache, whatever
  tasks are in the middle of whatever, and whatever they do to the cache afterwards, if the save has
  no errors the next start has in its cache exactly the blocks that were complete (header, hash and
  body) at the save, and takes the highest of them as its head.
\<close>

theorem node_restart_keeps_blocks:
  assumes "block_caches (ne_lrus E)" "rlp_roundtrip (ne_rlp E)"
    and "0 < block_cache_size (ne_config E)" "block_cache_size (ne_config E) < 2 ^ 32"
    and "start_sentry_network E mainnet now results fwd f = Inr (settings, n)"
    and "node_runs E ls n m" "node_step_rel E (Save env) m k" "node_runs E ks k e"
    and "\<forall>b \<in> set (drain_blocks (ne_lrus E) (nd_cache m)). fits (ne_rlp E) b"
    and "can_create env" "\<forall>i. write_fault env i = None"
  shows "let c = start_cache (ne_lrus E) (ne_rlp E) (ne_config E) (nd_disk e);
             blocks = drain_blocks (ne_lrus E) (nd_cache m)
         in drain_blocks (ne_lrus E) c = blocks
          \<and> settings_head (build_network_config mainnet (ne_config E) now' (latest (ne_lrus E) c)) =
              initial_head (kn_genesis_hash mainnet) now'
                (if blocks = [] then None else Some (cb_hash (last blocks), cb_header (last blocks)))"
proof -
  let ?B = "ne_lrus E" and ?R = "ne_rlp E" and ?cfg = "ne_config E"
  note start = start_fields [OF assms(5)]
  have "handler_wf E n" using start by (simp add: handler_wf_def handler_ok_def)
  from node_runs_cache [OF assms(6) this] obtain ops where "nd_cache m = run_ops ?B ops (nd_cache n)" by blast
  moreover obtain os where "nd_cache n = run_ops ?B os (cache_new ?B (block_cache_size ?cfg))"
    using start_cache_ops [of ?B ?R ?cfg f] start(1) by auto
  ultimately have "nd_cache m = run_ops ?B (os @ ops) (cache_new ?B (block_cache_size ?cfg))"
    by (simp add: run_ops_append)
  note load = save_then_load [OF assms(1-4) this assms(9-11), of "nd_disk m"]
  have k: "nd_disk k = shutdown_cache ?B ?R env (nd_cache m) (nd_disk m)" "nd_stage k = Saved"
    using step_not_returned(2) [OF assms(7)] by (auto elim: task_step_cases)
  then have "nd_disk e = shutdown_cache ?B ?R env (nd_cache m) (nd_disk m)"
    using disk_run [OF assms(8)] by simp
  with load have c: "start_cache ?B ?R ?cfg (nd_disk e) =
      run_ops ?B (map insert_op (drain_blocks ?B (nd_cache m))) (cache_new ?B (block_cache_size ?cfg))"
    by (simp add: start_cache_def shutdown_cache_def)
  show ?thesis
    using block_caches.drain_restored [OF assms(1,3)] block_caches.latest_restored [OF assms(1,3)] load
    unfolding Let_def c build_network_config_def by simp
qed

theorem node_restart_keeps_blocks_witness:
  "drain_blocks list_lrus (start_cache list_lrus plain_rlp sample_net_config (nd_disk sample_end))
     = [\<lparr>cb_hash = 60, cb_header = \<lparr>number = 5, timestamp = 60\<rparr>, cb_body = [3]\<rparr>]"
proof -
  let ?E = sample_node_env and ?env = "\<lparr>can_create = True, write_fault = \<lambda>_. None\<rparr>"
  define m where "m = the (exec_node ?E silent_net (take 22 sample_labels) sample_node)"
  define k where "k = the (exec_node ?E silent_net [Save ?env] m)"
  have "exec_node ?E silent_net (take 22 sample_labels) sample_node \<noteq> None"
    by (simp add: node_eval cache_eval sample_eval)
  then have m: "node_runs ?E (take 22 sample_labels) sample_node m"
    unfolding m_def by (intro exec_node_runs [where net = silent_net]) auto
  have stage: "nd_stage m = Stopping"
    and drain: "drain_blocks list_lrus (nd_cache m) =
      [\<lparr>cb_hash = 60, cb_header = \<lparr>number = 5, timestamp = 60\<rparr>, cb_body = [3]\<rparr>]"
    by (simp_all add: m_def node_eval cache_eval sample_eval)
  have k: "node_step_rel ?E (Save ?env) m k"
    using stage exec_task_step [of ?E silent_net "Save ?env" m]
    by (simp add: k_def node_step_rel_def returned_def exec_node_step_def)
  have "exec_node ?E silent_net [NetworkShutdown True] k = Some sample_end"
    by (simp add: k_def m_def sample_end_def sample_cancelled_def node_eval cache_eval sample_eval)
  then have e: "node_runs ?E [NetworkShutdown True] k sample_end" by (rule exec_node_runs)
  have fit: "fits plain_rlp \<lparr>cb_hash = 60, cb_header = \<lparr>number = 5, timestamp = 60\<rparr>, cb_body = [3]\<rparr>"
    by (simp add: fits_def plain_rlp_def)
  show ?thesis
    using node_restart_keeps_blocks [OF sample_block_caches _ _ _ sample_start_unfolded m k e, of 0]
    unfolding sample_fields drain by (simp add: plain_rlp_roundtrip fit Let_def)
qed

text \<open>
  C34. The shutdown waits for no transaction: for every transaction the validator accepts there is a
  run in which the pool reports it, the forwarder has it in its channel, and
  \<open>start_sentry_network\<close> returns \<open>Ok\<close> with the channel as it is, nothing posted and nothing
  broadcast, although all errors are absent and the forwarder could have gone on.
\<close>

theorem shutdown_drops_transactions:
  assumes "start_sentry_network E mainnet now results (Some (forwarder_init (env_config (ne_forwarder E)) d)) f
      = Inr (settings, n)"
    and "stateless_valid (network_validator_config (ne_config E)) (ne_pool_tx E tx)"
    and "0 < buffer_size (env_config (ne_forwarder E))"
  shows "\<exists>ls m s. node_runs E ls n m \<and> NotifyPending tx \<in> set ls \<and> nd_stage m = Finished True
    \<and> nd_fwd m = Some s \<and> queue s = [\<lparr>tx_hash = ne_tx_hash E tx, tx_raw = ne_encode E tx\<rparr>]
    \<and> posts s = [] \<and> ws_out s = [] \<and> (\<exists>t. fstep (ne_forwarder E) Receive s t)"
proof -
  let ?ftx = "\<lparr>tx_hash = ne_tx_hash E tx, tx_raw = ne_encode E tx\<rparr>"
  let ?ls = "[Admit tx, NotifyPending tx, TakePending, SendForward, CtrlC, StopForwarding, StopMain,
      Save \<lparr>can_create = True, write_fault = \<lambda>_. None\<rparr>, NetworkShutdown True]"
  let ?s = "(forwarder_init (env_config (ne_forwarder E)) d)\<lparr>queue := [?ftx], senders_gone := True\<rparr>"
  obtain v where v: "validate_transaction (network_validator_config (ne_config E)) (ne_pool_tx E tx) = Valid v"
    using assms(2) by (auto simp: validate_transaction_def simp flip: validate_stateless_iff)
  obtain m where m: "exec_node E silent_net ?ls n = Some m" "nd_stage m = Finished True" "nd_fwd m = Some ?s"
    using v assms(3) start_fields [OF assms(1)]
    by (simp add: exec_node_step_def take_pending_def send_forward_def forward_def forwarder_init_def)
  have "fstep (ne_forwarder E) Receive ?s (receive (ne_forwarder E) ?ftx (?s\<lparr>queue := []\<rparr>))"
    by (rule fstep.receive) (simp_all add: forwarder_init_def)
  then show ?thesis
    using exec_node_runs [OF m(1)] m(2,3)
    by (intro exI [of _ ?ls] exI [of _ m] exI [of _ ?s]) (auto simp: forwarder_init_def)
qed

theorem shutdown_drops_transactions_witness:
  "\<exists>ls m s. node_runs sample_node_env ls sample_node m \<and> NotifyPending sample_tx \<in> set ls
    \<and> nd_stage m = Finished True \<and> nd_fwd m = Some s \<and> queue s = [\<lparr>tx_hash = 7, tx_raw = [1]\<rparr>] \<and> posts s = []"
proof -
  have "stateless_valid (network_validator_config (ne_config sample_node_env)) (ne_pool_tx sample_node_env sample_tx)"
    using sample_valid by (simp add: validate_transaction_def flip: validate_stateless_iff split: sum.splits)
  from shutdown_drops_transactions [OF sample_start_unfolded this] show ?thesis
    by (fastforce simp: sample_env_def)
qed

end
