(* ===== verification/Node_Key.thy ===== *)
theory Node_Key
  imports Sentry_Prelude
begin

text \<open>
  \<open>src/node_key.rs\<close>: loading or generating the node's secret key. The hex codec and the key type
  are arguments (\<open>key_codec\<close>), the file is absent, unreadable or has a text, the key of
  \<open>rng_secret_key\<close> and the outcome of the directory creation and of the write come with each
  start.
\<close>

record 'k key_codec =
  hex_decode :: "string \<Rightarrow> byte list option"
  hex_encode_key :: "byte list \<Rightarrow> string"
  key_from_slice :: "byte list \<Rightarrow> 'k option"
  secret_bytes :: "'k \<Rightarrow> byte list"

datatype key_file = NoKeyFile | UnreadableKeyFile | KeyText string

datatype key_error = ReadFailed | BadHex | BadKey | CreateDirFailed | KeyWriteFailed

text \<open>\<open>KeyCut (Some n)\<close>: the write failed after \<open>n\<close> characters; \<open>KeyCut None\<close>: before the file existed.\<close>

datatype key_write = KeyWritten | KeyCut "nat option"

record 'k key_start =
  rng_key :: 'k
  dirs_ok :: bool
  key_write :: key_write

text \<open>\<open>str::trim\<close> over ASCII white space.\<close>

definition is_white :: "char \<Rightarrow> bool" where
  "is_white c \<longleftrightarrow> c \<in> set [CHR '' '', CHR 0x09, CHR 0x0A, CHR 0x0B, CHR 0x0C, CHR 0x0D]"

definition trim :: "string \<Rightarrow> string" where
  "trim s = rev (dropWhile is_white (rev (dropWhile is_white s)))"

definition load_or_generate ::
    "'k key_codec \<Rightarrow> 'k key_start \<Rightarrow> key_file \<Rightarrow> (key_error + 'k) \<times> key_file" where
  "load_or_generate K st f =
     (case f of
        UnreadableKeyFile \<Rightarrow> (Inl ReadFailed, f)
      | KeyText hex \<Rightarrow>
          (case hex_decode K (trim hex) of
             None \<Rightarrow> (Inl BadHex, f)
           | Some bytes \<Rightarrow> (case key_from_slice K bytes of None \<Rightarrow> (Inl BadKey, f) | Some key \<Rightarrow> (Inr key, f)))
      | NoKeyFile \<Rightarrow>
          let key = rng_key st; hex = hex_encode_key K (secret_bytes K key)
          in if \<not> dirs_ok st then (Inl CreateDirFailed, f)
             else case key_write st of
                 KeyWritten \<Rightarrow> (Inr key, KeyText hex)
               | KeyCut None \<Rightarrow> (Inl KeyWriteFailed, f)
               | KeyCut (Some n) \<Rightarrow> (Inl KeyWriteFailed, KeyText (take n hex)))"

text \<open>A node started again and again on the same data directory.\<close>

fun restarts ::
    "'k key_codec \<Rightarrow> 'k key_start list \<Rightarrow> key_file \<Rightarrow> (key_error + 'k) list \<times> key_file" where
  "restarts K [] f = ([], f)"
| "restarts K (st # sts) f =
     (case load_or_generate K st f of
        (r, f') \<Rightarrow> (case restarts K sts f' of (rs, f'') \<Rightarrow> (r # rs, f'')))"

text \<open>What the codec promises: hex has no white space, and encoding then decoding gives the key back.\<close>

definition key_codec_ok :: "'k key_codec \<Rightarrow> bool" where
  "key_codec_ok K \<longleftrightarrow>
     (\<forall>bs. hex_decode K (hex_encode_key K bs) = Some bs \<and> \<not> list_ex is_white (hex_encode_key K bs))
   \<and> (\<forall>k. key_from_slice K (secret_bytes K k) = Some k)"

lemma trim_id: "\<not> list_ex is_white s \<Longrightarrow> trim s = s"
proof -
  assume "\<not> list_ex is_white s"
  then have "\<forall>c \<in> set s. \<not> is_white c" by (simp add: list_ex_iff)
  then have "dropWhile is_white s = s" "dropWhile is_white (rev s) = rev s"
    by (cases "s = []"; simp add: dropWhile_eq_self_iff hd_rev)+
  then show ?thesis by (simp add: trim_def)
qed

lemma load_saved_key:
  assumes "key_codec_ok K"
  shows "load_or_generate K st (KeyText (hex_encode_key K (secret_bytes K k))) =
    (Inr k, KeyText (hex_encode_key K (secret_bytes K k)))"
  using assms by (simp add: load_or_generate_def key_codec_ok_def trim_id)

lemma restarts_saved_key:
  assumes "key_codec_ok K"
  shows "restarts K sts (KeyText (hex_encode_key K (secret_bytes K k))) =
    (replicate (length sts) (Inr k), KeyText (hex_encode_key K (secret_bytes K k)))"
  by (induction sts) (simp_all add: load_saved_key [OF assms])

lemma existing_file_fixed:
  "f \<noteq> NoKeyFile \<Longrightarrow> snd (load_or_generate K st f) = f
     \<and> fst (load_or_generate K st f) = fst (load_or_generate K st' f)"
  by (auto simp: load_or_generate_def split: key_file.split option.split)

lemma existing_file_restarts:
  "f \<noteq> NoKeyFile \<Longrightarrow>
   restarts K sts f = (replicate (length sts) (fst (load_or_generate K st f)), f)"
proof (induction sts)
  case (Cons a sts)
  then show ?case
    using existing_file_fixed [OF Cons.prems, of K a st] by (simp add: case_prod_beta prod_eq_iff)
qed simp

text \<open>Lower-case hexadecimal, for the concrete runs; any bytes are a key.\<close>

definition hex_digits :: string where "hex_digits = ''0123456789abcdef''"

definition hex_digit :: "nat \<Rightarrow> char" where
  "hex_digit n = hex_digits ! n"

definition hex_value :: "char \<Rightarrow> nat option" where
  "hex_value c = map_of (zip hex_digits [0..<16]) c"

fun unhex :: "string \<Rightarrow> byte list option" where
  "unhex [] = Some []"
| "unhex [c] = None"
| "unhex (c # c' # cs) =
     (case (hex_value c, hex_value c', unhex cs) of
        (Some h, Some l, Some bs) \<Rightarrow> Some (of_nat (16 * h + l) # bs)
      | _ \<Rightarrow> None)"

definition hex_codec :: "byte list key_codec" where
  "hex_codec =
     \<lparr>hex_decode = unhex,
      hex_encode_key = concat \<circ> map (\<lambda>b. [hex_digit (unat b div 16), hex_digit (unat b mod 16)]),
      key_from_slice = Some, secret_bytes = id\<rparr>"

lemma hex_digit:
  assumes "n < 16"
  shows "hex_value (hex_digit n) = Some n" "\<not> is_white (hex_digit n)"
proof -
  have len: "length hex_digits = 16" and dist: "distinct hex_digits"
    and white: "\<forall>c \<in> set hex_digits. \<not> is_white c"
    by (simp_all add: hex_digits_def is_white_def)
  show "hex_value (hex_digit n) = Some n"
    using map_of_zip_nth [of hex_digits "[0..<16]" n] assms len dist by (simp add: hex_value_def hex_digit_def)
  show "\<not> is_white (hex_digit n)"
    using assms len white by (simp add: hex_digit_def)
qed

lemma hex_codec_ok: "key_codec_ok hex_codec"
proof -
  have b: "unat b div 16 < 16" "unat b mod 16 < 16" for b :: byte
    using unat_less [of b] by (simp_all add: div_less_iff_less_mult)
  have "unhex (hex_encode_key hex_codec bs) = Some bs" for bs
    by (induction bs) (simp_all add: hex_codec_def hex_digit b)
  moreover have "\<not> list_ex is_white (hex_encode_key hex_codec bs)" for bs
    by (induction bs) (simp_all add: hex_codec_def hex_digit b)
  ultimately show ?thesis by (simp add: key_codec_ok_def hex_codec_def)
qed

text \<open>
  C29. The node keeps its identity: once a start has generated and saved a key, every later start
  loads that key, whatever its random generator would give. And a file that exists is never
  written, so every start on it ends alike: a key file cut short by a failed write is not repaired.
\<close>

theorem node_key_stable:
  assumes "key_codec_ok K" "load_or_generate K st f = (r, f')" "f \<noteq> NoKeyFile \<or> r = Inr k"
  shows "restarts K sts f' = (replicate (length sts) r, f')"
proof (cases "f = NoKeyFile")
  case True
  with assms(2,3) have "r = Inr k" "f' = KeyText (hex_encode_key K (secret_bytes K k))"
    by (auto simp: load_or_generate_def Let_def split: if_splits key_write.splits option.splits)
  then show ?thesis using restarts_saved_key [OF assms(1)] by simp
next
  case False
  from existing_file_restarts [OF this, of K sts st] existing_file_fixed [OF this, of K st] assms(2)
  show ?thesis by simp
qed

theorem node_key_stable_witness:
  "restarts hex_codec
     [\<lparr>rng_key = [9], dirs_ok = False, key_write = KeyCut None\<rparr>, \<lparr>rng_key = [3], dirs_ok = True, key_write = KeyWritten\<rparr>]
     (KeyText ''07a8'') = ([Inr [7, 168], Inr [7, 168]], KeyText ''07a8'')"
proof -
  have "load_or_generate hex_codec \<lparr>rng_key = [7, 168], dirs_ok = True, key_write = KeyWritten\<rparr> NoKeyFile
      = (Inr [7, 168], KeyText ''07a8'')"
    by (simp add: load_or_generate_def hex_codec_def hex_digit_def hex_digits_def)
  from node_key_stable [OF hex_codec_ok this]
  show ?thesis by (simp del: restarts.simps)
qed

end
