(* ===== verification/Sentry_Main.thy ===== *)
theory Sentry_Main
  imports Node_Properties Node_Key
begin

text \<open>
  \<open>src/main.rs\<close>: the start of the program, in the order of \<open>main\<close>: choose the configuration, start
  the WebSocket server if it is enabled, load or generate the node key, create the forwarder, build
  the network configuration (\<open>startup\<close>), and start the network (\<open>boot\<close>). \<open>startup_error\<close> says how it
  can end before the network starts; the outcomes of the operating system and of the parsers are in
  \<open>main_env\<close>.
\<close>

datatype startup_error =
    BadConfig config_error
  | WsFailed ws_start_error
  | KeyFailed key_error
  | ForwarderPanic string

record ('p, 'a, 'k) main_env =
  me_read_file :: "'p \<Rightarrow> string option"
  me_parse_toml :: "string \<Rightarrow> config_fields option"
  me_parse_addr :: "string \<Rightarrow> 'a option"
  me_bind :: "'a \<Rightarrow> bool"
  me_key_codec :: "'k key_codec"
  me_key_start :: "'k key_start"

record ('a, 'k, 'c) started_node =
  node_ws :: "'a option"
  node_key :: 'k
  node_backend :: backend_config
  node_forwarder :: "'c tx_dedup forwarder option"
  node_network :: sentry_network_config

definition startup ::
    "('c, b256, unit) lru_ops \<Rightarrow> ('p, 'a, 'k) main_env \<Rightarrow> 'p cli \<Rightarrow> key_file
     \<Rightarrow> (startup_error + ('a, 'k, 'c) started_node) \<times> key_file" where
  "startup L E cli keyfile =
     (case choose_config (me_read_file E) (me_parse_toml E) cli of
        Inl e \<Rightarrow> (Inl (BadConfig e), keyfile)
      | Inr cfg \<Rightarrow>
          (case (if ws_enabled (websocket cfg)
                 then map_sum WsFailed Some (start_ws_server (me_parse_addr E) (me_bind E) (websocket cfg))
                 else Inr None) of
             Inl e \<Rightarrow> (Inl e, keyfile)
           | Inr ws \<Rightarrow>
               (case load_or_generate (me_key_codec E) (me_key_start E) keyfile of
                  (Inl e, keyfile') \<Rightarrow> (Inl (KeyFailed e), keyfile')
                | (Inr key, keyfile') \<Rightarrow>
                    (case forwarder_new L (backend cfg) of
                       Inl panic \<Rightarrow> (Inl (ForwarderPanic panic), keyfile')
                     | Inr fwd \<Rightarrow>
                         (Inr \<lparr>node_ws = ws, node_key = key, node_backend = backend cfg, node_forwarder = fwd,
                               node_network = network_config_from (network cfg)\<rparr>, keyfile')))))"

text \<open>
  The rest of \<open>main\<close>: the started parts become the environment of the node's tasks. \<open>X\<close> holds what is
  not the program's: the caches, the codecs and how the pool's transactions are read; its own
  configuration is replaced.
\<close>

datatype main_error = StartFailed startup_error | NetworkFailed network_error

definition node_environment ::
    "('c, b256, unit) lru_ops \<Rightarrow> ('a, 'k, 'c) started_node
     \<Rightarrow> ('hh, 'hn, 'nh, 'bh, 'x, 'b, 'c tx_dedup, 't) node_env
     \<Rightarrow> ('hh, 'hn, 'nh, 'bh, 'x, 'b, 'c tx_dedup, 't) node_env" where
  "node_environment L started X =
     X\<lparr>ne_config := node_network started,
       ne_forwarder :=
         \<lparr>env_config = node_backend started, env_ws = (node_ws started \<noteq> None), env_check = dedup_check L,
          env_hex = env_hex (ne_forwarder X)\<rparr>\<rparr>"

definition boot ::
    "('c, b256, unit) lru_ops \<Rightarrow> ('p, 'a, 'k) main_env
     \<Rightarrow> ('hh, 'hn, 'nh, 'bh, 'x, 'b, 'c tx_dedup, 't) node_env \<Rightarrow> ('chain, 'peer) known_network \<Rightarrow> u64
     \<Rightarrow> network_start \<Rightarrow> disk_file \<Rightarrow> 'p cli \<Rightarrow> key_file
     \<Rightarrow> (main_error + ('hh, 'hn, 'nh, 'bh, 'x, 'b, 'c tx_dedup, 't) node_env
          \<times> ('chain, 'peer) network_settings \<times> ('hh, 'hn, 'nh, 'bh, 'x, 'b, 'c tx_dedup, 'q, 't) node) \<times> key_file"
  where
  "boot L M X mainnet now results f cli keyfile =
     (case startup L M cli keyfile of
        (Inl e, keyfile') \<Rightarrow> (Inl (StartFailed e), keyfile')
      | (Inr started, keyfile') \<Rightarrow>
          let E = node_environment L started X
          in (map_sum NetworkFailed (Pair E)
                (start_sentry_network E mainnet now results (node_forwarder started) f), keyfile'))"


definition sample_main_env :: "(string, string, byte list) main_env" where
  "sample_main_env =
     \<lparr>me_read_file = \<lambda>_. None, me_parse_toml = \<lambda>_. None, me_parse_addr = Some, me_bind = \<lambda>_. True,
      me_key_codec = hex_codec,
      me_key_start = \<lparr>rng_key = [7], dirs_ok = True, key_write = KeyWritten\<rparr>\<rparr>"


lemma map_sum_eq_Inr_iff: "map_sum f g x = Inr y \<longleftrightarrow> (\<exists>z. x = Inr z \<and> y = g z)"
  by (cases x) auto

text \<open>What a start from the command line hands to the network, if it gets that far.\<close>

lemma command_line_parts:
  assumes "cli_config cli = None" "fst (startup L M cli keyfile) = Inr started"
  shows "endpoints (node_backend started) = cli_backends cli"
    "chain_id (node_network started) = cli_chain_id cli" "node_ws started = None \<longleftrightarrow> cli_no_ws cli"
    "\<exists>d. node_forwarder started = Some (forwarder_init (node_backend started) d)"
proof -
  obtain cfg where cfg: "choose_config (me_read_file M) (me_parse_toml M) cli = Inr cfg"
    and bk: "endpoints (backend cfg) = cli_backends cli" "buffer_size (backend cfg) = 4096"
      "cache_size (backend_dedup (backend cfg)) = 100000"
    and ws: "ws_enabled (websocket cfg) = (\<not> cli_no_ws cli)"
    and net: "chain_id (network_config_from (network cfg)) = cli_chain_id cli"
    using assms(1) by (cases "cli_backends cli") (simp_all add: choose_config_def default_simps network_config_from_def)
  obtain d where "forwarder_new L (backend cfg) = Inr (Some (forwarder_init (backend cfg) d))"
    using bk by (simp add: forwarder_new_def tx_dedup_new_def)
  with assms(2) cfg bk ws net show "endpoints (node_backend started) = cli_backends cli"
    "chain_id (node_network started) = cli_chain_id cli" "node_ws started = None \<longleftrightarrow> cli_no_ws cli"
    "\<exists>d. node_forwarder started = Some (forwarder_init (node_backend started) d)"
    by (auto simp: startup_def map_sum_eq_Inr_iff split: sum.splits prod.splits if_splits)
qed

text \<open>
  C6. From the command line to the wire: in every state that a node started without a configuration
  file can reach, every transaction posted went to one of the \<open>--backends\<close> and satisfies the stateless
  rules for the \<open>--chain-id\<close>, and so does every one broadcast to WebSocket clients; with \<open>--no-ws\<close>
  none is broadcast.
\<close>

theorem command_line_node_forwards:
  assumes "cli_config cli = None"
    and "fst (boot L M X mainnet now results f cli keyfile) = Inr (E, settings, n)"
    and "node_runs E ls n m" "nd_fwd m = Some s"
  shows "let ok = (\<lambda>tx. stateless_valid (default_validator_config\<lparr>expected_chain_id := cli_chain_id cli\<rparr>) (ne_pool_tx X tx))
     in (\<forall>p \<in> set (posts s). \<exists>i tx. ok tx \<and> post_url p \<in> set (cli_backends cli)
           \<and> post_body p = send_raw_request (env_hex (ne_forwarder X)) i
               \<lparr>tx_hash = ne_tx_hash X tx, tx_raw = ne_encode X tx\<rparr>)
      \<and> (\<forall>ntf \<in> set (ws_out s). \<exists>tx. ok tx \<and> ntf = \<lparr>ntf_hash = ne_tx_hash X tx, ntf_raw_tx = ne_encode X tx\<rparr>)
      \<and> (if cli_no_ws cli then ws_out s = [] else True)"
proof -
  obtain started where started: "fst (startup L M cli keyfile) = Inr started"
    and E: "E = node_environment L started X"
    and start: "start_sentry_network E mainnet now results (node_forwarder started) f = Inr (settings, n)"
    using assms(2) by (auto simp: boot_def Let_def map_sum_eq_Inr_iff split: prod.splits sum.splits)
  note parts = command_line_parts [OF assms(1) started]
  from parts(4) obtain d where "node_forwarder started = Some (forwarder_init (env_config (ne_forwarder E)) d)"
    by (auto simp: E node_environment_def)
  with start have start: "start_sentry_network E mainnet now results
      (Some (forwarder_init (env_config (ne_forwarder E)) d)) f = Inr (settings, n)" by simp
  have fields: "ne_pool_tx E = ne_pool_tx X" "ne_tx_hash E = ne_tx_hash X" "ne_encode E = ne_encode X"
    "env_hex (ne_forwarder E) = env_hex (ne_forwarder X)" "endpoints (env_config (ne_forwarder E)) = cli_backends cli"
    "network_validator_config (ne_config E) = default_validator_config\<lparr>expected_chain_id := cli_chain_id cli\<rparr>"
    "env_ws (ne_forwarder E) = (\<not> cli_no_ws cli)"
    using parts by (simp_all add: E node_environment_def network_validator_config_def)
  have "ws_out s = []" if "cli_no_ws cli"
  proof -
    from fwd_history_run [OF start assms(3)] assms(4) obtain ks where
      "runs (ne_forwarder E) ks (forwarder_init (env_config (ne_forwarder E)) d) s"
      by (auto simp: fwd_history_def)
    from accounted_runs [OF this refl] that fields(7) show ?thesis by (auto simp: accounted_def)
  qed
  then show ?thesis
    using forwarded_are_valid [OF start assms(3,4)] unfolding fields Let_def by simp
qed

text \<open>Booted from the command line with one backend; a run in which a transaction reaches it.\<close>

definition sample_boot ::
    "(main_error + (nat \<times> (b256 \<times> header) list, nat \<times> (u64 \<times> header) list, nat \<times> (u64 \<times> b256) list,
        nat \<times> (b256 \<times> byte list) list, unit, byte list, (nat \<times> (b256 \<times> unit) list) tx_dedup, pool_tx) node_env
      \<times> (unit, unit) network_settings \<times> list_node) \<times> key_file" where
  "sample_boot = boot list_lru sample_main_env sample_node_env sample_mainnet 1700000000
     \<lparr>runtime_built = True, manager_started = True, fetch_client_ok = True\<rparr> Absent
     ((cli_defaults ''data'')\<lparr>cli_backends := [''a'']\<rparr>) NoKeyFile"

definition booted where "booted = projr (fst sample_boot)"

definition boot_labels :: "(unit, byte list, string, pool_tx) node_label list" where
  "boot_labels = [Admit sample_tx, NotifyPending sample_tx, TakePending, SendForward, Forwarder Receive,
     Forwarder Acquire, Forwarder (Post 0 RequestFailed)]"

definition boot_end :: list_node where
  "boot_end = the (exec_node (fst booted) silent_net boot_labels (snd (snd booted)))"

lemma sample_booted: "fst sample_boot = Inr (fst booted, fst (snd booted), snd (snd booted))"
  by (simp add: booted_def sample_boot_def boot_def startup_def choose_config_def cli_defaults_def default_simps
      start_ws_server_def forwarder_new_def load_or_generate_def sample_main_env_def Let_def
      tx_dedup_new_def start_sentry_network_def)

lemma booted_eq:
  "fst booted = sample_node_env\<lparr>ne_config := default_sentry_network_config,
     ne_forwarder := \<lparr>env_config = default_backend_config\<lparr>endpoints := [''a'']\<rparr>, env_ws = True,
       env_check = dedup_check list_lru, env_hex = env_hex sample_env\<rparr>\<rparr>"
  by (simp add: booted_def sample_boot_def boot_def startup_def choose_config_def cli_defaults_def default_simps
      start_ws_server_def forwarder_new_def load_or_generate_def sample_main_env_def Let_def
      tx_dedup_new_def start_sentry_network_def node_environment_def default_sentry_network_config_def
      default_backend_config_def network_config_from_def)

lemma booted_fields:
  "nd_stage (snd (snd booted)) = Running" "nd_pool (snd (snd booted)) = []" "nd_pending (snd (snd booted)) = []"
  "nd_forwarding (snd (snd booted)) = None" "\<not> nd_forward_stopped (snd (snd booted))"
  "nd_fwd (snd (snd booted)) =
     Some (forwarder_init (default_backend_config\<lparr>endpoints := [''a'']\<rparr>)
       (projr (tx_dedup_new list_lru default_dedup_config)))"
  by (simp_all add: booted_def sample_boot_def boot_def startup_def choose_config_def cli_defaults_def default_simps
      start_ws_server_def forwarder_new_def load_or_generate_def sample_main_env_def Let_def
      tx_dedup_new_def start_sentry_network_def default_backend_config_def)

lemma boot_exec:
  "exec_node (fst booted) silent_net boot_labels (snd (snd booted)) = Some boot_end"
  "map_option (\<lambda>s. (map post_url (posts s), ws_out s)) (nd_fwd boot_end) =
     Some ([''a''], [\<lparr>ntf_hash = 7, ntf_raw_tx = [1]\<rparr>])"
proof -
  have "network_validator_config default_sentry_network_config = network_validator_config sample_net_config"
    by (simp add: network_validator_config_def sample_net_config_def)
  then have valid: "validate_transaction (network_validator_config default_sentry_network_config) sample_tx =
      Valid \<lparr>out_balance = - 1, out_state_nonce = 0, out_bytecode_hash = None,
             out_transaction = sample_tx, out_propagate = True, out_authorities = None\<rparr>"
    by simp
  have "exec_node (fst booted) silent_net boot_labels (snd (snd booted)) \<noteq> None"
    by (simp add: exec_node_step_def boot_labels_def booted_eq booted_fields valid take_pending_def send_forward_def
        default_simps tx_dedup_new_def sample_eval)
  then show "exec_node (fst booted) silent_net boot_labels (snd (snd booted)) = Some boot_end"
    unfolding boot_end_def by auto
  show "map_option (\<lambda>s. (map post_url (posts s), ws_out s)) (nd_fwd boot_end) =
      Some ([''a''], [\<lparr>ntf_hash = 7, ntf_raw_tx = [1]\<rparr>])"
    by (simp add: exec_node_step_def boot_end_def boot_labels_def booted_eq booted_fields valid take_pending_def send_forward_def
        default_simps tx_dedup_new_def sample_eval)
qed

theorem command_line_node_forwards_witness:
  "case nd_fwd boot_end of
     None \<Rightarrow> False
   | Some s \<Rightarrow> \<exists>p tx. posts s = [p] \<and> post_url p \<in> set [''a'']
       \<and> stateless_valid (default_validator_config\<lparr>expected_chain_id := 1\<rparr>) tx"
proof -
  let ?cli = "(cli_defaults ''data'')\<lparr>cli_backends := [''a'']\<rparr>"
  obtain s where s: "nd_fwd boot_end = Some s" "map post_url (posts s) = [''a'']"
    using boot_exec(2) by auto
  have none: "cli_config ?cli = None" by (simp add: cli_defaults_def)
  obtain p where p: "posts s = [p]" using s(2) by auto
  have "\<exists>tx. stateless_valid (default_validator_config\<lparr>expected_chain_id := cli_chain_id ?cli\<rparr>) tx
      \<and> post_url p \<in> set (cli_backends ?cli)"
    using command_line_node_forwards [OF none sample_booted [unfolded sample_boot_def] exec_node_runs [OF boot_exec(1)] s(1)]
      p unfolding Let_def by auto
  then show ?thesis using s p by (auto simp: cli_defaults_def)
qed

end
