(* ===== verification/Cache_Spec.thy ===== *)
theory Cache_Spec
  imports Block_Cache
begin

text \<open>
  What the block cache promises: four unbounded maps. \<open>spec_run\<close> performs the same operations on
  the maps; as long as the maps have no more entries than the capacity, the cache of
  \<open>src/block_cache.rs\<close> cannot be told from them.
\<close>

record ('x, 'b) cache_spec =
  spec_headers :: "b256 \<rightharpoonup> 'x header_scheme"
  spec_numbers :: "u64 \<rightharpoonup> 'x header_scheme"
  spec_hashes :: "u64 \<rightharpoonup> b256"
  spec_bodies :: "b256 \<rightharpoonup> 'b"

definition spec_new :: "('x, 'b) cache_spec" where
  "spec_new = \<lparr>spec_headers = Map.empty, spec_numbers = Map.empty, spec_hashes = Map.empty,
               spec_bodies = Map.empty\<rparr>"

fun spec_op :: "('x, 'b) cache_op \<Rightarrow> ('x, 'b) cache_spec \<Rightarrow> ('x, 'b) cache_spec" where
  "spec_op (Insert x h b) s =
     \<lparr>spec_headers = (spec_headers s)(x \<mapsto> h), spec_numbers = (spec_numbers s)(number h \<mapsto> h),
      spec_hashes = (spec_hashes s)(number h \<mapsto> x), spec_bodies = (spec_bodies s)(x \<mapsto> b)\<rparr>"
| "spec_op (InsertHeader x h) s =
     \<lparr>spec_headers = (spec_headers s)(x \<mapsto> h), spec_numbers = (spec_numbers s)(number h \<mapsto> h),
      spec_hashes = (spec_hashes s)(number h \<mapsto> x), spec_bodies = spec_bodies s\<rparr>"
| "spec_op (InsertBody x b) s = s\<lparr>spec_bodies := (spec_bodies s)(x \<mapsto> b)\<rparr>"
| "spec_op (HeaderByHash x) s = s"
| "spec_op (HeaderByNumber m) s = s"
| "spec_op (BodyByHash x) s = s"
| "spec_op (HashByNumber m) s = s"

fun spec_run :: "('x, 'b) cache_op list \<Rightarrow> ('x, 'b) cache_spec \<Rightarrow> ('x, 'b) cache_spec" where
  "spec_run [] s = s"
| "spec_run (op # ops) s = spec_run ops (spec_op op s)"

lemma spec_run_append: "spec_run (xs @ ys) s = spec_run ys (spec_run xs s)"
  by (induction xs arbitrary: s) auto

text \<open>The maps a cache stands for, and specifications that fit in a capacity.\<close>

definition cache_abs ::
    "('hh, 'hn, 'nh, 'bh, 'x, 'b) block_lrus \<Rightarrow> ('hh, 'hn, 'nh, 'bh) block_cache \<Rightarrow> ('x, 'b) cache_spec"
  where
  "cache_abs B c =
     \<lparr>spec_headers = header_at_hash B c, spec_numbers = header_at_number B c,
      spec_hashes = hash_at_number B c, spec_bodies = body_at B c\<rparr>"

definition spec_fits :: "nat \<Rightarrow> ('x, 'b) cache_spec \<Rightarrow> bool" where
  "spec_fits n s \<longleftrightarrow> card (dom (spec_headers s)) \<le> n \<and> card (dom (spec_numbers s)) \<le> n
     \<and> card (dom (spec_hashes s)) \<le> n \<and> card (dom (spec_bodies s)) \<le> n"

definition spec_finite :: "('x, 'b) cache_spec \<Rightarrow> bool" where
  "spec_finite s \<longleftrightarrow> finite (dom (spec_headers s)) \<and> finite (dom (spec_numbers s))
     \<and> finite (dom (spec_hashes s)) \<and> finite (dom (spec_bodies s))"

lemma spec_finite_op: "spec_finite s \<Longrightarrow> spec_finite (spec_op op s)"
  by (cases op) (simp_all add: spec_finite_def)

lemma spec_finite_run: "spec_finite s \<Longrightarrow> spec_finite (spec_run ops s)"
  by (induction ops arbitrary: s) (simp_all add: spec_finite_op)

lemma spec_finite_new: "spec_finite spec_new"
  by (simp add: spec_finite_def spec_new_def)

lemma spec_fits_op: "spec_finite s \<Longrightarrow> spec_fits n (spec_op op s) \<Longrightarrow> spec_fits n s"
  by (cases op) (auto simp: spec_finite_def spec_fits_def card_insert_if split: if_splits)

context lru_cache
begin

lemma view_push_within:
  assumes "lru_ok L c" "card (insert k (dom (lru_view L c))) \<le> lru_cap L c"
  shows "lru_view L (lru_push L k v c) = (lru_view L c)(k \<mapsto> v)"
proof (rule view_push_room [OF assms(1)])
  have keys: "dom (lru_view L c) = set (lru_keys L c)" by (rule keys_view [OF assms(1), symmetric])
  have "card (set (lru_keys L c)) = length (lru_iter L c)"
    using assms(1) distinct_card [of "lru_keys L c"] by (simp add: lru_ok_def lru_keys_def)
  then show "k \<in> fst ` set (lru_iter L c) \<or> length (lru_iter L c) < lru_cap L c"
    using assms(2) unfolding keys by (auto simp: lru_keys_def card_insert_if split: if_splits)
qed

end

context block_caches
begin

lemma abs_apply_op:
  assumes "cache_ok B c" "caps_are B n c" "spec_fits n (spec_op op (cache_abs B c))"
  shows "cache_abs B (apply_op B op c) = spec_op op (cache_abs B c)"
proof -
  note ok = assms(1) [unfolded cache_ok_def] and caps = assms(2) [unfolded caps_are_def]
  note within = hh.view_push_within hn.view_push_within nh.view_push_within bh.view_push_within
  show ?thesis
    using assms(3) ok caps
    by (cases op)
      (simp_all add: cache_abs_def spec_fits_def header_at_hash_def header_at_number_def hash_at_number_def
        body_at_def cache_insert_def cache_insert_header_def cache_insert_body_def Let_def within
        get_header_by_hash_def get_header_by_number_def get_body_by_hash_def get_hash_by_number_def
        case_prod_beta hh.view_get hn.view_get nh.view_get bh.view_get)
qed

lemma abs_new: "cache_abs B (cache_new B n) = spec_new"
  by (simp add: cache_abs_def spec_new_def view_cache_new)

lemma abs_history:
  "spec_fits (effective_capacity n) (spec_run ops spec_new) \<Longrightarrow>
   cache_abs B (run_ops B ops (cache_new B n)) = spec_run ops spec_new"
proof (induction ops rule: rev_induct)
  case Nil
  then show ?case by (simp add: abs_new)
next
  case (snoc op ops)
  have "spec_fits (effective_capacity n) (spec_run ops spec_new)"
    using snoc.prems spec_fits_op [OF spec_finite_run [OF spec_finite_new]] by (simp add: spec_run_append)
  then have IH: "cache_abs B (run_ops B ops (cache_new B n)) = spec_run ops spec_new" by (rule snoc.IH)
  show ?case
    using snoc.prems abs_apply_op [OF ok_history caps_history [of n ops], of op]
    by (simp add: spec_run_append run_ops_append IH)
qed

end

text \<open>
  C10. Refinement: as long as no more distinct hashes and block numbers were inserted than the
  capacity, every lookup in the cache, after any operations, answers exactly what unbounded maps
  would: the header, hash or body inserted last under that key.
\<close>

theorem cache_refines_maps:
  assumes "block_caches B" "spec_fits (effective_capacity n) (spec_run ops spec_new)"
  shows "let c = run_ops B ops (cache_new B n); s = spec_run ops spec_new in
      fst (get_header_by_hash B x c) = spec_headers s x
    \<and> fst (get_header_by_number B m c) = spec_numbers s m
    \<and> fst (get_hash_by_number B m c) = spec_hashes s m
    \<and> fst (get_body_by_hash B x c) = spec_bodies s x"
  unfolding Let_def block_caches.gets_history [OF assms(1)]
    block_caches.abs_history [OF assms, symmetric] cache_abs_def
  by simp

theorem cache_refines_maps_witness:
  "let c = run_ops list_lrus
        [Insert 8 \<lparr>number = 6, timestamp = 72\<rparr> ''b'', HeaderByNumber 6, InsertHeader 9 \<lparr>number = 6, timestamp = 73\<rparr>,
         InsertBody 8 ''c''] (cache_new list_lrus 2)
   in fst (get_header_by_number list_lrus 6 c) = Some \<lparr>number = 6, timestamp = 73\<rparr>
    \<and> fst (get_body_by_hash list_lrus 8 c) = Some ''c''"
proof -
  let ?ops = "[Insert 8 \<lparr>number = 6, timestamp = 72\<rparr> ''b'', HeaderByNumber 6,
      InsertHeader 9 \<lparr>number = 6, timestamp = 73\<rparr>, InsertBody 8 ''c'']"
  have fits: "spec_fits (effective_capacity 2) (spec_run ?ops spec_new)"
    by (simp add: spec_fits_def spec_new_def effective_capacity_def card_insert_if)
  show ?thesis
    using cache_refines_maps [OF list_blocks.block_caches_axioms fits, of 8 6]
    unfolding Let_def by (simp add: spec_new_def del: run_ops.simps)
qed

end
