(* ===== verification/Ws_Delivery.thy ===== *)
theory Ws_Delivery
  imports Tx_Forwarder
begin

text \<open>
  From \<open>TxForwarder::forward\<close> to a WebSocket client: the composition of \<open>src/forwarder.rs\<close> and
  \<open>src/ws_server.rs\<close>. The forwarder's broadcasts are the broadcasts the server's receivers see, and
  what a receiver's \<open>recv\<close> calls return is what its connection's task streams.
\<close>

lemma received_map_Recv [simp]: "received (map Recv ns) = ns"
  by (induction ns) simp_all

lemma connection_without_failures:
  assumes "wait_for_subscription (json_subscribe J) first = Some mode" "\<And>k. send_ok k"
  shows "fst (handle_ws_connection J True first send_ok (map Recv ns)) =
    json_confirm J mode # List.map_filter (notification_json J (use_raw mode)) ns"
proof -
  have "map snd (takeWhile (\<lambda>(i, _). send_ok i) (enumerate 1 xs)) = xs" for xs :: "string list"
  proof -
    have "takeWhile (\<lambda>(i, _). send_ok i) (enumerate 1 xs) = enumerate 1 xs"
      using assms(2) by (simp add: takeWhile_eq_all_conv case_prod_beta)
    then show ?thesis by (simp only: map_snd_enumerate)
  qed
  then show ?thesis
    using assms stream_loop_sent [of J "use_raw mode" send_ok 1 "map Recv ns"]
    by (simp add: handle_ws_connection_def case_prod_beta)
qed

text \<open>
  C17. A WebSocket client gets what is forwarded: when the forwarder has nothing left to do and the
  client's task has taken everything from its channel, the client was sent the confirmation and
  then the JSON of exactly those transactions that the deduplicator let through after the client was
  accepted, in order and each once, provided they were no more than the capacity and no send failed.
\<close>

theorem clients_receive_forwarded:
  assumes "lru_cache L" "tx_dedup_new L (backend_dedup (env_config F)) = Inr d"
    and "env_check F = dedup_check L" "env_ws F"
    and "runs F ls (forwarder_init (env_config F) d) s" "quiescent s"
    and "broadcasts (es @ Accepted p # fs) = ws_out s"
    and "0 < ws_capacity config" "ws_capacity config \<le> ring" "ws_capacity config < 2 ^ 64"
    and "length (broadcasts fs) \<le> ws_capacity config"
    and r: "r = accept_loop ring (es @ Accepted p # fs) [] ! length (accepted_peers es)" and "rc_pending r = []"
    and "wait_for_subscription (json_subscribe J) first = Some mode" "\<And>k. send_ok k"
  shows "fst (handle_ws_connection J True first send_ok (rc_results r)) =
      json_confirm J mode #
      List.map_filter (notification_json J (use_raw mode))
        (map ntf_of (drop (length (broadcasts es)) (accepted_txs (dedup_check L) d (submitted ls))))"
proof -
  have "ws_out s = map ntf_of (accepted_txs (dedup_check L) d (submitted ls))"
    using dedup_cache.forwarded_once [OF dedup_cache.intro [OF assms(1)] assms(2,3,5,6)] assms(4)
    by (simp add: Let_def)
  then have "broadcasts es @ broadcasts fs = map ntf_of (accepted_txs (dedup_check L) d (submitted ls))"
    using assms(7) by (simp add: broadcasts_append)
  then have later: "broadcasts fs =
      map ntf_of (drop (length (broadcasts es)) (accepted_txs (dedup_check L) d (submitted ls)))"
    by (metis append_eq_conv_conj drop_map)
  have "keeps_up ring (broadcasts fs) r"
    unfolding r by (rule receiver_keeps_up) (use assms(8-11) in simp_all)
  then have "rc_results r = map Recv (broadcasts fs)"
    using assms(9,11,13) by (simp add: keeps_up_def)
  then show ?thesis
    unfolding later [symmetric]
    using connection_without_failures [of J first mode send_ok "broadcasts fs"] assms(14,15) by simp
qed

definition plain_json :: ws_json where
  "plain_json = \<lparr>json_subscribe = \<lambda>_. None, json_confirm = \<lambda>m. ''ok '' @ m,
     json_hash = Some, json_raw = \<lambda>h r. Some r, hex_encode = map (\<lambda>_. CHR ''f'')\<rparr>"

theorem clients_receive_forwarded_witness:
  "fst (handle_ws_connection plain_json True Elapsed (\<lambda>_. True)
     (rc_results (accept_loop 4096 ([] @ Accepted ''p'' # [Broadcast \<lparr>ntf_hash = 7, ntf_raw_tx = [1]\<rparr>, Poll 0]) [] ! 0)))
   = [''ok raw'', ''0xf'']"
proof -
  let ?fs = "[Broadcast \<lparr>ntf_hash = 7, ntf_raw_tx = [1]\<rparr>, Poll 0]"
  have out: "broadcasts ([] @ Accepted ''p'' # ?fs) = ws_out sample_final"
    by (simp add: sample_final_def sample_eval)
  have "env_ws sample_env" by (simp add: sample_env_def)
  note stream = clients_receive_forwarded [OF list_cache.lru_cache_axioms sample_new(1,2) this sample_runs sample_new(3)
      out, of default_ws_config 4096 _ plain_json Elapsed "''raw''" "\<lambda>_. True", OF _ _ _ _ refl]
  show ?thesis
    using stream
    by (simp add: default_ws_config_def default_ws_capacity_def wait_for_subscription_def rc_send_def rc_recv_def
        plain_json_def notification_json_def use_raw_def ntf_of_def sample_run_def sample_eval)
qed

end
