(* ===== verification/Spec2Isabelle.thy ===== *)
theory Spec2Isabelle
  imports Sentry_Main Cache_Spec Ws_Delivery
begin

text \<open>
  A verification development of \<open>reth_sentry_node\<close>, a lightweight Ethereum sentry: it joins the
  peer-to-peer network, validates pending transactions without chain state, forwards them to
  backends over HTTP and WebSocket, and caches announced blocks to serve them to peers.

  \<^bold>\<open>Parts and theories.\<close> Each theory models one module of \<open>src/\<close>, with the names of the code.

  \<^item> \<open>Sentry_Prelude\<close>: machine words, checked arithmetic, little-endian bytes, the state-and-error
    monad of the file code, association lists kept in order of use.
  \<^item> \<open>Lru_Interface\<close>: the locale \<open>lru_cache\<close>, the documented behaviour of the crate \<open>lru\<close> on which
    \<open>dedup.rs\<close> and \<open>block_cache.rs\<close> rely; a list implementation shows that it can be met and runs
    the examples.
  \<^item> \<open>Tx_Filter\<close>, \<open>Tx_Dedup\<close>: the contract \<open>tx_filter\<close> of a window of recently seen hashes, and
    \<open>dedup.rs\<close>, which keeps it. \<open>Tx_Forwarder\<close> is a client of the contract.
  \<^item> \<open>Tx_Validator\<close>: \<open>validator.rs\<close>; the checks in their order, and the conditions they decide over
    unbounded numbers.
  \<^item> \<open>Block_Cache\<close>, \<open>Block_Persist\<close>: \<open>block_cache.rs\<close> in memory (four LRU caches) and on disk (byte for
    byte, with file system faults). A history of the shared cache is a list of \<open>cache_op\<close>.
  \<^item> \<open>Cache_Spec\<close>: the cache as four unbounded maps, which it refines up to its capacity.
  \<^item> \<open>Block_Store\<close>: the locale \<open>block_store\<close>, what the request handler relies on; the sublocale shows
    that the cache provides it for every capacity.
  \<^item> \<open>Eth_Proxy\<close>: \<open>eth_proxy.rs\<close>, the handler of peers' requests, over any \<open>block_store\<close>, each
    request being atomic.
  \<^item> \<open>Eth_Steps\<close>: the same handler as a program of single calls on the cache and the network, with
    the steps it makes while other tasks use the cache in between.
  \<^item> \<open>Block_Import\<close>: \<open>block_import.rs\<close>, the entry of announced blocks into cache and rebroadcast.
  \<^item> \<open>Ws_Server\<close>: \<open>ws_server.rs\<close>, the accept loop, the subscription and one client's stream.
  \<^item> \<open>Labelled_Runs\<close>: runs of a step relation, and the locale \<open>executable_steps\<close> of a function that
    executes it; interpreted for the forwarder and for the node.
  \<^item> \<open>Tx_Forwarder\<close>: \<open>forwarder.rs\<close>, a step relation in which the loop, the spawned tasks and the
    callers interleave freely; \<open>exec_step\<close> is the same relation as a function. \<open>Ws_Delivery\<close> composes
    it with the WebSocket server.
  \<^item> \<open>Node_Key\<close>: \<open>node_key.rs\<close> over repeated starts.
  \<^item> \<open>Sentry_Config\<close>: \<open>config.rs\<close>, the derived deserialisation, and the choice in \<open>main.rs\<close> between
    file and command line.
  \<^item> \<open>Sentry_Network\<close>: the operations of \<open>network.rs\<close>; what the network is built with, the head,
    rebroadcast, pending transactions, load and save of the block cache.
  \<^item> \<open>Sentry_Node\<close>: \<open>start_sentry_network\<close> and the tasks it spawns. The record \<open>node\<close> holds what they
    share (cache, channels, pool, forwarder, shutdown token, disk), \<open>task_step\<close> has a rule for each
    action of each task, \<open>node_runs\<close> every interleaving, \<open>exec_node\<close> the same as a function.
  \<^item> \<open>Node_Properties\<close>: what every run of the node satisfies.
  \<^item> \<open>Sentry_Main\<close>: \<open>main.rs\<close>, the order of the start, and from there into the running node.

  \<^bold>\<open>How they interact.\<close> An announcement goes through \<open>on_new_block\<close> into the cache and, through a
  channel, to \<open>rebroadcast_new_blocks\<close>; a peer's request goes through \<open>handle_request\<close> to the cache
  and, on a miss, to the network, whose answer is cached; a pending transaction goes through
  \<open>validate_transaction\<close> (called by the pool), \<open>forward_pending\<close>, the forwarder's channel and the
  deduplicator to the WebSocket clients and the backends. \<open>start_cache\<close> and \<open>shutdown_cache\<close> carry
  the cache over a restart. In \<open>Sentry_Node\<close> all of this is one state machine: its projections are runs
  of the components (\<open>task_step_ops\<close>: cache operations; \<open>fwd_history\<close>: a run of the forwarder;
  \<open>blocks_done\<close>: the rebroadcast loop; \<open>all_requests\<close>: the request loop), so that what is proved of a
  component holds of it in the node.

  \<^bold>\<open>What the lemmas show.\<close> For the cache: pairing of hashes, headers and bodies across evictions,
  exactness of \<open>drain_blocks\<close> and \<open>latest\<close>, the round trip through the file and its safety under
  any interrupted write or any bytes. For the handler: the headers answered are the arithmetic walk
  of the request, bodies come in the order asked, one answer per request, header integrity. For the
  forwarder: bounded concurrency, exactly-once posting and broadcasting under every interleaving,
  and draining of all work. For the rest: the window of the deduplicator, the validator's decision
  and first reason, delivery to WebSocket clients, stability of the node key, resolution of the
  configuration, and the start-up. For the node: well-formedness and header integrity of every
  reachable state, what leaves it has passed the validator, requests and blocks are handled in order,
  the handler terminates whatever interferes, the shutdown completes, and a restart keeps the saved
  blocks. Some properties state where the code falls short of its
  intention: a header request by hash answered from another fork, a request proxied without its
  \<open>skip\<close>, a repeated hash or an announcement during a fetch that makes a wrong body cached, a shutdown
  that leaves transactions in the forwarder, a latest block that is missed, a zero
  capacity that restores nothing, zero permits that stop all forwarding.

  \<^bold>\<open>Bounds.\<close> Block numbers, timestamps, gas, fees, counters and ports are words of their width, and
  wrap or are checked as in the code (a release build); \<open>usize\<close> values are natural numbers. The loop
  over the \<open>limit\<close> of a request recurses on the limit, the load loop on the clamped count, all other
  loops on their list, so no fuel is needed; the forwarder's draining is bounded by the measure
  \<open>work\<close>. A saved cache must have fewer than \<open>2 ^ 32\<close> blocks, and each encoding fewer than
  \<open>2 ^ 32\<close> bytes, since the file format has 32-bit lengths. The panics of zero capacities are
  modelled, those of capacities beyond the limits of \<open>tokio\<close> (near the width of \<open>usize\<close>) are not.

  \<^bold>\<open>Arguments of the model.\<close> What is not code of the repository is an argument with, where the
  code relies on it, a stated law: the LRU cache (\<open>lru_cache\<close>), the RLP codec (\<open>rlp_roundtrip\<close>), the
  hex and key codecs (\<open>key_codec_ok\<close>), the hash of a header, the answers of the fetch client, of the
  HTTP client, of sockets and channels, of the file system, of the TOML, JSON and argument parsers,
  and the clock. A mutex-guarded operation is one atomic step. Of the pool it is used that it holds
  only transactions the validator accepted; which it reports, drops or never reports is free.

  \<^bold>\<open>Not modelled.\<close> Log output (except the deduplicator's statistics line, without its
  floating-point rate), and the internals of the reth network, transaction pool and tokio runtime:
  building them succeeds or fails as an argument says, and what they do labels the steps of the node.
  The node key's use as the network's secret, the propagation of transactions between peers by reth's
  own transaction manager, and the time a step takes have no model.
\<close>

end
